(* ===== verification/Prelude.thy ===== *)
theory Prelude
  imports Main "HOL-Library.Char_ord" "HOL-Library.List_Lexorder"
begin

text \<open>
  What every component of the model shares.

  A Go \<open>string\<close> and a Go \<open>[]byte\<close> are sequences of bytes: both are the HOL type
  \<open>string\<close>, whose characters are the 256 bytes.  The order on strings is the byte order
  (List_Lexorder over Char_ord), the one \<open>sort.Strings\<close> and \<open><\<close> use.

  A Go \<open>error\<close> is a value of \<open>err\<close>: the sentinel it matches under \<open>errors.Is\<close>.  The text
  of a message is not modelled, no code branches on it.  A fallible function returns
  \<open>'a res\<close>, \<open>Inl\<close> the error.

  An \<open>int64\<close> is an \<open>int\<close>; where an addition or a product can leave the 64 bits, \<open>wrap64\<close>
  writes the wrap-around out.  A \<open>time.Time\<close> is the number of nanoseconds since Go's zero
  time, a \<open>Timestamp\<close> the same number truncated to microseconds.
\<close>

named_theorems res_simps \<open>how a result of a chain of fallible steps decomposes\<close>
named_theorems rec_simps \<open>what the operations on a job record leave unchanged\<close>

section \<open>Errors and results\<close>

datatype err =
    ErrNotFound
  | ErrLeaseHeld
  | ErrStaleEpoch
  | ErrLeaseExpiry
  | ErrTerminal
  | ErrConflict
  | ErrUnknownSchema
  | ErrInvalid
  | ErrNotSupported
  | ErrPlain string

type_synonym 'a res = "err + 'a"

definition rbind :: "'a res \<Rightarrow> ('a \<Rightarrow> 'b res) \<Rightarrow> 'b res" where
  "rbind r f = (case r of Inl e \<Rightarrow> Inl e | Inr x \<Rightarrow> f x)"

lemma rbind_simps [simp]:
  "rbind (Inl e) f = Inl e"
  "rbind (Inr x) f = f x"
  by (simp_all add: rbind_def)

lemma rbind_Inr_iff [res_simps]:
  "rbind r f = Inr y \<longleftrightarrow> (\<exists>x. r = Inr x \<and> f x = Inr y)"
  by (cases r) auto

lemma rbind_Inl_iff [res_simps]:
  "rbind r f = Inl e \<longleftrightarrow> r = Inl e \<or> (\<exists>x. r = Inr x \<and> f x = Inl e)"
  by (cases r) auto

lemma if_Inl_eq_Inr [res_simps]:
  "(if c then Inl e else r) = Inr y \<longleftrightarrow> \<not> c \<and> r = Inr y"
  by simp

section \<open>Machine integers\<close>

definition wrap64 :: "int \<Rightarrow> int" where
  "wrap64 n = (n + 2 ^ 63) mod 2 ^ 64 - 2 ^ 63"

definition int64 :: "int \<Rightarrow> bool" where
  "int64 n \<longleftrightarrow> - (2 ^ 63) \<le> n \<and> n < 2 ^ 63"

abbreviation max_int64 :: int where
  "max_int64 \<equiv> 9223372036854775807"

lemma int64_wrap64: "int64 (wrap64 n)"
  by (simp add: int64_def wrap64_def)

lemma wrap64_id: "int64 n \<Longrightarrow> wrap64 n = n"
  by (simp add: int64_def wrap64_def)

lemma wrap64_succ: "int64 n \<Longrightarrow> n < max_int64 \<Longrightarrow> wrap64 (n + 1) = n + 1"
  by (rule wrap64_id) (simp add: int64_def)

section \<open>Instants\<close>

type_synonym time = int
type_synonym duration = int

definition At :: "time \<Rightarrow> time" where
  "At t = (t div 1000) * 1000"

definition IsZero :: "time \<Rightarrow> bool" where
  "IsZero t \<longleftrightarrow> t = 0"

lemma At_le: "At t \<le> t"
  by (simp add: At_def)

lemma At_gt: "t < At t + 1000"
  unfolding At_def by presburger

lemma At_mono: "s \<le> t \<Longrightarrow> At s \<le> At t"
  by (simp add: At_def zdiv_mono1)

lemma At_idem [simp]: "At (At t) = At t"
  by (simp add: At_def)

section \<open>Lists the way the code searches them\<close>

fun contains :: "'a list \<Rightarrow> 'a \<Rightarrow> bool" where
  "contains [] want = False"
| "contains (x # list) want = (if x = want then True else contains list want)"

lemma contains_iff [simp]: "contains list want \<longleftrightarrow> want \<in> set list"
  by (induction list) auto

text \<open>The first duplicate-free suffix test: does a list repeat an element?\<close>

fun repeats :: "'a list \<Rightarrow> bool" where
  "repeats [] = False"
| "repeats (x # xs) = (x \<in> set xs \<or> repeats xs)"

lemma repeats_iff [simp]: "repeats xs \<longleftrightarrow> \<not> distinct xs"
  by (induction xs) auto

section \<open>Go maps with string keys\<close>

text \<open>
  A \<open>map[string]V\<close> is an association list that repeats no key.  Go's iteration order is
  unspecified: the model uses a map only through lookups, updates and the sorted list of
  its keys, which do not depend on it.
\<close>

type_synonym 'v gomap = "(string \<times> 'v) list"

fun gomap_put :: "string \<Rightarrow> 'v \<Rightarrow> 'v gomap \<Rightarrow> 'v gomap" where
  "gomap_put k v [] = [(k, v)]"
| "gomap_put k v ((k', v') # m) = (if k = k' then (k, v) # m else (k', v') # gomap_put k v m)"

definition gomap_delete :: "string \<Rightarrow> 'v gomap \<Rightarrow> 'v gomap" where
  "gomap_delete k m = filter (\<lambda>(k', _). k' \<noteq> k) m"

definition gomap_keys :: "'v gomap \<Rightarrow> string list" where
  "gomap_keys m = sort (map fst m)"

definition gomap_wf :: "'v gomap \<Rightarrow> bool" where
  "gomap_wf m \<longleftrightarrow> distinct (map fst m)"

lemma fst_gomap_put: "fst ` set (gomap_put k v m) = insert k (fst ` set m)"
  by (induction k v m rule: gomap_put.induct) (simp_all, blast)

lemma map_of_gomap_put: "map_of (gomap_put k v m) = (map_of m)(k \<mapsto> v)"
  by (induction m) (auto simp: fun_eq_iff)

lemma gomap_wf_put: "gomap_wf m \<Longrightarrow> gomap_wf (gomap_put k v m)"
proof (induction m)
  case Nil
  then show ?case by (simp add: gomap_wf_def)
next
  case (Cons p m)
  then show ?case
    using fst_gomap_put [of k v m] by (cases p) (auto simp: gomap_wf_def)
qed

lemma map_of_gomap_delete: "map_of (gomap_delete k m) = (map_of m)(k := None)"
  by (induction m) (auto simp: gomap_delete_def fun_eq_iff)

lemma fst_gomap_delete: "fst ` set (gomap_delete k m) = fst ` set m - {k}"
  by (induction m) (auto simp: gomap_delete_def)

lemma gomap_wf_delete: "gomap_wf m \<Longrightarrow> gomap_wf (gomap_delete k m)"
  by (induction m) (auto simp: gomap_wf_def gomap_delete_def)

lemma set_gomap_keys [simp]: "set (gomap_keys m) = fst ` set m"
  by (simp add: gomap_keys_def)

lemma sorted_gomap_keys [simp]: "sorted (gomap_keys m)"
  by (simp add: gomap_keys_def)

lemma distinct_gomap_keys: "gomap_wf m \<Longrightarrow> distinct (gomap_keys m)"
  by (simp add: gomap_keys_def gomap_wf_def)

end
