(* ===== verification/GoText.thy ===== *)
theory GoText
  imports Prelude
begin

text \<open>
  The part of Go's \<open>unicode/utf8\<close>, \<open>unicode\<close> and \<open>strings\<close> packages the source calls:
  decoding runes, \<open>utf8.ValidString\<close>, \<open>strings.TrimSpace\<close>, \<open>strings.Count\<close>,
  \<open>strings.IndexByte\<close>, \<open>strings.Split\<close> on one byte, and decimal numbers
  (\<open>strconv.FormatInt\<close>, \<open>strconv.ParseInt\<close>).
\<close>

definition byte :: "char \<Rightarrow> nat" where
  "byte c = of_char c"

lemma byte_less [simp]: "byte c < 256"
  by (simp add: byte_def)

lemma byte_inject [simp]: "byte c = byte d \<longleftrightarrow> c = d"
  by (simp add: byte_def)

section \<open>Runes\<close>

definition between :: "nat \<Rightarrow> char \<Rightarrow> nat \<Rightarrow> bool" where
  "between lo c hi \<longleftrightarrow> lo \<le> byte c \<and> byte c \<le> hi"

definition RuneError :: nat where
  "RuneError = 0xFFFD"

text \<open>\<open>utf8.DecodeRuneInString\<close>: the rune a string starts with and its width.\<close>

definition decode_rune :: "string \<Rightarrow> nat \<times> nat" where
  "decode_rune s = (case s of
     [] \<Rightarrow> (RuneError, 0)
   | c0 # r \<Rightarrow>
      (let b0 = byte c0; bad = (RuneError, 1) in
       if b0 < 0x80 then (b0, 1)
       else if 0xC2 \<le> b0 \<and> b0 \<le> 0xDF then
         (case r of
            c1 # _ \<Rightarrow> if between 0x80 c1 0xBF then ((b0 - 0xC0) * 64 + (byte c1 - 0x80), 2) else bad
          | _ \<Rightarrow> bad)
       else if 0xE0 \<le> b0 \<and> b0 \<le> 0xEF then
         (case r of
            c1 # c2 # _ \<Rightarrow>
              if between (if b0 = 0xE0 then 0xA0 else 0x80) c1 (if b0 = 0xED then 0x9F else 0xBF)
                 \<and> between 0x80 c2 0xBF
              then (((b0 - 0xE0) * 64 + (byte c1 - 0x80)) * 64 + (byte c2 - 0x80), 3) else bad
          | _ \<Rightarrow> bad)
       else if 0xF0 \<le> b0 \<and> b0 \<le> 0xF4 then
         (case r of
            c1 # c2 # c3 # _ \<Rightarrow>
              if between (if b0 = 0xF0 then 0x90 else 0x80) c1 (if b0 = 0xF4 then 0x8F else 0xBF)
                 \<and> between 0x80 c2 0xBF \<and> between 0x80 c3 0xBF
              then ((((b0 - 0xF0) * 64 + (byte c1 - 0x80)) * 64 + (byte c2 - 0x80)) * 64
                     + (byte c3 - 0x80), 4) else bad
          | _ \<Rightarrow> bad)
       else bad))"

lemma decode_rune_Nil [simp]: "decode_rune [] = (RuneError, 0)"
  by (simp add: decode_rune_def)

lemma decode_rune_ascii [simp]: "byte c < 0x80 \<Longrightarrow> decode_rune (c # s) = (byte c, 1)"
  by (simp add: decode_rune_def Let_def)

lemma decode_rune_width: "s \<noteq> [] \<Longrightarrow> 0 < snd (decode_rune s) \<and> snd (decode_rune s) \<le> length s"
  by (auto simp: decode_rune_def Let_def split: list.splits)

text \<open>A string as the runes a \<open>range\<close> loop meets, each with the bytes it covers.\<close>

function runes :: "string \<Rightarrow> (nat \<times> string) list" where
  "runes s =
     (if s = [] then []
      else let (r, n) = decode_rune s in (r, take n s) # runes (drop n s))"
  by pat_completeness auto
termination
proof (relation "measure length", simp)
  fix s :: string and x r n
  assume "s \<noteq> []" "x = decode_rune s" "(r, n) = x"
  then have "0 < n"
    using decode_rune_width [of s] by (cases "decode_rune s") auto
  with \<open>s \<noteq> []\<close> show "(drop n s, s) \<in> measure length"
    by auto
qed

declare runes.simps [simp del]

lemma runes_Nil [simp]: "runes [] = []"
  by (simp add: runes.simps)

text \<open>The equations to evaluate \<open>runes\<close> by: they wait for the argument to be a literal.\<close>

lemma runes_code [code]:
  "runes [] = []"
  "runes (c # s) = (case decode_rune (c # s) of (r, n) \<Rightarrow> (r, take n (c # s)) # runes (drop n (c # s)))"
  by (simp_all add: runes.simps [of "c # s"])

lemma runes_ascii [simp]: "byte c < 0x80 \<Longrightarrow> runes (c # s) = (byte c, [c]) # runes s"
  by (simp add: runes.simps [of "c # s"])

lemma concat_runes: "concat (map snd (runes s)) = s"
proof (induction s rule: runes.induct)
  case (1 s)
  show ?case
  proof (cases "s = []")
    case False
    obtain r n where rn: "decode_rune s = (r, n)"
      by (cases "decode_rune s")
    with False 1 have "concat (map snd (runes (drop n s))) = drop n s"
      by simp
    with False rn show ?thesis
      by (simp add: runes.simps [of s])
  qed simp
qed

definition ValidString :: "string \<Rightarrow> bool" where
  "ValidString s \<longleftrightarrow> list_all (\<lambda>(r, w). \<not> (r = RuneError \<and> length w \<le> 1)) (runes s)"

lemma ValidString_Nil [simp]: "ValidString []"
  by (simp add: ValidString_def)

lemma ValidString_ascii [simp]: "byte c < 0x80 \<Longrightarrow> ValidString (c # s) = ValidString s"
  by (simp add: ValidString_def RuneError_def)

section \<open>White space\<close>

text \<open>\<open>unicode.IsSpace\<close>.\<close>

definition IsSpace :: "nat \<Rightarrow> bool" where
  "IsSpace r \<longleftrightarrow> (9 \<le> r \<and> r \<le> 13) \<or> r = 32 \<or> r = 0x85 \<or> r = 0xA0 \<or> r = 0x1680
     \<or> (0x2000 \<le> r \<and> r \<le> 0x200A) \<or> r = 0x2028 \<or> r = 0x2029 \<or> r = 0x202F \<or> r = 0x205F
     \<or> r = 0x3000"

definition TrimSpace :: "string \<Rightarrow> string" where
  "TrimSpace s =
     (let sp = (\<lambda>(r, _ :: string). IsSpace r)
      in concat (map snd (rev (dropWhile sp (rev (dropWhile sp (runes s)))))))"

text \<open>\<open>strings.TrimSpace(s) == ""\<close>, the test for a name that says nothing.\<close>

definition blank :: "string \<Rightarrow> bool" where
  "blank s \<longleftrightarrow> TrimSpace s = []"

lemma TrimSpace_Nil [simp]: "TrimSpace [] = []"
  by (simp add: TrimSpace_def)

lemma blank_Nil [simp]: "blank []"
  by (simp add: blank_def)

lemma runes_nonempty_bytes: "(r, w) \<in> set (runes s) \<Longrightarrow> w \<noteq> []"
proof (induction s rule: runes.induct)
  case (1 s)
  show ?case
  proof (cases "s = []")
    case True
    with 1 show ?thesis by simp
  next
    case False
    obtain r' n where rn: "decode_rune s = (r', n)"
      by (cases "decode_rune s")
    with False have n: "0 < n"
      using decode_rune_width [of s] by simp
    from "1.prems" False rn have "(r, w) = (r', take n s) \<or> (r, w) \<in> set (runes (drop n s))"
      by (simp add: runes.simps [of s])
    with "1.IH" [OF False rn [symmetric] refl] False n show ?thesis
      by auto
  qed
qed

lemma blank_iff: "blank s \<longleftrightarrow> list_all (\<lambda>(r, _). IsSpace r) (runes s)"
proof -
  have A: "concat (map snd xs) = [] \<longleftrightarrow> xs = []" if "set xs \<subseteq> set (runes s)"
    for xs :: "(nat \<times> string) list"
    using that runes_nonempty_bytes [of _ _ s] by (cases xs) force+
  let ?sp = "\<lambda>(r, _ :: string). IsSpace r"
  have "blank s \<longleftrightarrow> rev (dropWhile ?sp (rev (dropWhile ?sp (runes s)))) = []"
    unfolding blank_def TrimSpace_def Let_def
    by (rule A) (auto dest!: set_dropWhileD)
  also have "\<dots> \<longleftrightarrow> (\<forall>x \<in> set (dropWhile ?sp (runes s)). ?sp x)"
    by simp
  also have "\<dots> \<longleftrightarrow> list_all ?sp (runes s)"
  proof
    assume *: "\<forall>x \<in> set (dropWhile ?sp (runes s)). ?sp x"
    show "list_all ?sp (runes s)"
    proof (rule ccontr)
      assume "\<not> list_all ?sp (runes s)"
      then have ne: "dropWhile ?sp (runes s) \<noteq> []"
        by (auto simp: list_all_iff)
      with hd_dropWhile [OF this] * show False
        by (meson list.set_sel(1))
    qed
  next
    assume "list_all ?sp (runes s)"
    then show "\<forall>x \<in> set (dropWhile ?sp (runes s)). ?sp x"
      by (metis list_all_iff set_dropWhileD)
  qed
  finally show ?thesis .
qed

section \<open>Searching and splitting\<close>

fun Count :: "string \<Rightarrow> char \<Rightarrow> nat" where
  "Count [] c = 0"
| "Count (x # s) c = (if x = c then Suc (Count s c) else Count s c)"

text \<open>\<open>strings.Split(s, sep)\<close> for a separator of one byte.\<close>

fun Split :: "string \<Rightarrow> char \<Rightarrow> string list" where
  "Split [] c = [[]]"
| "Split (x # s) c =
     (if x = c then [] # Split s c
      else (case Split s c of [] \<Rightarrow> [[x]] | w # ws \<Rightarrow> (x # w) # ws))"

text \<open>\<open>s[:i]\<close> and \<open>s[i+1:]\<close> at the first occurrence \<open>i\<close> of a byte.\<close>

definition before_byte :: "string \<Rightarrow> char \<Rightarrow> string" where
  "before_byte s c = takeWhile (\<lambda>x. x \<noteq> c) s"

definition after_byte :: "string \<Rightarrow> char \<Rightarrow> string" where
  "after_byte s c = tl (dropWhile (\<lambda>x. x \<noteq> c) s)"

lemma Count_zero_iff [simp]: "Count s c = 0 \<longleftrightarrow> c \<notin> set s"
  by (induction s) auto

lemma Count_append [simp]: "Count (s @ t) c = Count s c + Count t c"
  by (induction s) auto

lemma before_after: "c \<in> set s \<Longrightarrow> s = before_byte s c @ c # after_byte s c"
  by (induction s) (auto simp: before_byte_def after_byte_def)

lemma before_byte_append: "c \<notin> set a \<Longrightarrow> before_byte (a @ c # b) c = a"
  by (induction a) (auto simp: before_byte_def)

lemma after_byte_append: "c \<notin> set a \<Longrightarrow> after_byte (a @ c # b) c = b"
  by (induction a) (auto simp: after_byte_def)

lemma Split_nonempty [simp]: "Split s c \<noteq> []"
  by (induction s) (auto split: list.splits)

lemma set_Split: "w \<in> set (Split s c) \<Longrightarrow> set w \<subseteq> set s - {c}"
proof (induction s arbitrary: w)
  case (Cons x s)
  show ?case
  proof (cases "x = c")
    case True
    with Cons show ?thesis by fastforce
  next
    case False
    obtain v vs where v: "Split s c = v # vs"
      using Split_nonempty [of s c] by (cases "Split s c") auto
    with Cons.prems False consider "w = x # v" | "w \<in> set vs"
      by auto
    then show ?thesis
      using Cons.IH [of v] Cons.IH [of w] v False by cases auto
  qed
qed simp

section \<open>Decimal numbers\<close>

definition digit :: "nat \<Rightarrow> char" where
  "digit d = char_of (48 + d)"

definition is_digit :: "char \<Rightarrow> bool" where
  "is_digit c \<longleftrightarrow> between 48 c 57"

fun nat_digits :: "nat \<Rightarrow> string" where
  "nat_digits n = (if n < 10 then [digit n] else nat_digits (n div 10) @ [digit (n mod 10)])"

declare nat_digits.simps [simp del]

definition FormatInt :: "int \<Rightarrow> string" where
  "FormatInt n = (if n < 0 then CHR ''-'' # nat_digits (nat (- n)) else nat_digits (nat n))"

definition digits_value :: "string \<Rightarrow> nat" where
  "digits_value s = foldl (\<lambda>a c. a * 10 + (byte c - 48)) 0 s"

text \<open>\<open>strconv.ParseInt(s, 10, 64)\<close>: \<open>None\<close> where it returns an error.\<close>

definition ParseInt :: "string \<Rightarrow> int option" where
  "ParseInt s =
     (let (neg, ds) = (case s of
           c # r \<Rightarrow> if c = CHR ''-'' then (True, r) else if c = CHR ''+'' then (False, r) else (False, s)
         | [] \<Rightarrow> (False, []));
          n = (if neg then - int (digits_value ds) else int (digits_value ds))
      in if ds = [] \<or> \<not> list_all is_digit ds \<or> \<not> int64 n then None else Some n)"

lemma byte_digit: "d < 10 \<Longrightarrow> byte (digit d) = 48 + d"
  by (simp add: byte_def digit_def)

lemma is_digit_digit: "d < 10 \<Longrightarrow> is_digit (digit d)"
  by (simp add: is_digit_def between_def byte_digit)

lemma is_digit_not_sign: "is_digit c \<Longrightarrow> c \<noteq> CHR ''-'' \<and> c \<noteq> CHR ''+''"
  by (auto simp: is_digit_def between_def byte_def)

lemma nat_digits_digits: "list_all is_digit (nat_digits n)"
  by (induction n rule: nat_digits.induct) (subst nat_digits.simps, simp add: is_digit_digit)

lemma nat_digits_nonempty [simp]: "nat_digits n \<noteq> []"
  by (subst nat_digits.simps) simp

lemma digits_value_snoc: "digits_value (s @ [c]) = digits_value s * 10 + (byte c - 48)"
  by (simp add: digits_value_def)

lemma digits_value_nat_digits: "digits_value (nat_digits n) = n"
proof (induction n rule: nat_digits.induct)
  case (1 n)
  show ?case
  proof (cases "n < 10")
    case True
    then show ?thesis
      by (subst nat_digits.simps) (simp add: digits_value_def byte_digit)
  next
    case False
    with 1 show ?thesis
      by (subst nat_digits.simps) (simp add: digits_value_snoc byte_digit)
  qed
qed

lemma nat_digits_not_sign:
  "nat_digits n = c # r \<Longrightarrow> c \<noteq> CHR ''-'' \<and> c \<noteq> CHR ''+''"
  using nat_digits_digits [of n] by (auto dest: is_digit_not_sign)

lemma ParseInt_FormatInt: "int64 n \<Longrightarrow> ParseInt (FormatInt n) = Some n"
proof (cases "n < 0")
  case True
  moreover assume "int64 n"
  ultimately show ?thesis
    by (simp add: FormatInt_def ParseInt_def digits_value_nat_digits nat_digits_digits)
next
  case False
  moreover assume "int64 n"
  moreover obtain c r where "nat_digits (nat n) = c # r"
    by (cases "nat_digits (nat n)") auto
  moreover from this have "c \<noteq> CHR ''-'' \<and> c \<noteq> CHR ''+''"
    by (rule nat_digits_not_sign)
  moreover have "digits_value (nat_digits (nat n)) = nat n" "list_all is_digit (nat_digits (nat n))"
    by (simp_all add: digits_value_nat_digits nat_digits_digits)
  ultimately show ?thesis
    by (simp add: FormatInt_def ParseInt_def)
qed

end
