(* ===== verification/Envelope.thy ===== *)
theory Envelope
  imports GoText
begin

text \<open>
  The envelope of go/envelope.go: the grammar of schema identifiers and action names, the
  validation of a record's declaration, and the comparison that keeps it from moving.
  The operations on a whole record (\<open>Supports\<close>, \<open>Ask\<close>) are in theory JobRecord.
\<close>

section \<open>The base vocabulary\<close>

definition FeatureBase :: string where
  "FeatureBase = ''abstraction.job/base@1''"

definition BaseSchema :: string where
  "BaseSchema = FeatureBase"

definition FeatureEnvelope :: string where
  "FeatureEnvelope = ''abstraction.job/envelope@1''"

definition ActionPause :: string where "ActionPause = ''pause''"
definition ActionResume :: string where "ActionResume = ''resume''"
definition ActionCancel :: string where "ActionCancel = ''cancel''"
definition ActionRecall :: string where "ActionRecall = ''recall''"

definition BaseActions :: "string list" where
  "BaseActions = [ActionCancel, ActionPause, ActionRecall, ActionResume]"

lemmas action_defs = ActionPause_def ActionResume_def ActionCancel_def ActionRecall_def

record Envelope =
  eSchema :: string
  eActions :: "string list"

section \<open>The grammar of schema identifiers\<close>

definition maxSchema :: nat where "maxSchema = 128"
definition maxLabel :: nat where "maxLabel = 63"
definition maxAction :: nat where "maxAction = 64"

definition lowerAlnum :: "char \<Rightarrow> bool" where
  "lowerAlnum c \<longleftrightarrow> between 97 c 122 \<or> between 48 c 57"

definition label :: "string \<Rightarrow> bool" where
  "label s \<longleftrightarrow> \<not> (s = [] \<or> length s > maxLabel) \<and> lowerAlnum (hd s) \<and> lowerAlnum (last s)
     \<and> list_all (\<lambda>c. lowerAlnum c \<or> c = CHR ''-'') s"

definition version :: "string \<Rightarrow> bool" where
  "version s \<longleftrightarrow> \<not> (s = [] \<or> length s > 9) \<and> between 49 (hd s) 57 \<and> list_all (\<lambda>c. between 48 c 57) s"

text \<open>\<open>strings.IndexByte\<close>, which the code calls on a byte that occurs.\<close>

definition IndexByte :: "string \<Rightarrow> char \<Rightarrow> nat" where
  "IndexByte s c = length (before_byte s c)"

definition ValidSchema :: "string \<Rightarrow> bool" where
  "ValidSchema s \<longleftrightarrow>
     (if s = [] \<or> length s > maxSchema then False
      else if Count s (CHR ''/'') \<noteq> 1 \<or> Count s (CHR ''@'') \<noteq> 1 then False
      else
        let slash = IndexByte s (CHR ''/''); at = IndexByte s (CHR ''@'')
        in if at < slash then False
           else if \<not> list_all label (Split (take slash s) (CHR ''.'')) then False
           else label (drop (slash + 1) (take at s)) \<and> version (drop (at + 1) s))"

definition bareAction :: "string \<Rightarrow> bool" where
  "bareAction s \<longleftrightarrow> \<not> (s = [] \<or> length s > maxAction) \<and> lowerAlnum (hd s) \<and> lowerAlnum (last s)
     \<and> list_all (\<lambda>c. lowerAlnum c \<or> c = CHR ''-'' \<or> c = CHR ''_'') s"

definition SplitAction :: "string \<Rightarrow> string \<times> string \<times> bool" where
  "SplitAction name =
     (if Count name (CHR ''#'') = 0 then ([], name, bareAction name)
      else if Count name (CHR ''#'') = 1 then
        let i = IndexByte name (CHR ''#''); schema = take i name; bare = drop (i + 1) name
        in (schema, bare, ValidSchema schema \<and> bareAction bare)
      else ([], [], False))"

section \<open>Validation of an envelope\<close>

text \<open>The loop over the declared actions: \<open>seen\<close> holds the names already met.\<close>

fun validate_actions :: "string \<Rightarrow> string list \<Rightarrow> string list \<Rightarrow> unit res" where
  "validate_actions eschema seen [] = Inr ()"
| "validate_actions eschema seen (name # names) =
     (if name \<in> set seen then Inl ErrInvalid
      else
        let (schema, bare, ok) = SplitAction name
        in if \<not> ok then Inl ErrInvalid
           else if schema = [] then
             (if bare \<notin> set BaseActions then Inl ErrInvalid
              else validate_actions eschema (name # seen) names)
           else if schema = BaseSchema then Inl ErrInvalid
           else if schema \<noteq> eschema then Inl ErrInvalid
           else validate_actions eschema (name # seen) names)"

definition validate_envelope :: "Envelope \<Rightarrow> unit res" where
  "validate_envelope e =
     (if \<not> ValidSchema (eSchema e) then Inl ErrInvalid
      else validate_actions (eSchema e) [] (eActions e))"

text \<open>A missing envelope is \<open>None\<close>, the nil pointer of the source.\<close>

definition sameEnvelope :: "Envelope option \<Rightarrow> Envelope option \<Rightarrow> bool" where
  "sameEnvelope a b =
     (case (a, b) of
        (Some x, Some y) \<Rightarrow>
          if eSchema x \<noteq> eSchema y \<or> length (eActions x) \<noteq> length (eActions y) then False
          else list_all (\<lambda>(u, v). u = v) (zip (eActions x) (eActions y))
      | (None, None) \<Rightarrow> True
      | _ \<Rightarrow> False)"

definition envelopeUnmoved :: "Envelope option \<Rightarrow> Envelope option \<Rightarrow> unit res" where
  "envelopeUnmoved before after = (if sameEnvelope before after then Inr () else Inl ErrInvalid)"

lemma zip_all_eq: "length xs = length ys \<Longrightarrow> list_all (\<lambda>(u, v). u = v) (zip xs ys) \<longleftrightarrow> xs = ys"
  by (induction xs ys rule: list_induct2) auto

lemma sameEnvelope_iff [simp]: "sameEnvelope a b \<longleftrightarrow> a = b"
  by (cases a; cases b)
    (auto simp: sameEnvelope_def zip_all_eq Envelope.equality dest: arg_cong [where f = length])

lemma envelopeUnmoved_Inr [simp]: "envelopeUnmoved a b = Inr u \<longleftrightarrow> a = b"
  by (simp add: envelopeUnmoved_def)

section \<open>What the grammar admits\<close>

lemma Count_append_cons: "Count (a @ c # b) d = Count a d + (if c = d then 1 else 0) + Count b d"
  by simp

lemma Count_one:
  assumes "Count s c = Suc 0"
  shows "s = before_byte s c @ c # after_byte s c" "c \<notin> set (before_byte s c)" "c \<notin> set (after_byte s c)"
proof -
  have "c \<in> set s"
    using assms Count_zero_iff [of s c] by force
  then show eq: "s = before_byte s c @ c # after_byte s c" by (rule before_after)
  show b: "c \<notin> set (before_byte s c)"
    by (auto simp: before_byte_def dest: set_takeWhileD)
  have "Count (before_byte s c @ c # after_byte s c) c = Suc 0"
    using assms eq by simp
  with b show "c \<notin> set (after_byte s c)"
    by (simp add: Count_zero_iff [symmetric] del: Count_zero_iff)
qed

lemma IndexByte_append [simp]: "c \<notin> set a \<Longrightarrow> IndexByte (a @ c # b) c = length a"
  by (simp add: IndexByte_def before_byte_append)

text \<open>The characters of an identifier, none of which separates the parts of a URL, a path or a
  command line.\<close>

definition name_char :: "char \<Rightarrow> bool" where
  "name_char c \<longleftrightarrow> lowerAlnum c \<or> c = CHR ''-''"

lemma name_char_plain:
  "name_char c \<Longrightarrow> c \<noteq> CHR ''/'' \<and> c \<noteq> CHR ''@'' \<and> c \<noteq> CHR ''.'' \<and> c \<noteq> CHR '':'' \<and> c \<noteq> CHR 0x5C
     \<and> c \<noteq> CHR ''%'' \<and> c \<noteq> CHR ''?'' \<and> c \<noteq> CHR ''#'' \<and> c \<noteq> CHR '' '' \<and> c \<noteq> CHR ''_''"
  by (auto simp: name_char_def lowerAlnum_def between_def byte_def)

lemma label_chars: "label s \<Longrightarrow> c \<in> set s \<Longrightarrow> name_char c"
  by (auto simp: label_def list_all_iff name_char_def)

lemma version_chars: "version s \<Longrightarrow> c \<in> set s \<Longrightarrow> name_char c"
  by (auto simp: version_def list_all_iff name_char_def lowerAlnum_def)

lemma bareAction_chars: "bareAction s \<Longrightarrow> c \<in> set s \<Longrightarrow> name_char c \<or> c = CHR ''_''"
  by (auto simp: bareAction_def list_all_iff name_char_def)

lemma set_Split_covers: "c \<in> set s \<Longrightarrow> c \<noteq> d \<Longrightarrow> \<exists>w \<in> set (Split s d). c \<in> set w"
proof (induction s)
  case (Cons x s)
  show ?case
    using Cons by (cases "Split s d") (auto split: list.splits)
qed simp

lemma Split_chars:
  "list_all label (Split s (CHR ''.'')) \<Longrightarrow> c \<in> set s \<Longrightarrow> name_char c \<or> c = CHR ''.''"
  using set_Split_covers [of c s "CHR ''.''"] label_chars by (auto simp: list_all_iff)

lemma Split_label_edges:
  assumes "list_all label (Split s (CHR ''.''))"
  shows "s \<noteq> [] \<and> lowerAlnum (hd s)"
proof (cases s)
  case Nil
  with assms show ?thesis by (simp add: label_def)
next
  case (Cons x t)
  with assms show ?thesis
    by (auto simp: label_def split: if_splits list.splits)
qed

lemma two_separators:
  assumes "Count s c = Suc 0" "Count s d = Suc 0" "c \<noteq> d" "\<not> IndexByte s d < IndexByte s c"
  shows "\<exists>a b e. s = a @ c # b @ d # e \<and> IndexByte s c = length a \<and> IndexByte s d = length a + 1 + length b"
proof -
  define x y where "x = before_byte s c" and "y = after_byte s c"
  have s: "s = x @ c # y" and c: "c \<notin> set x"
    using Count_one [OF assms(1)] by (simp_all add: x_def y_def)
  have d: "d \<notin> set x"
  proof
    assume "d \<in> set x"
    from split_list_first [OF this] obtain x1 x2 where x: "x = x1 @ d # x2" "d \<notin> set x1"
      by blast
    then have "IndexByte s d = length x1" "IndexByte s c = length x"
      using s c IndexByte_append [of d x1 "x2 @ c # y"] IndexByte_append [of c x y] by simp_all
    with assms(4) x show False by simp
  qed
  have "Count s d = Count y d"
    using d assms(3) by (simp add: s)
  then have "d \<in> set y"
    using assms(2) Count_zero_iff [of y d] by (metis nat.simps(3))
  from split_list_first [OF this] obtain b e where y: "y = b @ d # e" "d \<notin> set b"
    by blast
  have "IndexByte s c = length a" "IndexByte s d = length x + 1 + length b" if "a = x" for a
    using that s c d y assms(3) IndexByte_append [of d "x @ c # b" e] by simp_all
  with s y show ?thesis by auto
qed

text \<open>\<open>ValidSchema\<close> accepts exactly the texts namespace/name@version of at most 128 bytes, whose
  namespace is a dot-separated list of labels, whose name is a label and whose version is a
  positive number of at most nine digits.\<close>

theorem ValidSchema_grammar:
  "ValidSchema s \<longleftrightarrow> length s \<le> maxSchema
     \<and> (\<exists>ns name v. s = ns @ CHR ''/'' # name @ CHR ''@'' # v
          \<and> list_all label (Split ns (CHR ''.'')) \<and> label name \<and> version v)"
proof
  assume v: "ValidSchema s"
  then have one: "Count s (CHR ''/'') = Suc 0" "Count s (CHR ''@'') = Suc 0"
    and le: "\<not> IndexByte s (CHR ''@'') < IndexByte s (CHR ''/'')"
    by (auto simp: ValidSchema_def Let_def split: if_splits)
  then obtain ns name w where s: "s = ns @ CHR ''/'' # name @ CHR ''@'' # w"
    and idx: "IndexByte s (CHR ''/'') = length ns" "IndexByte s (CHR ''@'') = length ns + 1 + length name"
    using two_separators [of s "CHR ''/''" "CHR ''@''"] by auto
  have parts: "take (length ns) s = ns" "drop (length ns + 1) (take (length ns + 1 + length name) s) = name"
    "drop (length ns + 1 + length name + 1) s = w"
    by (simp_all add: s)
  have "list_all label (Split ns (CHR ''.'')) \<and> label name \<and> version w \<and> length s \<le> maxSchema"
    using v unfolding ValidSchema_def Let_def idx parts by (simp split: if_splits)
  with s show "length s \<le> maxSchema \<and> (\<exists>ns name v. s = ns @ CHR ''/'' # name @ CHR ''@'' # v
          \<and> list_all label (Split ns (CHR ''.'')) \<and> label name \<and> version v)"
    by blast
next
  assume "length s \<le> maxSchema \<and> (\<exists>ns name v. s = ns @ CHR ''/'' # name @ CHR ''@'' # v
          \<and> list_all label (Split ns (CHR ''.'')) \<and> label name \<and> version v)"
  then obtain ns name v where s: "s = ns @ CHR ''/'' # name @ CHR ''@'' # v" "length s \<le> maxSchema"
    and p: "list_all label (Split ns (CHR ''.''))" "label name" "version v"
    by blast
  have out: "CHR ''/'' \<notin> set ns" "CHR ''@'' \<notin> set ns" "CHR ''/'' \<notin> set name" "CHR ''@'' \<notin> set name"
    "CHR ''/'' \<notin> set v" "CHR ''@'' \<notin> set v"
    using Split_chars [OF p(1)] label_chars [OF p(2)] version_chars [OF p(3)] name_char_plain by blast+
  have "s = (ns @ CHR ''/'' # name) @ CHR ''@'' # v" using s by simp
  then have idx: "IndexByte s (CHR ''@'') = length ns + 1 + length name" "IndexByte s (CHR ''/'') = length ns"
    using out s(1) IndexByte_append [of "CHR ''@''" "ns @ CHR ''/'' # name" v] by auto
  have "Count s (CHR ''/'') = 1" "Count s (CHR ''@'') = 1"
    unfolding s(1) using out by simp_all
  then show "ValidSchema s"
    using s p idx by (simp add: ValidSchema_def Let_def)
qed


text \<open>A schema identifier and an action name as texts of a small alphabet.\<close>

lemma ValidSchema_chars:
  assumes "ValidSchema s" "c \<in> set s"
  shows "name_char c \<or> c = CHR ''.'' \<or> c = CHR ''/'' \<or> c = CHR ''@''"
proof -
  obtain ns name v where "s = ns @ CHR ''/'' # name @ CHR ''@'' # v"
    "list_all label (Split ns (CHR ''.''))" "label name" "version v"
    using assms(1) ValidSchema_grammar by blast
  then show ?thesis
    using assms(2) Split_chars label_chars version_chars by fastforce
qed

lemma ValidSchema_no_hash: "ValidSchema s \<Longrightarrow> CHR ''#'' \<notin> set s"
  using ValidSchema_chars [of s "CHR ''#''"] name_char_plain [of "CHR ''#''"] by auto

lemma ValidSchema_nonempty: "ValidSchema s \<Longrightarrow> s \<noteq> []"
  by (auto simp: ValidSchema_def)

lemma bareAction_no_hash: "bareAction s \<Longrightarrow> CHR ''#'' \<notin> set s"
  using bareAction_chars [of s "CHR ''#''"] name_char_plain [of "CHR ''#''"] by auto

lemma SplitAction_ok:
  "SplitAction name = (schema, bare, True) \<Longrightarrow>
     bareAction bare \<and> (if schema = [] then name = bare
       else ValidSchema schema \<and> name = schema @ CHR ''#'' # bare)"
proof -
  assume ok: "SplitAction name = (schema, bare, True)"
  consider (0) "Count name (CHR ''#'') = 0" | (1) "Count name (CHR ''#'') = Suc 0"
    | (2) "Count name (CHR ''#'') \<noteq> 0" "Count name (CHR ''#'') \<noteq> Suc 0"
    by blast
  then show ?thesis
  proof cases
    case 1
    define a b where "a = before_byte name (CHR ''#'')" and "b = after_byte name (CHR ''#'')"
    have n: "name = a @ CHR ''#'' # b" "CHR ''#'' \<notin> set a"
      using Count_one [OF 1] by (simp_all add: a_def b_def)
    then show ?thesis
      using ok 1 ValidSchema_nonempty [of schema] by (auto simp: SplitAction_def Let_def)
  qed (use ok in \<open>auto simp: SplitAction_def\<close>)
qed

lemma SplitAction_bare: "bareAction b \<Longrightarrow> SplitAction b = ([], b, True)"
  using bareAction_no_hash [of b] by (simp add: SplitAction_def)

lemma SplitAction_qualified:
  "ValidSchema s \<Longrightarrow> bareAction b \<Longrightarrow> SplitAction (s @ CHR ''#'' # b) = (s, b, True)"
  using bareAction_no_hash [of b] ValidSchema_no_hash [of s] by (simp add: SplitAction_def)

text \<open>\<open>SplitAction\<close> is exact: the texts it accepts are the bare names, and the names qualified by
  one schema identifier, and what it returns is the only way to write the name that way.\<close>

theorem SplitAction_exact:
  "SplitAction name = (schema, bare, True) \<longleftrightarrow>
     bareAction bare \<and> (schema = [] \<and> name = bare
       \<or> ValidSchema schema \<and> name = schema @ CHR ''#'' # bare)"
  using SplitAction_ok [of name schema bare] SplitAction_bare SplitAction_qualified
  by (auto split: if_splits)

lemma BaseActions_bare: "b \<in> set BaseActions \<Longrightarrow> bareAction b"
  by (auto simp: BaseActions_def action_defs bareAction_def maxAction_def lowerAlnum_def between_def byte_def)

lemma validate_actions_iff:
  "validate_actions es seen names = Inr () \<longleftrightarrow>
     distinct names \<and> set names \<inter> set seen = {}
     \<and> (\<forall>n \<in> set names. \<exists>schema bare. SplitAction n = (schema, bare, True)
          \<and> (schema = [] \<and> bare \<in> set BaseActions \<or> schema \<noteq> [] \<and> schema \<noteq> BaseSchema \<and> schema = es))"
proof (induction names arbitrary: seen)
  case (Cons n names)
  obtain sc b ok where "SplitAction n = (sc, b, ok)"
    by (cases "SplitAction n") auto
  with Cons show ?case
    by (auto split: if_splits)
qed simp

text \<open>C31: \<open>Envelope.validate\<close> accepts an envelope exactly when its schema is an identifier, no action
  is declared twice, and each action is one of this layer's four bare names or a name
  qualified by the record's own schema, which is then not the base schema.\<close>

theorem validate_envelope_iff:
  "validate_envelope e = Inr () \<longleftrightarrow>
     ValidSchema (eSchema e) \<and> distinct (eActions e)
     \<and> (\<forall>n \<in> set (eActions e). n \<in> set BaseActions
          \<or> eSchema e \<noteq> BaseSchema \<and> (\<exists>bare. bareAction bare \<and> n = eSchema e @ CHR ''#'' # bare))"
proof -
  have "(\<exists>schema bare. SplitAction n = (schema, bare, True)
          \<and> (schema = [] \<and> bare \<in> set BaseActions \<or> schema \<noteq> [] \<and> schema \<noteq> BaseSchema \<and> schema = eSchema e))
     \<longleftrightarrow> n \<in> set BaseActions \<or> eSchema e \<noteq> BaseSchema \<and> (\<exists>bare. bareAction bare \<and> n = eSchema e @ CHR ''#'' # bare)"
    if v: "ValidSchema (eSchema e)" for n
  proof
    assume "\<exists>schema bare. SplitAction n = (schema, bare, True)
          \<and> (schema = [] \<and> bare \<in> set BaseActions \<or> schema \<noteq> [] \<and> schema \<noteq> BaseSchema \<and> schema = eSchema e)"
    then show "n \<in> set BaseActions \<or> eSchema e \<noteq> BaseSchema \<and> (\<exists>bare. bareAction bare \<and> n = eSchema e @ CHR ''#'' # bare)"
      using SplitAction_ok [of n] by (metis (full_types))
  next
    assume "n \<in> set BaseActions \<or> eSchema e \<noteq> BaseSchema \<and> (\<exists>bare. bareAction bare \<and> n = eSchema e @ CHR ''#'' # bare)"
    then show "\<exists>schema bare. SplitAction n = (schema, bare, True)
          \<and> (schema = [] \<and> bare \<in> set BaseActions \<or> schema \<noteq> [] \<and> schema \<noteq> BaseSchema \<and> schema = eSchema e)"
      using SplitAction_bare [OF BaseActions_bare] SplitAction_qualified [OF v] ValidSchema_nonempty [OF v]
      by metis
  qed
  then show ?thesis
    by (auto simp: validate_envelope_def validate_actions_iff)
qed

lemma validate_envelope_iff_witness:
  "\<exists>bare. bareAction bare \<and> ''v/x@1#go'' = ''v/x@1'' @ CHR ''#'' # bare"
  using validate_envelope_iff [of "\<lparr>eSchema = ''v/x@1'', eActions = [''pause'', ''v/x@1#go'']\<rparr>"]
  by (simp add: validate_envelope_def ValidSchema_def SplitAction_def IndexByte_def before_byte_def label_def
      version_def bareAction_def lowerAlnum_def between_def byte_def BaseActions_def action_defs
      maxSchema_def maxLabel_def maxAction_def BaseSchema_def FeatureBase_def)

end
