(* ===== verification/Json.thy ===== *)
theory Json
  imports GoText
begin

text \<open>
  The part of Go's \<open>encoding/json\<close> the source calls: the syntax check (\<open>json.Valid\<close>), the
  compact form (\<open>json.Compact\<close>), and the spelling of strings (\<open>json.Marshal\<close> of a string and
  the decoding of a member name).

  A parsed document is a tree that keeps every number and every string as the source spelled
  it (\<open>JNum\<close> and \<open>JStr\<close> hold the lexeme, object names hold theirs too), because the format
  promises to reproduce escapes and digits exactly; only white space is dropped.
\<close>

datatype json =
    JNull
  | JBool bool
  | JNum string
  | JStr string
  | JArr "json list"
  | JObj "(string \<times> json) list"

section \<open>Scanning\<close>

definition is_ws :: "char \<Rightarrow> bool" where
  "is_ws c \<longleftrightarrow> c = CHR '' '' \<or> c = CHR 0x09 \<or> c = CHR 0x0A \<or> c = CHR 0x0D"

fun skip_ws :: "string \<Rightarrow> string" where
  "skip_ws [] = []"
| "skip_ws (c # s) = (if is_ws c then skip_ws s else c # s)"

definition is_hex :: "char \<Rightarrow> bool" where
  "is_hex c \<longleftrightarrow> between 48 c 57 \<or> between 65 c 70 \<or> between 97 c 102"

definition simple_escape :: "char \<Rightarrow> bool" where
  "simple_escape c \<longleftrightarrow> c \<in> set [CHR 0x22, CHR 0x5C, CHR ''/'', CHR ''b'', CHR ''f'', CHR ''n'', CHR ''r'', CHR ''t'']"

text \<open>One unit of a string's lexeme: a byte of its own, an escape, or a \<open>u\<close> escape.\<close>

definition str_unit :: "string \<Rightarrow> (string \<times> string) option" where
  "str_unit s = (case s of
     [] \<Rightarrow> None
   | c # r \<Rightarrow>
       if c = CHR 0x5C then
         (case r of
            [] \<Rightarrow> None
          | e # r' \<Rightarrow>
              if simple_escape e then Some ([c, e], r')
              else if e = CHR ''u'' \<and> length (take 4 r') = 4 \<and> list_all is_hex (take 4 r')
              then Some (c # e # take 4 r', drop 4 r')
              else None)
       else if byte c < 0x20 \<or> c = CHR 0x22 then None
       else Some ([c], r))"

lemma str_unit_split: "str_unit s = Some (u, q) \<Longrightarrow> s = u @ q \<and> u \<noteq> []"
  by (auto simp: str_unit_def split: list.splits if_splits)

text \<open>The text after an opening quote: the string's lexeme and what follows the closing quote.\<close>

function scan_str :: "string \<Rightarrow> (string \<times> string) option" where
  "scan_str s =
     (if take 1 s = [CHR 0x22] then Some ([], drop 1 s)
      else (case str_unit s of
              None \<Rightarrow> None
            | Some (u, q) \<Rightarrow> map_option (\<lambda>(l, t). (u @ l, t)) (scan_str q)))"
  by pat_completeness auto
termination
  by (relation "measure length") (auto dest!: str_unit_split)

declare scan_str.simps [simp del]

definition scan_digits :: "string \<Rightarrow> string \<times> string" where
  "scan_digits s = (takeWhile is_digit s, dropWhile is_digit s)"

definition scan_frac :: "string \<Rightarrow> (string \<times> string) option" where
  "scan_frac s = (case s of
     c # r \<Rightarrow> if c = CHR ''.'' then
               (let (ds, q) = scan_digits r in if ds = [] then None else Some (c # ds, q))
             else Some ([], s)
   | [] \<Rightarrow> Some ([], []))"

definition scan_exp :: "string \<Rightarrow> (string \<times> string) option" where
  "scan_exp s = (case s of
     c # r \<Rightarrow> if c = CHR ''e'' \<or> c = CHR ''E'' then
               (let (sg, t) = (case r of
                     d # r' \<Rightarrow> if d = CHR ''+'' \<or> d = CHR ''-'' then ([d], r') else ([], r)
                   | [] \<Rightarrow> ([], []));
                    (ds, q) = scan_digits t
                in if ds = [] then None else Some (c # sg @ ds, q))
             else Some ([], s)
   | [] \<Rightarrow> Some ([], []))"

definition scan_int :: "string \<Rightarrow> (string \<times> string) option" where
  "scan_int s = (case s of
     [] \<Rightarrow> None
   | d # r \<Rightarrow> if d = CHR ''0'' then Some ([d], r)
             else if is_digit d then Some (scan_digits s) else None)"

definition scan_num :: "string \<Rightarrow> (string \<times> string) option" where
  "scan_num s =
     (let (sg, s1) = (case s of
           c # r \<Rightarrow> if c = CHR ''-'' then ([c], r) else ([], s)
         | [] \<Rightarrow> ([], []))
      in case scan_int s1 of
           None \<Rightarrow> None
         | Some (ip, s2) \<Rightarrow>
             (case scan_frac s2 of
                None \<Rightarrow> None
              | Some (fp, s3) \<Rightarrow>
                  map_option (\<lambda>(ep, s4). (sg @ ip @ fp @ ep, s4)) (scan_exp s3)))"

text \<open>A literal, a number or a string: the values with no parts.\<close>

definition scan_scalar :: "string \<Rightarrow> (json \<times> string) option" where
  "scan_scalar s =
     (if take 1 s = [CHR 0x22] then map_option (\<lambda>(l, q). (JStr l, q)) (scan_str (drop 1 s))
      else if take 4 s = ''null'' then Some (JNull, drop 4 s)
      else if take 4 s = ''true'' then Some (JBool True, drop 4 s)
      else if take 5 s = ''false'' then Some (JBool False, drop 5 s)
      else map_option (\<lambda>(l, q). (JNum l, q)) (scan_num s))"

section \<open>Parsing\<close>

text \<open>
  The scanner refuses nesting deeper than 10000 (\<open>maxNestingDepth\<close>): the argument \<open>d\<close> is
  what is left of it.  The argument \<open>f\<close> is fuel; \<open>parse_value_fuel\<close> shows that
  \<open>2 * length s + 1\<close> is enough for any text \<open>s\<close>, so \<open>parse_json\<close> never runs out.
\<close>

fun parse_value :: "nat \<Rightarrow> nat \<Rightarrow> string \<Rightarrow> (json \<times> string) option"
  and parse_elems :: "nat \<Rightarrow> nat \<Rightarrow> string \<Rightarrow> (json list \<times> string) option"
  and parse_members :: "nat \<Rightarrow> nat \<Rightarrow> string \<Rightarrow> ((string \<times> json) list \<times> string) option"
where
  "parse_value 0 d s = None"
| "parse_value (Suc f) d s =
     (case skip_ws s of
        [] \<Rightarrow> None
      | c # r \<Rightarrow>
          if c = CHR ''{'' then
            (if d = 0 then None
             else if take 1 (skip_ws r) = ''}'' then Some (JObj [], drop 1 (skip_ws r))
             else map_option (\<lambda>(ms, q). (JObj ms, q)) (parse_members f (d - 1) r))
          else if c = CHR ''['' then
            (if d = 0 then None
             else if take 1 (skip_ws r) = '']'' then Some (JArr [], drop 1 (skip_ws r))
             else map_option (\<lambda>(vs, q). (JArr vs, q)) (parse_elems f (d - 1) r))
          else scan_scalar (c # r))"
| "parse_elems 0 d s = None"
| "parse_elems (Suc f) d s =
     (case parse_value f d s of
        None \<Rightarrow> None
      | Some (v, r) \<Rightarrow>
          (case skip_ws r of
             [] \<Rightarrow> None
           | c # q \<Rightarrow>
               if c = CHR '']'' then Some ([v], q)
               else if c = CHR '','' then map_option (\<lambda>(vs, t). (v # vs, t)) (parse_elems f d q)
               else None))"
| "parse_members 0 d s = None"
| "parse_members (Suc f) d s =
     (case skip_ws s of
        [] \<Rightarrow> None
      | c # r \<Rightarrow>
          if c \<noteq> CHR 0x22 then None
          else (case scan_str r of
                  None \<Rightarrow> None
                | Some (k, q) \<Rightarrow>
                    if take 1 (skip_ws q) \<noteq> '':'' then None
                    else (case parse_value f d (drop 1 (skip_ws q)) of
                            None \<Rightarrow> None
                          | Some (v, r') \<Rightarrow>
                              (case skip_ws r' of
                                 [] \<Rightarrow> None
                               | c' # q' \<Rightarrow>
                                   if c' = CHR ''}'' then Some ([(k, v)], q')
                                   else if c' = CHR '','' then
                                     map_option (\<lambda>(ms, t). ((k, v) # ms, t)) (parse_members f d q')
                                   else None))))"

definition max_nesting :: nat where
  "max_nesting = 10000"

definition parse_json :: "string \<Rightarrow> json option" where
  "parse_json s =
     (case parse_value (2 * length s + 1) max_nesting s of
        None \<Rightarrow> None
      | Some (v, r) \<Rightarrow> if skip_ws r = [] then Some v else None)"

definition Valid :: "string \<Rightarrow> bool" where
  "Valid s \<longleftrightarrow> parse_json s \<noteq> None"

section \<open>Printing in compact form\<close>

fun join :: "string \<Rightarrow> string list \<Rightarrow> string" where
  "join sep [] = []"
| "join sep [x] = x"
| "join sep (x # y # xs) = x @ sep @ join sep (y # xs)"

fun print_json :: "json \<Rightarrow> string" where
  "print_json JNull = ''null''"
| "print_json (JBool b) = (if b then ''true'' else ''false'')"
| "print_json (JNum l) = l"
| "print_json (JStr l) = [CHR 0x22] @ l @ [CHR 0x22]"
| "print_json (JArr vs) = ''['' @ join '','' (map print_json vs) @ '']''"
| "print_json (JObj ms) =
     ''{'' @ join '','' (map (\<lambda>(k, v). [CHR 0x22] @ k @ [CHR 0x22, CHR '':''] @ print_json v) ms) @ ''}''"

definition Compact :: "string \<Rightarrow> string option" where
  "Compact s = map_option print_json (parse_json s)"

section \<open>How a string is spelled\<close>

definition encode_rune :: "nat \<Rightarrow> string" where
  "encode_rune r =
     (let b = (\<lambda>n. char_of (n :: nat)) in
      if r < 0x80 then [b r]
      else if r < 0x800 then [b (0xC0 + r div 64), b (0x80 + r mod 64)]
      else if 0x10FFFF < r \<or> (0xD800 \<le> r \<and> r \<le> 0xDFFF) then [b 0xEF, b 0xBF, b 0xBD]
      else if r < 0x10000 then [b (0xE0 + r div 4096), b (0x80 + r div 64 mod 64), b (0x80 + r mod 64)]
      else [b (0xF0 + r div 262144), b (0x80 + r div 4096 mod 64), b (0x80 + r div 64 mod 64),
            b (0x80 + r mod 64)])"

definition hex_digit :: "nat \<Rightarrow> char" where
  "hex_digit n = (if n < 10 then char_of (48 + n) else char_of (87 + n))"

definition hex_value :: "char \<Rightarrow> nat" where
  "hex_value c =
     (if between 48 c 57 then byte c - 48
      else if between 65 c 70 then byte c - 55
      else byte c - 87)"

definition hex4 :: "char \<Rightarrow> char \<Rightarrow> char \<Rightarrow> char \<Rightarrow> nat" where
  "hex4 a b c d = ((hex_value a * 16 + hex_value b) * 16 + hex_value c) * 16 + hex_value d"

definition u_escape :: "nat \<Rightarrow> string" where
  "u_escape n = [CHR 0x5C, CHR ''u'', hex_digit (n div 4096 mod 16), hex_digit (n div 256 mod 16),
                 hex_digit (n div 16 mod 16), hex_digit (n mod 16)]"

text \<open>One rune of a string as \<open>encoding/json\<close> writes it; \<open>html\<close> is \<open>SetEscapeHTML\<close>.\<close>

definition quote_rune :: "bool \<Rightarrow> nat \<times> string \<Rightarrow> string" where
  "quote_rune html = (\<lambda>(r, w).
     if r < 0x80 then
       (if r = 0x22 \<or> r = 0x5C then [CHR 0x5C, char_of r]
        else if r = 8 then [CHR 0x5C, CHR ''b'']
        else if r = 12 then [CHR 0x5C, CHR ''f'']
        else if r = 10 then [CHR 0x5C, CHR ''n'']
        else if r = 13 then [CHR 0x5C, CHR ''r'']
        else if r = 9 then [CHR 0x5C, CHR ''t'']
        else if r < 0x20 \<or> (html \<and> (r = 0x3C \<or> r = 0x3E \<or> r = 0x26)) then u_escape r
        else [char_of r])
     else if r = RuneError \<and> length w = 1 then u_escape 0xFFFD
     else if r = 0x2028 \<or> r = 0x2029 then u_escape r
     else w)"

definition quote_body :: "bool \<Rightarrow> string \<Rightarrow> string" where
  "quote_body html s = concat (map (quote_rune html) (runes s))"

text \<open>\<open>json.Marshal\<close> of a string.\<close>

definition quote :: "bool \<Rightarrow> string \<Rightarrow> string" where
  "quote html s = [CHR 0x22] @ quote_body html s @ [CHR 0x22]"

definition escape_char :: "char \<Rightarrow> char" where
  "escape_char e =
     (if e = CHR ''b'' then CHR 0x08 else if e = CHR ''f'' then CHR 0x0C
      else if e = CHR ''n'' then CHR 0x0A else if e = CHR ''r'' then CHR 0x0D
      else if e = CHR ''t'' then CHR 0x09 else e)"

definition low_surrogate :: "string \<Rightarrow> (nat \<times> string) option" where
  "low_surrogate q = (case q of
     c # u # h1 # h2 # h3 # h4 # t \<Rightarrow>
       if c = CHR 0x5C \<and> u = CHR ''u'' \<and> is_hex h1 \<and> is_hex h2 \<and> is_hex h3 \<and> is_hex h4
          \<and> 0xDC00 \<le> hex4 h1 h2 h3 h4 \<and> hex4 h1 h2 h3 h4 \<le> 0xDFFF
       then Some (hex4 h1 h2 h3 h4, t) else None
   | _ \<Rightarrow> None)"

lemma low_surrogate_length: "low_surrogate q = Some (u, t) \<Longrightarrow> length t < length q"
  by (auto simp: low_surrogate_def split: list.splits if_splits)

text \<open>The string a lexeme means: what the decoder compares member names by.\<close>

function unquote :: "string \<Rightarrow> string" where
  "unquote s = (case s of
     [] \<Rightarrow> []
   | c # r \<Rightarrow>
       if c = CHR 0x5C then
         (case r of
            [] \<Rightarrow> []
          | e # r' \<Rightarrow>
              if e = CHR ''u'' then
                (case r' of
                   h1 # h2 # h3 # h4 # q \<Rightarrow>
                     let u = hex4 h1 h2 h3 h4 in
                     if 0xD800 \<le> u \<and> u \<le> 0xDFFF then
                       (case low_surrogate q of
                          Some (u2, t) \<Rightarrow>
                            if u \<le> 0xDBFF
                            then encode_rune (0x10000 + (u - 0xD800) * 1024 + (u2 - 0xDC00)) @ unquote t
                            else encode_rune RuneError @ unquote q
                        | None \<Rightarrow> encode_rune RuneError @ unquote q)
                     else encode_rune u @ unquote q
                 | _ \<Rightarrow> [])
              else if simple_escape e then escape_char e # unquote r'
              else [])
       else if byte c < 0x80 then c # unquote r
       else encode_rune (fst (decode_rune s)) @ unquote (drop (snd (decode_rune s)) s))"
  by pat_completeness auto
termination
  by (relation "measure length")
     (auto dest: low_surrogate_length simp: decode_rune_width)

declare unquote.simps [simp del]

end
