(* ===== verification/JsonRoundtrip.thy ===== *)
theory JsonRoundtrip
  imports Json
begin

text \<open>
  The parser of theory Json reads back what the printer writes: every well-formed tree is the
  parse of its compact form, so \<open>json.Compact\<close> is idempotent; the fuel of the parser is
  always enough; and the spelling of a valid UTF-8 string decodes to that string.
\<close>

section \<open>What the scanners consume\<close>

lemma skip_ws_length: "length (skip_ws s) \<le> length s"
  by (induction s) auto

lemma skip_ws_not_ws: "skip_ws s = c # r \<Longrightarrow> \<not> is_ws c"
  by (induction s) (auto split: if_splits)

lemma skip_ws_Cons [simp]: "\<not> is_ws c \<Longrightarrow> skip_ws (c # s) = c # s"
  by simp

lemma str_unit_extend: "str_unit s = Some (u, q) \<Longrightarrow> str_unit (u @ q') = Some (u, q')"
proof -
  assume a: "str_unit s = Some (u, q)"
  then obtain c r where s: "s = c # r"
    by (auto simp: str_unit_def split: list.splits)
  show ?thesis
  proof (cases "c = CHR 0x5C")
    case True
    with a s obtain e r' where r: "r = e # r'"
      by (auto simp: str_unit_def split: list.splits)
    show ?thesis
    proof (cases "simple_escape e")
      case True
      with a s r \<open>c = CHR 0x5C\<close> show ?thesis by (auto simp: str_unit_def)
    next
      case False
      with a s r \<open>c = CHR 0x5C\<close>
      have "e = CHR ''u''" "4 \<le> length r'" "list_all is_hex (take 4 r')" "u = c # e # take 4 r'"
        by (auto simp: str_unit_def split: if_splits)
      with False \<open>c = CHR 0x5C\<close> show ?thesis
        by (simp add: str_unit_def)
    qed
  next
    case False
    with a s show ?thesis by (auto simp: str_unit_def split: if_splits)
  qed
qed

lemma str_unit_not_quote: "str_unit s = Some (u, q) \<Longrightarrow> take 1 u \<noteq> [CHR 0x22]"
  by (auto simp: str_unit_def split: list.splits if_splits)

lemma scan_str_split: "scan_str s = Some (l, r) \<Longrightarrow> s = l @ CHR 0x22 # r"
proof (induction s arbitrary: l r rule: scan_str.induct)
  case (1 s)
  show ?case
  proof (cases "take 1 s = [CHR 0x22]")
    case True
    with "1.prems" show ?thesis
      by (cases s) (simp_all add: scan_str.simps)
  next
    case False
    with "1.prems" obtain u q l' where u: "str_unit s = Some (u, q)"
      and l': "scan_str q = Some (l', r)" "l = u @ l'"
      by (subst (asm) scan_str.simps) (auto split: option.splits)
    from "1.IH" [OF False u refl l'(1)] str_unit_split [OF u] l'(2)
    show ?thesis by simp
  qed
qed

lemma scan_str_extend: "scan_str s = Some (l, r) \<Longrightarrow> scan_str (l @ CHR 0x22 # q) = Some (l, q)"
proof (induction s arbitrary: l r rule: scan_str.induct)
  case (1 s)
  show ?case
  proof (cases "take 1 s = [CHR 0x22]")
    case True
    with "1.prems" have "l = []"
      by (simp add: scan_str.simps)
    then show ?thesis by (simp add: scan_str.simps)
  next
    case False
    with "1.prems" obtain u t l' where u: "str_unit s = Some (u, t)"
      and l': "scan_str t = Some (l', r)" "l = u @ l'"
      by (subst (asm) scan_str.simps) (auto split: option.splits)
    have "scan_str (l' @ CHR 0x22 # q) = Some (l', q)"
      using "1.IH" [OF False u refl l'(1)] .
    moreover have "take 1 (u @ l' @ CHR 0x22 # q) \<noteq> [CHR 0x22]"
      using str_unit_not_quote [OF u] str_unit_split [OF u] by (cases u) auto
    ultimately show ?thesis
      using str_unit_extend [OF u, of "l' @ CHR 0x22 # q"] l'(2)
      by (subst scan_str.simps) simp
  qed
qed

lemma scan_str_length: "scan_str s = Some (l, r) \<Longrightarrow> length r < length s"
  by (drule scan_str_split) simp

lemma scan_digits_split: "scan_digits s = (ds, q) \<Longrightarrow> s = ds @ q \<and> list_all is_digit ds"
  by (auto simp: scan_digits_def list_all_iff dest: set_takeWhileD)

lemma scan_frac_split: "scan_frac s = Some (l, q) \<Longrightarrow> s = l @ q"
  by (auto simp: scan_frac_def Let_def split: list.splits if_splits prod.splits
      dest: scan_digits_split)

lemma scan_exp_split: "scan_exp s = Some (l, q) \<Longrightarrow> s = l @ q"
  by (auto simp: scan_exp_def Let_def split: list.splits if_splits prod.splits
      dest: scan_digits_split)

lemma scan_int_split: "scan_int s = Some (l, q) \<Longrightarrow> s = l @ q \<and> l \<noteq> []"
proof -
  assume a: "scan_int s = Some (l, q)"
  then obtain d r where s: "s = d # r"
    by (auto simp: scan_int_def split: list.splits)
  show ?thesis
  proof (cases "d = CHR ''0''")
    case True
    with a s show ?thesis by (auto simp: scan_int_def)
  next
    case False
    with a s have "is_digit d" "scan_digits s = (l, q)"
      by (auto simp: scan_int_def split: if_splits)
    with s show ?thesis
      by (auto simp: scan_digits_def)
  qed
qed

lemma scan_num_split: "scan_num s = Some (l, q) \<Longrightarrow> s = l @ q \<and> l \<noteq> []"
  by (auto simp: scan_num_def Let_def split: list.splits if_splits option.splits prod.splits
      dest!: scan_int_split scan_frac_split scan_exp_split)

lemma take_eq_split: "take n s = p \<Longrightarrow> s = p @ drop n s"
  by (metis append_take_drop_id)

lemma scan_scalar_length: "scan_scalar s = Some (v, r) \<Longrightarrow> length r < length s"
proof -
  assume a: "scan_scalar s = Some (v, r)"
  have d: "length (drop n s) < length s" if "take n s = c # p" for n c p
    using that by (cases s; cases n) auto
  have "length s - 4 < length s" if "take 4 s = ''null'' \<or> take 4 s = ''true''"
    using that d by fastforce
  moreover have "length s - 5 < length s" if "take 5 s = ''false''"
    using that d by fastforce
  moreover have "length q < length s" if "take 1 s = [CHR 0x22]" "scan_str (drop 1 s) = Some (l, q)" for l q
    using that scan_str_length [of "drop 1 s" l q] by simp
  moreover have "length q < length s" if "scan_num s = Some (l, q)" for l q
    using scan_num_split [OF that] by (cases l) auto
  ultimately show ?thesis
    using a by (auto simp: scan_scalar_def split: if_splits)
qed

lemma parse_length:
  "parse_value f d s = Some (v, r) \<Longrightarrow> length r < length s"
  "parse_elems f d s = Some (vs, r) \<Longrightarrow> length r < length s"
  "parse_members f d s = Some (ms, r) \<Longrightarrow> length r < length s"
proof (induction f arbitrary: d s v vs ms r)
  case 0
  { case 1 then show ?case by simp }
  { case 2 then show ?case by simp }
  { case 3 then show ?case by simp }
next
  case (Suc f)
  { case 1
    then obtain c t where s: "skip_ws s = c # t"
      by (auto split: list.splits)
    have len: "length t < length s" "length (drop 1 (skip_ws t)) \<le> length t"
      using skip_ws_length [of s] s skip_ws_length [of t] by simp_all
    consider "r = drop 1 (skip_ws t)" | ms where "parse_members f (d - 1) t = Some (ms, r)"
      | vs where "parse_elems f (d - 1) t = Some (vs, r)" | "scan_scalar (c # t) = Some (v, r)"
      using 1 s by (auto split: if_splits)
    then show ?case
    proof cases
      case 1
      with len show ?thesis by simp
    next
      case (2 ms)
      with len Suc.IH(3) [OF 2] show ?thesis by simp
    next
      case (3 vs)
      with len Suc.IH(2) [OF 3] show ?thesis by simp
    next
      case 4
      with s len skip_ws_length [of s] scan_scalar_length [OF 4] show ?thesis by simp
    qed }
  { case 2
    then obtain w t where w: "parse_value f d s = Some (w, t)"
      by (auto split: option.splits)
    with 2 obtain c q where q: "skip_ws t = c # q"
      by (auto split: list.splits)
    have "length t < length s" using Suc.IH(1) [OF w] .
    moreover have "length q < length t" using skip_ws_length [of t] q by simp
    moreover have "length r \<le> length q"
      using 2 w q Suc.IH(2) [of d q _ r] by (auto split: if_splits dest: less_imp_le)
    ultimately show ?case by simp }
  { case 3
    then obtain t where s: "skip_ws s = CHR 0x22 # t"
      by (auto split: list.splits if_splits)
    with 3 obtain k q where k: "scan_str t = Some (k, q)"
      by (auto split: option.splits)
    with 3 s have colon: "take 1 (skip_ws q) = '':''"
      by (auto split: if_splits)
    with 3 s k obtain w u where w: "parse_value f d (drop 1 (skip_ws q)) = Some (w, u)"
      by (auto split: option.splits)
    with 3 s k colon obtain c' q' where q': "skip_ws u = c' # q'"
      by (auto split: list.splits)
    have "length t < length s" using skip_ws_length [of s] s by simp
    moreover have "length q < length t" using k by (rule scan_str_length)
    moreover have "length u < length q"
      using Suc.IH(1) [OF w] skip_ws_length [of q] by simp
    moreover have "length q' < length u" using skip_ws_length [of u] q' by simp
    moreover have "length r \<le> length q'"
      using 3 s k colon w q' Suc.IH(3) [of d q' _ r] by (auto split: if_splits dest: less_imp_le)
    ultimately show ?case by simp }
qed

section \<open>Enough fuel\<close>

text \<open>
  Two amounts of fuel that are both at least twice the text give one answer: the parser never
  stops for want of fuel.
\<close>

lemma parse_fuel:
  "2 * length s + 1 \<le> f \<Longrightarrow> 2 * length s + 1 \<le> g \<Longrightarrow> parse_value f d s = parse_value g d s"
  "2 * length s + 2 \<le> f \<Longrightarrow> 2 * length s + 2 \<le> g \<Longrightarrow> parse_elems f d s = parse_elems g d s"
  "2 * length s + 2 \<le> f \<Longrightarrow> 2 * length s + 2 \<le> g \<Longrightarrow> parse_members f d s = parse_members g d s"
proof (induction f arbitrary: g d s)
  case 0
  { case 1 then show ?case by simp }
  { case 2 then show ?case by simp }
  { case 3 then show ?case by simp }
next
  case (Suc f)
  { case 1
    then obtain g' where g: "g = Suc g'" by (cases g) auto
    have "parse_members f (d - 1) t = parse_members g' (d - 1) t \<and>
          parse_elems f (d - 1) t = parse_elems g' (d - 1) t" if "skip_ws s = c # t" for c t
    proof (intro conjI)
      have "2 * length t + 2 \<le> f" "2 * length t + 2 \<le> g'"
        using 1 g that skip_ws_length [of s] by simp_all
      then show "parse_members f (d - 1) t = parse_members g' (d - 1) t"
        "parse_elems f (d - 1) t = parse_elems g' (d - 1) t"
        by (rule Suc.IH(3), rule Suc.IH(2))
    qed
    then show ?case
      using g by (cases "skip_ws s") simp_all }
  { case 2
    then obtain g' where g: "g = Suc g'" by (cases g) auto
    have v: "parse_value f d s = parse_value g' d s"
      using 2 g by (intro Suc.IH(1)) simp_all
    have "parse_elems f d q = parse_elems g' d q"
      if "parse_value g' d s = Some (w, t)" "skip_ws t = c # q" for w t c q
      using 2 g that parse_length(1) [of g' d s w t] skip_ws_length [of t]
      by (intro Suc.IH(2)) simp_all
    then show ?case
      using g v by (auto split: option.splits list.splits) }
  { case 3
    then obtain g' where g: "g = Suc g'" by (cases g) auto
    have v: "parse_value f d (drop 1 (skip_ws q)) = parse_value g' d (drop 1 (skip_ws q))"
      if "skip_ws s = c # t" "scan_str t = Some (k, q)" for c t k q
      using 3 g that scan_str_length [of t k q] skip_ws_length [of s] skip_ws_length [of q]
      by (intro Suc.IH(1)) simp_all
    have "parse_members f d q' = parse_members g' d q'"
      if "skip_ws s = c # t" "scan_str t = Some (k, q)"
        "parse_value g' d (drop 1 (skip_ws q)) = Some (w, u)" "skip_ws u = c' # q'" for c t k q w u c' q'
      using 3 g that scan_str_length [of t k q] skip_ws_length [of s] skip_ws_length [of q]
        parse_length(1) [of g' d "drop 1 (skip_ws q)" w u] skip_ws_length [of u]
      by (intro Suc.IH(3)) simp_all
    then show ?case
      using g v by (auto split: option.splits list.splits) }
qed

lemma parse_value_fuel:
  "2 * length s + 1 \<le> f \<Longrightarrow> parse_value f d s = parse_value (2 * length s + 1) d s"
  by (rule parse_fuel(1)) simp_all

section \<open>Well-formed trees\<close>

definition num_lexeme :: "string \<Rightarrow> bool" where
  "num_lexeme l \<longleftrightarrow> scan_num l = Some (l, [])"

definition str_lexeme :: "string \<Rightarrow> bool" where
  "str_lexeme l \<longleftrightarrow> scan_str (l @ [CHR 0x22]) = Some (l, [])"

fun wf_json :: "json \<Rightarrow> bool" where
  "wf_json (JNum l) = num_lexeme l"
| "wf_json (JStr l) = str_lexeme l"
| "wf_json (JArr vs) = list_all wf_json vs"
| "wf_json (JObj ms) = list_all (\<lambda>(k, v). str_lexeme k \<and> wf_json v) ms"
| "wf_json _ = True"

fun depth :: "json \<Rightarrow> nat" where
  "depth (JArr vs) = Suc (foldr max (map depth vs) 0)"
| "depth (JObj ms) = Suc (foldr max (map (\<lambda>(k, v). depth v) ms) 0)"
| "depth _ = 0"

lemma foldr_max_le: "foldr max xs 0 \<le> (d :: nat) \<longleftrightarrow> (\<forall>x \<in> set xs. x \<le> d)"
  by (induction xs) auto

definition num_end :: "string \<Rightarrow> bool" where
  "num_end r \<longleftrightarrow> (case r of [] \<Rightarrow> True
     | c # _ \<Rightarrow> \<not> is_digit c \<and> c \<noteq> CHR ''.'' \<and> c \<noteq> CHR ''e'' \<and> c \<noteq> CHR ''E'')"

lemma num_end_Nil [simp]: "num_end []"
  by (simp add: num_end_def)

lemma num_end_delim [simp]:
  "num_end (CHR '','' # r)" "num_end (CHR '']'' # r)" "num_end (CHR ''}'' # r)"
  by (simp_all add: num_end_def is_digit_def between_def byte_def)

text \<open>What may follow the integer part and the fraction.\<close>

definition no_digit :: "string \<Rightarrow> bool" where
  "no_digit r \<longleftrightarrow> (case r of [] \<Rightarrow> True | c # _ \<Rightarrow> \<not> is_digit c)"

definition no_frac :: "string \<Rightarrow> bool" where
  "no_frac r \<longleftrightarrow> (case r of [] \<Rightarrow> True | c # _ \<Rightarrow> \<not> is_digit c \<and> c \<noteq> CHR ''.'')"

lemma num_end_no_frac: "num_end r \<Longrightarrow> no_frac r"
  by (auto simp: num_end_def no_frac_def split: list.splits)

lemma no_frac_no_digit: "no_frac r \<Longrightarrow> no_digit r"
  by (auto simp: no_digit_def no_frac_def split: list.splits)

text \<open>Each part of a number, once scanned, is scanned again whatever may follow it.\<close>

lemma scan_digits_replace: "scan_digits s = (ds, q) \<Longrightarrow> no_digit r \<Longrightarrow> scan_digits (ds @ r) = (ds, r)"
proof -
  assume "scan_digits s = (ds, q)" "no_digit r"
  then have "\<forall>c \<in> set ds. is_digit c" "takeWhile is_digit r = []" "dropWhile is_digit r = r"
    by (auto simp: scan_digits_def no_digit_def dest: set_takeWhileD split: list.splits)
  then show ?thesis
    by (simp add: scan_digits_def)
qed

lemma scan_int_replace:
  assumes "scan_int s = Some (l, q)" "no_digit r"
  shows "scan_int (l @ r) = Some (l, r)"
proof -
  obtain d t where s: "s = d # t"
    using assms by (auto simp: scan_int_def split: list.splits)
  show ?thesis
  proof (cases "d = CHR ''0''")
    case True
    with assms s show ?thesis by (auto simp: scan_int_def)
  next
    case False
    with assms s have d: "is_digit d" "scan_digits s = (l, q)"
      by (auto simp: scan_int_def split: if_splits)
    with s obtain l' where "l = d # l'"
      by (auto simp: scan_digits_def)
    with d False scan_digits_replace [OF d(2) assms(2)] show ?thesis
      by (simp add: scan_int_def)
  qed
qed

lemma scan_frac_replace:
  assumes "scan_frac s = Some (l, q)" "no_frac r"
  shows "scan_frac (l @ r) = Some (l, r)"
proof (cases "l = []")
  case True
  with assms show ?thesis by (auto simp: scan_frac_def no_frac_def split: list.splits)
next
  case False
  with assms(1) obtain t ds where t: "scan_digits t = (ds, q)" "ds \<noteq> []" "l = CHR ''.'' # ds"
    by (auto simp: scan_frac_def split: list.splits if_splits prod.splits)
  with scan_digits_replace [OF t(1) no_frac_no_digit [OF assms(2)]] show ?thesis
    by (simp add: scan_frac_def)
qed

lemma scan_exp_shape:
  assumes "scan_exp s = Some (l, q)" "l \<noteq> []"
  obtains c sg t ds where "l = c # sg @ ds" "c = CHR ''e'' \<or> c = CHR ''E''"
    "sg = [] \<or> sg = ''+'' \<or> sg = ''-''" "scan_digits t = (ds, q)" "ds \<noteq> []"
proof -
  from assms obtain c r where s: "s = c # r" and c: "c = CHR ''e'' \<or> c = CHR ''E''"
    by (auto simp: scan_exp_def split: list.splits if_splits)
  define st where "st = (case r of d # r' \<Rightarrow> if d = CHR ''+'' \<or> d = CHR ''-'' then ([d], r') else ([], r)
                           | [] \<Rightarrow> ([], []))"
  obtain sg t where st: "st = (sg, t)" by (cases st)
  obtain ds q' where ds: "scan_digits t = (ds, q')" by (cases "scan_digits t")
  have sg: "sg = [] \<or> sg = ''+'' \<or> sg = ''-''"
    using st by (auto simp: st_def split: list.splits if_splits)
  from assms(1) s c st ds have "ds \<noteq> []" "l = c # sg @ ds" "q' = q"
    by (auto simp: scan_exp_def st_def [symmetric] split: if_splits)
  with c sg ds that show thesis by blast
qed

lemma scan_exp_replace:
  assumes "scan_exp s = Some (l, q)" "num_end r"
  shows "scan_exp (l @ r) = Some (l, r)"
proof (cases "l = []")
  case True
  with assms show ?thesis by (auto simp: scan_exp_def num_end_def split: list.splits)
next
  case False
  obtain c sg t ds where l: "l = c # sg @ ds" "c = CHR ''e'' \<or> c = CHR ''E''"
    "sg = [] \<or> sg = ''+'' \<or> sg = ''-''" and t: "scan_digits t = (ds, q)" "ds \<noteq> []"
    using assms(1) False by (rule scan_exp_shape)
  have d: "scan_digits (ds @ r) = (ds, r)"
    using scan_digits_replace [OF t(1) no_frac_no_digit [OF num_end_no_frac [OF assms(2)]]] .
  obtain a as where a: "ds = a # as" using t(2) by (cases ds) auto
  with t(1) have "is_digit a"
    using scan_digits_split [OF t(1)] by simp
  then have "a \<noteq> CHR ''-'' \<and> a \<noteq> CHR ''+''"
    by (rule is_digit_not_sign)
  with l d a show ?thesis
    by (auto simp: scan_exp_def)
qed

lemma scan_num_replace:
  assumes "scan_num s = Some (l, q)" "num_end r"
  shows "scan_num (l @ r) = Some (l, r)"
proof -
  obtain c t where s: "s = c # t"
    using scan_num_split [OF assms(1)] by (metis append_is_Nil_conv list.exhaust)
  define sg where "sg = (if c = CHR ''-'' then ''-'' else [])"
  define body where "body = (if c = CHR ''-'' then t else s)"
  from assms(1) s obtain ip s2 where ip: "scan_int body = Some (ip, s2)"
    by (auto simp: scan_num_def body_def split: option.splits if_splits)
  from assms(1) s ip obtain fp s3 where fp: "scan_frac s2 = Some (fp, s3)"
    by (auto simp: scan_num_def body_def split: option.splits if_splits)
  from assms(1) s ip fp obtain ep where ep: "scan_exp s3 = Some (ep, q)"
    and l: "l = sg @ ip @ fp @ ep"
    by (auto simp: scan_num_def body_def sg_def split: option.splits if_splits)
  have e: "scan_exp (ep @ r) = Some (ep, r)"
    using ep assms(2) by (rule scan_exp_replace)
  have nf: "no_frac (ep @ r)"
  proof (cases "ep = []")
    case False
    with ep show ?thesis
      by (rule scan_exp_shape) (auto simp: no_frac_def is_digit_def between_def byte_def)
  qed (simp add: num_end_no_frac assms(2))
  have f: "scan_frac (fp @ ep @ r) = Some (fp, ep @ r)"
    using fp nf by (rule scan_frac_replace)
  have nd: "no_digit (fp @ ep @ r)"
  proof (cases "fp = []")
    case False
    with fp obtain t where "fp = CHR ''.'' # t"
      by (auto simp: scan_frac_def split: list.splits if_splits prod.splits)
    then show ?thesis by (simp add: no_digit_def is_digit_def between_def byte_def)
  qed (simp add: no_frac_no_digit nf)
  have i: "scan_int (ip @ fp @ ep @ r) = Some (ip, fp @ ep @ r)"
    using ip nd by (rule scan_int_replace)
  obtain a as where a: "ip = a # as"
    using scan_int_split [OF ip] by (cases ip) auto
  have "a \<noteq> CHR ''-''"
    using i a by (auto simp: scan_int_def is_digit_def between_def byte_def split: if_splits)
  with l i f e a show ?thesis
    by (cases "c = CHR ''-''") (simp_all add: scan_num_def sg_def)
qed

lemma scan_num_lexeme: "scan_num s = Some (l, q) \<Longrightarrow> num_lexeme l"
  using scan_num_replace [of s l q "[]"] by (simp add: num_lexeme_def)

lemma scan_str_lexeme: "scan_str s = Some (l, q) \<Longrightarrow> str_lexeme l"
  using scan_str_extend [of s l q "[]"] by (simp add: str_lexeme_def)

lemma num_lexeme_head:
  assumes "num_lexeme l"
  shows "\<exists>c t. l = c # t \<and> (c = CHR ''-'' \<or> is_digit c)"
proof -
  from assms obtain c t where l: "l = c # t"
    using scan_num_split [of l l "[]"] by (cases l) (auto simp: num_lexeme_def)
  with assms have "c = CHR ''-'' \<or> (\<exists>x. scan_int l = Some x)"
    by (auto simp: num_lexeme_def scan_num_def split: if_splits option.splits)
  with l show ?thesis
    by (auto simp: scan_int_def is_digit_def between_def byte_def split: if_splits)
qed

lemma is_digit_other:
  "is_digit c \<Longrightarrow> c \<noteq> CHR ''{'' \<and> c \<noteq> CHR ''['' \<and> c \<noteq> CHR 0x22 \<and> c \<noteq> CHR ''n'' \<and> c \<noteq> CHR ''t'' \<and> c \<noteq> CHR ''f''
     \<and> c \<noteq> CHR ''}'' \<and> c \<noteq> CHR '']'' \<and> \<not> is_ws c"
  by (auto simp: is_digit_def between_def byte_def is_ws_def)

lemma num_lexeme_first:
  assumes "num_lexeme l"
  obtains c t where "l = c # t" "\<not> is_ws c" "c \<noteq> CHR ''{''" "c \<noteq> CHR ''[''" "c \<noteq> CHR '']''" "c \<noteq> CHR ''}''"
    "c \<noteq> CHR 0x22" "c \<noteq> CHR ''n''" "c \<noteq> CHR ''t''" "c \<noteq> CHR ''f''"
proof -
  obtain c t where l: "l = c # t" and c: "c = CHR ''-'' \<or> is_digit c"
    using num_lexeme_head [OF assms] by blast
  have "\<not> is_ws c \<and> c \<noteq> CHR ''{'' \<and> c \<noteq> CHR ''['' \<and> c \<noteq> CHR '']'' \<and> c \<noteq> CHR ''}'' \<and> c \<noteq> CHR 0x22
      \<and> c \<noteq> CHR ''n'' \<and> c \<noteq> CHR ''t'' \<and> c \<noteq> CHR ''f''"
    using c
  proof
    assume "c = CHR ''-''"
    then show ?thesis by (simp add: is_ws_def)
  next
    assume "is_digit c"
    then show ?thesis by (blast dest: is_digit_other)
  qed
  with l show thesis by (intro that) blast+
qed

lemma num_scalar:
  assumes "num_lexeme l" "num_end r"
  shows "scan_scalar (l @ r) = Some (JNum l, r)"
proof -
  have n: "scan_num (l @ r) = Some (l, r)"
    using scan_num_replace [of l l "[]" r] assms by (simp add: num_lexeme_def)
  obtain c t where "l = c # t" "c \<noteq> CHR 0x22" "c \<noteq> CHR ''n''" "c \<noteq> CHR ''t''" "c \<noteq> CHR ''f''"
    using assms(1) by (rule num_lexeme_first)
  with n show ?thesis
    by (simp add: scan_scalar_def)
qed

lemma str_scalar:
  assumes "str_lexeme l"
  shows "scan_scalar (CHR 0x22 # l @ CHR 0x22 # r) = Some (JStr l, r)"
  using scan_str_extend [of "l @ [CHR 0x22]" l "[]" r] assms
  by (simp add: scan_scalar_def str_lexeme_def)

text \<open>A printed value starts with a byte no separator starts with.\<close>

lemma print_json_head:
  assumes "wf_json v"
  shows "\<exists>c t. print_json v = c # t \<and> \<not> is_ws c \<and> c \<noteq> CHR '']'' \<and> c \<noteq> CHR ''}''"
  using assms
proof (cases v)
  case (JNum l)
  with assms have "num_lexeme l" by simp
  then obtain c t where "l = c # t" "\<not> is_ws c" "c \<noteq> CHR '']''" "c \<noteq> CHR ''}''"
    by (rule num_lexeme_first)
  with JNum show ?thesis by simp
qed (auto simp: is_ws_def)

definition member_text :: "string \<times> json \<Rightarrow> string" where
  "member_text = (\<lambda>(k, v). [CHR 0x22] @ k @ [CHR 0x22, CHR '':''] @ print_json v)"

lemma join_Cons: "xs \<noteq> [] \<Longrightarrow> join sep (x # xs) = x @ sep @ join sep xs"
  by (cases xs) auto

section \<open>The parser reads what the printer writes\<close>

definition reads :: "json \<Rightarrow> bool" where
  "reads v \<longleftrightarrow> (\<forall>f d r. depth v \<le> d \<longrightarrow> num_end r \<longrightarrow> 2 * length (print_json v @ r) + 1 \<le> f \<longrightarrow>
     parse_value f d (print_json v @ r) = Some (v, r))"

lemma readsD:
  "reads v \<Longrightarrow> depth v \<le> d \<Longrightarrow> num_end r \<Longrightarrow> 2 * length (print_json v @ r) + 1 \<le> f \<Longrightarrow>
     parse_value f d (print_json v @ r) = Some (v, r)"
  by (simp add: reads_def)

lemma parse_elems_print:
  assumes "vs \<noteq> []" "\<forall>v \<in> set vs. reads v \<and> wf_json v \<and> depth v \<le> d"
    and "2 * length (join '','' (map print_json vs) @ CHR '']'' # r) + 2 \<le> f"
  shows "parse_elems f d (join '','' (map print_json vs) @ CHR '']'' # r) = Some (vs, r)"
  using assms
proof (induction vs arbitrary: f)
  case (Cons v vs)
  from Cons.prems obtain g where f: "f = Suc g" by (cases f) auto
  show ?case
  proof (cases "vs = []")
    case True
    with Cons.prems f readsD [of v d "CHR '']'' # r" g] show ?thesis
      by (simp add: is_ws_def)
  next
    case False
    let ?rest = "join '','' (map print_json vs) @ CHR '']'' # r"
    have "parse_value g d (print_json v @ CHR '','' # ?rest) = Some (v, CHR '','' # ?rest)"
      using Cons.prems f False by (intro readsD) (simp_all add: join_Cons)
    moreover have "parse_elems g d ?rest = Some (vs, r)"
      using Cons.prems f False by (intro Cons.IH) (simp_all add: join_Cons)
    ultimately show ?thesis
      using f False by (simp add: join_Cons is_ws_def)
  qed
qed simp

lemma parse_members_print:
  assumes "ms \<noteq> []" "\<forall>(k, v) \<in> set ms. reads v \<and> str_lexeme k \<and> wf_json v \<and> depth v \<le> d"
    and "2 * length (join '','' (map member_text ms) @ CHR ''}'' # r) + 2 \<le> f"
  shows "parse_members f d (join '','' (map member_text ms) @ CHR ''}'' # r) = Some (ms, r)"
  using assms
proof (induction ms arbitrary: f)
  case (Cons m ms)
  obtain k v where m: "m = (k, v)" by (cases m)
  from Cons.prems obtain g where f: "f = Suc g" by (cases f) auto
  have k: "scan_str (k @ CHR 0x22 # q) = Some (k, q)" for q
    using scan_str_extend [of "k @ [CHR 0x22]" k "[]" q] Cons.prems m by (simp add: str_lexeme_def)
  show ?case
  proof (cases "ms = []")
    case True
    have "parse_value g d (print_json v @ CHR ''}'' # r) = Some (v, CHR ''}'' # r)"
      using Cons.prems f m True by (intro readsD) (simp_all add: member_text_def)
    with True m f k show ?thesis
      by (simp add: is_ws_def member_text_def)
  next
    case False
    let ?rest = "join '','' (map member_text ms) @ CHR ''}'' # r"
    have "parse_value g d (print_json v @ CHR '','' # ?rest) = Some (v, CHR '','' # ?rest)"
      using Cons.prems f m False by (intro readsD) (simp_all add: join_Cons member_text_def)
    moreover have "parse_members g d ?rest = Some (ms, r)"
      using Cons.prems f m False by (intro Cons.IH) (simp_all add: join_Cons member_text_def)
    ultimately show ?thesis
      using f False m k by (simp add: join_Cons is_ws_def member_text_def)
  qed
qed simp

lemma print_JObj: "print_json (JObj ms) = ''{'' @ join '','' (map member_text ms) @ ''}''"
  by (simp add: member_text_def case_prod_beta')

lemma parse_value_scalar:
  "0 < f \<Longrightarrow> \<not> is_ws c \<Longrightarrow> c \<noteq> CHR ''{'' \<Longrightarrow> c \<noteq> CHR ''['' \<Longrightarrow> parse_value f d (c # s) = scan_scalar (c # s)"
  by (cases f) simp_all

lemma reads_scalar:
  assumes "print_json v = c # t" "\<not> is_ws c" "c \<noteq> CHR ''{''" "c \<noteq> CHR ''[''"
    and "\<And>r. num_end r \<Longrightarrow> scan_scalar (print_json v @ r) = Some (v, r)"
  shows "reads v"
  unfolding reads_def using assms by (simp add: parse_value_scalar del: parse_value.simps)

lemma reads_wf: "wf_json v \<Longrightarrow> reads v"
proof (induction v)
  case JNull
  show ?case by (rule reads_scalar) (auto simp: scan_scalar_def is_ws_def)
next
  case (JBool b)
  show ?case by (cases b; rule reads_scalar) (auto simp: scan_scalar_def is_ws_def)
next
  case (JNum l)
  then have "num_lexeme l" by simp
  then obtain c t where "l = c # t" "\<not> is_ws c" "c \<noteq> CHR ''{''" "c \<noteq> CHR ''[''"
    by (rule num_lexeme_first)
  then show ?case
    by (rule reads_scalar [of "JNum l" c t, unfolded print_json.simps])
       (simp add: num_scalar [OF \<open>num_lexeme l\<close>])
next
  case (JStr l)
  show ?case
    by (rule reads_scalar) (use str_scalar [of l] JStr in \<open>auto simp: is_ws_def\<close>)
next
  case (JArr vs)
  show ?case unfolding reads_def
  proof (intro allI impI)
    fix f d r
    assume a: "depth (JArr vs) \<le> d" "num_end r" "2 * length (print_json (JArr vs) @ r) + 1 \<le> f"
    then obtain g where f: "f = Suc g" by (cases f) auto
    show "parse_value f d (print_json (JArr vs) @ r) = Some (JArr vs, r)"
    proof (cases vs)
      case Nil
      with a f show ?thesis by (simp add: is_ws_def)
    next
      case (Cons w ws)
      have "foldr max (map depth vs) 0 \<le> d - 1"
        using a(1) by simp
      then have all: "\<forall>v \<in> set vs. reads v \<and> wf_json v \<and> depth v \<le> d - 1"
        using JArr by (simp add: list_all_iff foldr_max_le)
      have "parse_elems g (d - 1) (join '','' (map print_json vs) @ CHR '']'' # r) = Some (vs, r)"
        using Cons a f all by (intro parse_elems_print) simp_all
      moreover obtain c t where "print_json w = c # t" "\<not> is_ws c" "c \<noteq> CHR '']''"
        using all Cons print_json_head [of w] by auto
      ultimately show ?thesis
        using a f Cons by (cases ws) (simp_all add: is_ws_def)
    qed
  qed
next
  case (JObj ms)
  show ?case unfolding reads_def
  proof (intro allI impI)
    fix f d r
    assume a: "depth (JObj ms) \<le> d" "num_end r" "2 * length (print_json (JObj ms) @ r) + 1 \<le> f"
    then obtain g where f: "f = Suc g" by (cases f) auto
    show "parse_value f d (print_json (JObj ms) @ r) = Some (JObj ms, r)"
    proof (cases ms)
      case Nil
      with a f show ?thesis by (simp add: is_ws_def)
    next
      case (Cons m ms')
      have "foldr max (map (\<lambda>(k, v). depth v) ms) 0 \<le> d - 1"
        using a(1) by simp
      then have dm: "\<forall>(k, v) \<in> set ms. depth v \<le> d - 1"
        by (auto simp: foldr_max_le)
      have "\<forall>(k, v) \<in> set ms. reads v \<and> str_lexeme k \<and> wf_json v"
        using JObj by (fastforce simp: list_all_iff)
      with dm have all: "\<forall>(k, v) \<in> set ms. reads v \<and> str_lexeme k \<and> wf_json v \<and> depth v \<le> d - 1"
        by blast
      have "parse_members g (d - 1) (join '','' (map member_text ms) @ CHR ''}'' # r) = Some (ms, r)"
        using Cons a f all by (intro parse_members_print) (simp_all add: print_JObj del: print_json.simps)
      moreover obtain t where "join '','' (map member_text ms) = CHR 0x22 # t"
        using Cons by (cases m; cases ms') (simp_all add: member_text_def)
      ultimately show ?thesis
        using a f Cons by (simp add: print_JObj is_ws_def del: print_json.simps)
    qed
  qed
qed

lemma parse_print: "wf_json v \<Longrightarrow> depth v \<le> max_nesting \<Longrightarrow> parse_json (print_json v) = Some v"
  using readsD [OF reads_wf, of v max_nesting "[]" "2 * length (print_json v) + 1"]
  by (simp add: parse_json_def del: parse_value.simps)

section \<open>What the parser returns is well formed\<close>

lemma scan_scalar_wf: "scan_scalar s = Some (v, r) \<Longrightarrow> wf_json v \<and> depth v = 0"
  by (auto simp: scan_scalar_def scan_num_lexeme scan_str_lexeme split: if_splits)

lemma parse_wf:
  "parse_value f d s = Some (v, r) \<Longrightarrow> wf_json v \<and> depth v \<le> d"
  "parse_elems f d s = Some (vs, r) \<Longrightarrow> list_all wf_json vs \<and> foldr max (map depth vs) 0 \<le> d"
  "parse_members f d s = Some (ms, r) \<Longrightarrow>
     list_all (\<lambda>(k, v). str_lexeme k \<and> wf_json v) ms \<and> foldr max (map (\<lambda>(k, v). depth v) ms) 0 \<le> d"
proof (induction f arbitrary: d s v vs ms r)
  case 0
  { case 1 then show ?case by simp }
  { case 2 then show ?case by simp }
  { case 3 then show ?case by simp }
next
  case (Suc f)
  { case 1
    then obtain c t where s: "skip_ws s = c # t"
      by (auto split: list.splits)
    consider "v = JObj []" "d \<noteq> 0" | "v = JArr []" "d \<noteq> 0"
      | ms where "v = JObj ms" "d \<noteq> 0" "parse_members f (d - 1) t = Some (ms, r)"
      | vs where "v = JArr vs" "d \<noteq> 0" "parse_elems f (d - 1) t = Some (vs, r)"
      | "scan_scalar (c # t) = Some (v, r)"
      using 1 s by (auto split: if_splits)
    then show ?case
    proof cases
      case (3 ms)
      with Suc.IH(3) [OF 3(3)] show ?thesis by auto
    next
      case (4 vs)
      with Suc.IH(2) [OF 4(3)] show ?thesis by auto
    next
      case 5
      with scan_scalar_wf [OF 5] show ?thesis by simp
    qed simp_all }
  { case 2
    then obtain w t where w: "parse_value f d s = Some (w, t)"
      by (auto split: option.splits)
    with 2 obtain c q where q: "skip_ws t = c # q"
      by (auto split: list.splits)
    from 2 w q consider "vs = [w]" | ws where "vs = w # ws" "parse_elems f d q = Some (ws, r)"
      by (auto split: if_splits)
    then show ?case
    proof cases
      case (2 ws)
      with Suc.IH(1) [OF w] Suc.IH(2) [OF 2(2)] show ?thesis by simp
    qed (use Suc.IH(1) [OF w] in simp) }
  { case 3
    then obtain t where s: "skip_ws s = CHR 0x22 # t"
      by (auto split: list.splits if_splits)
    with 3 obtain k q where k: "scan_str t = Some (k, q)"
      by (auto split: option.splits)
    with 3 s have colon: "take 1 (skip_ws q) = '':''"
      by (auto split: if_splits)
    with 3 s k obtain w u where w: "parse_value f d (drop 1 (skip_ws q)) = Some (w, u)"
      by (auto split: option.splits)
    with 3 s k colon obtain c' q' where q': "skip_ws u = c' # q'"
      by (auto split: list.splits)
    from 3 s k colon w q' consider "ms = [(k, w)]"
      | ns where "ms = (k, w) # ns" "parse_members f d q' = Some (ns, r)"
      by (auto split: if_splits)
    then show ?case
    proof cases
      case (2 ns)
      with Suc.IH(1) [OF w] Suc.IH(3) [OF 2(2)] scan_str_lexeme [OF k] show ?thesis by simp
    qed (use Suc.IH(1) [OF w] scan_str_lexeme [OF k] in simp) }
qed

lemma parse_json_wf: "parse_json s = Some v \<Longrightarrow> wf_json v \<and> depth v \<le> max_nesting"
  by (auto simp: parse_json_def parse_wf(1) split: option.splits if_splits
      simp del: parse_value.simps)

lemma Compact_idem: "Compact s = Some c \<Longrightarrow> Compact c = Some c"
  by (auto simp: Compact_def parse_print dest: parse_json_wf)

lemma Compact_Valid: "Compact s = Some c \<Longrightarrow> Valid c"
  by (auto simp: Compact_def Valid_def parse_print dest: parse_json_wf)

lemma Compact_None_iff: "Compact s = None \<longleftrightarrow> \<not> Valid s"
  by (simp add: Compact_def Valid_def)

end
