(* ===== verification/JsonText.thy ===== *)
theory JsonText
  imports JsonRoundtrip
begin

text \<open>
  The spelling of strings: what \<open>quote\<close> writes is one string lexeme, whatever the bytes, and
  for valid UTF-8 it decodes to the string it was made from.
\<close>

section \<open>Decoding and encoding one rune\<close>

lemma byte_of_char: "n < 256 \<Longrightarrow> byte (char_of n) = n"
  by (simp add: byte_def)

lemma char_of_byte [simp]: "char_of (byte c) = c"
  by (simp add: byte_def)

lemma char_of_eqI: "n = byte c \<Longrightarrow> char_of n = c"
  by simp

lemma char_of_consts [simp]:
  "char_of (34 :: nat) = CHR 0x22" "char_of (92 :: nat) = CHR 0x5C" "char_of (8 :: nat) = CHR 0x08"
  "char_of (12 :: nat) = CHR 0x0C" "char_of (10 :: nat) = CHR 0x0A" "char_of (13 :: nat) = CHR 0x0D"
  "char_of (9 :: nat) = CHR 0x09"
  by (rule char_of_eqI, simp add: byte_def)+

lemma char_of_neq: "r < 256 \<Longrightarrow> r \<noteq> byte c \<Longrightarrow> char_of r \<noteq> c"
  by (auto simp: byte_of_char)

lemma decode_rune_ascii_iff:
  "s \<noteq> [] \<Longrightarrow> decode_rune s = (r, n) \<Longrightarrow> r < 0x80 \<Longrightarrow> n = 1 \<and> s = char_of r # tl s"
  by (auto simp: decode_rune_def Let_def RuneError_def between_def split: list.splits if_splits)

text \<open>The four shapes of a well-formed rune.\<close>

lemma decode_rune_cases:
  assumes "s \<noteq> []" "decode_rune s = (r, n)" "\<not> (r = RuneError \<and> n \<le> 1)"
  obtains (one) c t where "s = c # t" "byte c < 0x80" "r = byte c" "n = 1"
  | (two) c0 c1 t where "s = c0 # c1 # t" "n = 2" "0xC2 \<le> byte c0" "byte c0 \<le> 0xDF"
      "between 0x80 c1 0xBF" "r = (byte c0 - 0xC0) * 64 + (byte c1 - 0x80)"
  | (three) c0 c1 c2 t where "s = c0 # c1 # c2 # t" "n = 3" "0xE0 \<le> byte c0" "byte c0 \<le> 0xEF"
      "between (if byte c0 = 0xE0 then 0xA0 else 0x80) c1 (if byte c0 = 0xED then 0x9F else 0xBF)"
      "between 0x80 c2 0xBF"
      "r = ((byte c0 - 0xE0) * 64 + (byte c1 - 0x80)) * 64 + (byte c2 - 0x80)"
  | (four) c0 c1 c2 c3 t where "s = c0 # c1 # c2 # c3 # t" "n = 4" "0xF0 \<le> byte c0" "byte c0 \<le> 0xF4"
      "between (if byte c0 = 0xF0 then 0x90 else 0x80) c1 (if byte c0 = 0xF4 then 0x8F else 0xBF)"
      "between 0x80 c2 0xBF" "between 0x80 c3 0xBF"
      "r = (((byte c0 - 0xF0) * 64 + (byte c1 - 0x80)) * 64 + (byte c2 - 0x80)) * 64 + (byte c3 - 0x80)"
proof -
  obtain c0 t where s: "s = c0 # t" using assms(1) by (cases s) auto
  let ?b = "byte c0"
  have "?b < 0x80 \<or> (0xC2 \<le> ?b \<and> ?b \<le> 0xDF) \<or> (0xE0 \<le> ?b \<and> ?b \<le> 0xEF) \<or> (0xF0 \<le> ?b \<and> ?b \<le> 0xF4)"
    using assms s by (auto simp: decode_rune_def Let_def split: if_splits)
  then consider (A) "?b < 0x80" | (B) "0xC2 \<le> ?b" "?b \<le> 0xDF" | (C) "0xE0 \<le> ?b" "?b \<le> 0xEF"
    | (D) "0xF0 \<le> ?b" "?b \<le> 0xF4" by blast
  then show thesis
  proof cases
    case A
    with s assms one show thesis by simp
  next
    case B
    with s assms obtain c1 t' where t: "t = c1 # t'"
      by (cases t) (simp_all add: decode_rune_def Let_def)
    with B s assms show thesis
      by (intro two [of c0 c1 t']) (simp_all add: decode_rune_def Let_def split: if_splits)
  next
    case C
    with s assms obtain c1 t1 where t1: "t = c1 # t1"
      by (cases t) (simp_all add: decode_rune_def Let_def)
    with C s assms obtain c2 t' where t: "t = c1 # c2 # t'"
      by (cases t1) (simp_all add: decode_rune_def Let_def)
    with C s assms have ok: "between (if ?b = 0xE0 then 0xA0 else 0x80) c1 (if ?b = 0xED then 0x9F else 0xBF)
        \<and> between 0x80 c2 0xBF"
      by (cases "between (if ?b = 0xE0 then 0xA0 else 0x80) c1 (if ?b = 0xED then 0x9F else 0xBF)
        \<and> between 0x80 c2 0xBF") (simp_all add: decode_rune_def Let_def)
    with C s t assms show thesis
      by (intro three [of c0 c1 c2 t']) (simp_all add: decode_rune_def Let_def)
  next
    case D
    with s assms obtain c1 t1 where t1: "t = c1 # t1"
      by (cases t) (simp_all add: decode_rune_def Let_def)
    with D s assms obtain c2 t2 where t2: "t = c1 # c2 # t2"
      by (cases t1) (simp_all add: decode_rune_def Let_def)
    with D s assms obtain c3 t' where t: "t = c1 # c2 # c3 # t'"
      by (cases t2) (simp_all add: decode_rune_def Let_def)
    let ?ok = "between (if ?b = 0xF0 then 0x90 else 0x80) c1 (if ?b = 0xF4 then 0x8F else 0xBF)
        \<and> between 0x80 c2 0xBF \<and> between 0x80 c3 0xBF"
    from D s t assms have ok: ?ok
      by (cases ?ok) (simp_all add: decode_rune_def Let_def)
    with D s t assms show thesis
      by (intro four [of c0 c1 c2 c3 t']) (simp_all add: decode_rune_def Let_def)
  qed
qed

lemma split64: "(b :: nat) < 64 \<Longrightarrow> (a * 64 + b) div 64 = a \<and> (a * 64 + b) mod 64 = b"
  by simp

lemma encode_decode_rune:
  assumes "s \<noteq> []" "decode_rune s = (r, n)" "\<not> (r = RuneError \<and> n \<le> 1)"
  shows "encode_rune r = take n s"
  using assms
proof (cases rule: decode_rune_cases)
  case (one c t)
  then show ?thesis by (simp add: encode_rune_def)
next
  case (two c0 c1 t)
  define a b where "a = byte c0 - 0xC0" and "b = byte c1 - 0x80"
  from two have ab: "2 \<le> a" "a < 32" "b < 64" "byte c0 = 0xC0 + a" "byte c1 = 0x80 + b" "r = a * 64 + b"
    by (auto simp: a_def b_def between_def)
  then have r: "0x80 \<le> r" "r < 0x800" by linarith+
  with ab two split64 [of b a] show ?thesis
    by (simp add: encode_rune_def char_of_eqI)
next
  case (three c0 c1 c2 t)
  define a b c where "a = byte c0 - 0xE0" and "b = byte c1 - 0x80" and "c = byte c2 - 0x80"
  from three have abc: "a < 16" "b < 64" "c < 64" "byte c0 = 0xE0 + a" "byte c1 = 0x80 + b"
    "byte c2 = 0x80 + c" "r = (a * 64 + b) * 64 + c" "a = 0 \<Longrightarrow> 32 \<le> b" "a = 13 \<Longrightarrow> b < 32"
    by (auto simp: a_def b_def c_def between_def split: if_splits)
  have lo: "0x800 \<le> r"
    using abc by (cases "a = 0") simp_all
  have "r = a * 4096 + b * 64 + c"
    using abc(7) by simp
  then have hi: "r < 0x10000"
    using abc(1-3) by linarith
  have "a = 13 \<or> a \<le> 12 \<or> 14 \<le> a" by linarith
  then have "\<not> (0xD800 \<le> r \<and> r \<le> 0xDFFF)"
    using abc by (elim disjE) auto
  note r = lo hi this
  have "r div 64 = a * 64 + b" "r mod 64 = c" "r div 4096 = a"
    using abc split64 [of c "a * 64 + b"] split64 [of b a] div_mult2_eq [of r 64 64] by simp_all
  with abc r three split64 [of b a] show ?thesis
    by (auto simp: encode_rune_def char_of_eqI)
next
  case (four c0 c1 c2 c3 t)
  define a b c d where "a = byte c0 - 0xF0" and "b = byte c1 - 0x80" and "c = byte c2 - 0x80"
    and "d = byte c3 - 0x80"
  from four have abc: "a < 5" "b < 64" "c < 64" "d < 64" "byte c0 = 0xF0 + a" "byte c1 = 0x80 + b"
    "byte c2 = 0x80 + c" "byte c3 = 0x80 + d" "r = ((a * 64 + b) * 64 + c) * 64 + d"
    "a = 0 \<Longrightarrow> 16 \<le> b" "a = 4 \<Longrightarrow> b < 16"
    by (auto simp: a_def b_def c_def d_def between_def split: if_splits)
  have lo: "0x10000 \<le> r"
    using abc by (cases "a = 0") simp_all
  have hi: "r \<le> 0x10FFFF"
    using abc by (cases "a = 4") simp_all
  note r = lo hi
  have "r div 64 = (a * 64 + b) * 64 + c" "r mod 64 = d" "r div 4096 = a * 64 + b" "r div 262144 = a"
    using abc split64 [of d "(a * 64 + b) * 64 + c"] split64 [of c "a * 64 + b"] split64 [of b a]
      div_mult2_eq [of r 64 64] div_mult2_eq [of r 4096 64] by simp_all
  with abc r four split64 [of c "a * 64 + b"] split64 [of b a] show ?thesis
    by (simp add: encode_rune_def char_of_eqI)
qed

lemma decode_rune_prefix:
  assumes "s \<noteq> []" "decode_rune s = (r, n)" "\<not> (r = RuneError \<and> n \<le> 1)"
  shows "decode_rune (take n s @ t) = (r, n)"
  using assms
proof (cases rule: decode_rune_cases)
  case (two c0 c1 t')
  then show ?thesis by (simp add: decode_rune_def Let_def)
next
  case (three c0 c1 c2 t')
  then show ?thesis by (simp add: decode_rune_def Let_def)
next
  case (four c0 c1 c2 c3 t')
  then show ?thesis by (simp add: decode_rune_def Let_def)
qed simp

lemma decode_rune_bytes:
  assumes "s \<noteq> []" "decode_rune s = (r, n)" "\<not> (r = RuneError \<and> n \<le> 1)" "0x80 \<le> r"
  shows "\<forall>c \<in> set (take n s). 0x80 \<le> byte c"
  using assms(1-3)
proof (cases rule: decode_rune_cases)
  case (one c t)
  with assms show ?thesis by simp
qed (auto simp: between_def split: if_splits)

section \<open>Hexadecimal escapes\<close>

lemma hex_digit_props: "n < 16 \<Longrightarrow> is_hex (hex_digit n) \<and> hex_value (hex_digit n) = n"
  by (auto simp: hex_digit_def is_hex_def hex_value_def between_def byte_of_char)

lemma hex4_digits:
  assumes "n < 65536"
  shows "hex4 (hex_digit (n div 4096 mod 16)) (hex_digit (n div 256 mod 16))
              (hex_digit (n div 16 mod 16)) (hex_digit (n mod 16)) = n"
proof -
  have a: "n div 16 * 16 + n mod 16 = n" "n div 256 * 16 + n div 16 mod 16 = n div 16"
    "n div 4096 * 16 + n div 256 mod 16 = n div 256"
    using div_mult_mod_eq [of n 16] div_mult_mod_eq [of "n div 16" 16] div_mult_mod_eq [of "n div 256" 16]
    by (simp_all add: div_mult2_eq [symmetric])
  have "n div 4096 mod 16 = n div 4096"
    using assms by simp
  moreover have "hex_value (hex_digit (m mod 16)) = m mod 16" for m
    by (simp add: hex_digit_props)
  moreover have "hex_value (hex_digit (n div 4096)) = n div 4096"
    using assms by (simp add: hex_digit_props)
  ultimately show ?thesis
    using a by (simp only: hex4_def)
qed

lemma unquote_u_escape:
  assumes "n < 65536" "\<not> (0xD800 \<le> n \<and> n \<le> 0xDFFF)"
  shows "unquote (u_escape n @ t) = encode_rune n @ unquote t"
  using assms hex4_digits [OF assms(1)] by (subst unquote.simps) (auto simp: u_escape_def Let_def)

section \<open>The spelling decodes to the string\<close>

lemma unquote_plain: "c \<noteq> CHR 0x5C \<Longrightarrow> byte c < 0x80 \<Longrightarrow> unquote (c # t) = c # unquote t"
  by (subst unquote.simps) simp

lemma unquote_escape: "simple_escape e \<Longrightarrow> unquote (CHR 0x5C # e # t) = escape_char e # unquote t"
  by (subst unquote.simps) (auto simp: simple_escape_def)

lemma unquote_Nil [simp]: "unquote [] = []"
  by (simp add: unquote.simps)

lemma unquote_wide:
  assumes "s \<noteq> []" "decode_rune s = (r, n)" "\<not> (r = RuneError \<and> n \<le> 1)" "0x80 \<le> r"
  shows "unquote (take n s @ t) = take n s @ unquote t"
proof -
  have n: "0 < n" "n \<le> length s"
    using decode_rune_width [OF assms(1)] assms(2) by simp_all
  then obtain c u where c: "take n s = c # u"
    using assms(1) by (cases s; cases n) auto
  have b: "0x80 \<le> byte c"
    using decode_rune_bytes [OF assms] c by simp
  then have "c \<noteq> CHR 0x5C"
    by (auto simp: byte_def)
  moreover have "decode_rune (c # u @ t) = (r, n)"
    using decode_rune_prefix [OF assms(1-3), of t] c by simp
  moreover have "drop n (c # u @ t) = t"
    using c n by (metis append_Cons append_eq_conv_conj length_take min.absorb2)
  moreover have "encode_rune r = c # u"
    using encode_decode_rune [OF assms(1-3)] c by simp
  ultimately show ?thesis
    using b c by (subst unquote.simps) simp
qed

lemma quote_rune_ascii:
  "r < 0x80 \<Longrightarrow>
     quote_rune h (r, w) = [CHR 0x5C, char_of r] \<and> (r = 0x22 \<or> r = 0x5C)
   \<or> (\<exists>e. e \<in> set ''bfnrt'' \<and> quote_rune h (r, w) = [CHR 0x5C, e] \<and> char_of r = escape_char e)
   \<or> quote_rune h (r, w) = u_escape r
   \<or> quote_rune h (r, w) = [char_of r] \<and> 0x20 \<le> r \<and> r \<noteq> 0x22 \<and> r \<noteq> 0x5C"
  by (simp add: quote_rune_def escape_char_def)

lemma unquote_quote_rune:
  assumes "s \<noteq> []" "decode_rune s = (r, n)" "\<not> (r = RuneError \<and> n \<le> 1)"
  shows "unquote (quote_rune h (r, take n s) @ t) = take n s @ unquote t"
proof (cases "r < 0x80")
  case True
  with decode_rune_ascii_iff [OF assms(1,2)] have w: "take n s = [char_of r]"
    by (metis One_nat_def take0 take_Suc_Cons)
  have enc: "encode_rune r = [char_of r]"
    using True by (simp add: encode_rune_def)
  have b: "byte (char_of r) = r" using True by (simp add: byte_of_char)
  consider (self) "quote_rune h (r, take n s) = [CHR 0x5C, char_of r]" "r = 0x22 \<or> r = 0x5C"
    | (esc) e where "e \<in> set ''bfnrt''" "quote_rune h (r, take n s) = [CHR 0x5C, e]" "char_of r = escape_char e"
    | (u) "quote_rune h (r, take n s) = u_escape r"
    | (plain) "quote_rune h (r, take n s) = [char_of r]" "r \<noteq> 0x5C"
    using quote_rune_ascii [OF True, of h "take n s"] by blast
  then show ?thesis
  proof cases
    case self
    then show ?thesis using w
      by (auto simp: unquote_escape escape_char_def simple_escape_def)
  next
    case (esc e)
    then have "e \<noteq> CHR ''u''" by auto
    with esc w show ?thesis
      by (auto simp: unquote_escape simple_escape_def)
  next
    case u
    with True w enc show ?thesis by (simp add: unquote_u_escape)
  next
    case plain
    have "char_of r \<noteq> CHR 0x5C"
      using plain(2) True by (intro char_of_neq) (simp_all add: byte_def)
    with plain w b True show ?thesis by (simp add: unquote_plain)
  qed
next
  case False
  show ?thesis
  proof (cases "r = 0x2028 \<or> r = 0x2029")
    case True
    with assms False encode_decode_rune [OF assms] show ?thesis
      by (auto simp: quote_rune_def unquote_u_escape RuneError_def)
  next
    case narrow: False
    have "n = length (take n s)"
      using decode_rune_width [OF assms(1)] assms(2) by simp
    with assms(3) False narrow unquote_wide [OF assms] show ?thesis
      by (auto simp: quote_rune_def)
  qed
qed

lemma unquote_quote_body: "ValidString s \<Longrightarrow> unquote (quote_body h s) = s"
proof (induction s rule: runes.induct)
  case (1 s)
  show ?case
  proof (cases "s = []")
    case True
    then show ?thesis by (simp add: quote_body_def)
  next
    case False
    obtain r n where rn: "decode_rune s = (r, n)" by (cases "decode_rune s")
    have runes: "runes s = (r, take n s) # runes (drop n s)"
      using False rn by (simp add: runes.simps [of s])
    have len: "length (take n s) = n"
      using decode_rune_width [OF False] rn by simp
    from "1.prems" runes len have ok: "\<not> (r = RuneError \<and> n \<le> 1)" and v: "ValidString (drop n s)"
      by (auto simp: ValidString_def)
    have "unquote (quote_body h s) = take n s @ unquote (quote_body h (drop n s))"
      using unquote_quote_rune [OF False rn ok] runes by (simp add: quote_body_def)
    also have "unquote (quote_body h (drop n s)) = drop n s"
      using "1.IH" [OF False rn [symmetric] refl v] .
    finally show ?thesis by simp
  qed
qed

section \<open>The spelling is one lexeme\<close>

text \<open>A text the scanner passes over whole, whatever follows.\<close>

definition transparent :: "string \<Rightarrow> bool" where
  "transparent u \<longleftrightarrow> (\<forall>t. scan_str (u @ t) = map_option (\<lambda>(l, q). (u @ l, q)) (scan_str t))"

lemma transparent_Nil: "transparent []"
  by (simp add: transparent_def option.map_id0 [unfolded id_def] case_prod_beta')

lemma transparent_append:
  assumes "transparent u" "transparent v"
  shows "transparent (u @ v)"
  using assms by (simp add: transparent_def option.map_comp comp_def case_prod_beta')

lemma transparent_concat: "\<forall>u \<in> set us. transparent u \<Longrightarrow> transparent (concat us)"
  by (induction us) (simp_all add: transparent_Nil transparent_append)

lemma transparent_unit:
  assumes "str_unit u = Some (u, [])"
  shows "transparent u"
proof -
  have "scan_str (u @ t) = map_option (\<lambda>(l, q). (u @ l, q)) (scan_str t)" for t
  proof -
    have "take 1 (u @ t) \<noteq> [CHR 0x22]"
      using str_unit_not_quote [OF assms] str_unit_split [OF assms] by (cases u) auto
    with str_unit_extend [OF assms, of t] show ?thesis
      by (subst scan_str.simps) simp
  qed
  then show ?thesis by (simp add: transparent_def)
qed

lemma transparent_wide: "\<forall>c \<in> set w. 0x80 \<le> byte c \<Longrightarrow> transparent w"
proof (induction w)
  case (Cons c w)
  then have "str_unit [c] = Some ([c], [])"
    by (auto simp: str_unit_def byte_def)
  then have "transparent [c]" by (rule transparent_unit)
  with Cons transparent_append [of "[c]" w] show ?case by simp
qed (simp add: transparent_Nil)

lemma transparent_u_escape: "transparent (u_escape n)"
  by (rule transparent_unit) (simp add: u_escape_def str_unit_def simple_escape_def hex_digit_props)

lemma transparent_quote_rune:
  assumes "s \<noteq> []" "decode_rune s = (r, n)"
  shows "transparent (quote_rune h (r, take n s))"
proof (cases "r < 0x80")
  case True
  have b: "byte (char_of r) = r" using True by (simp add: byte_of_char)
  consider (self) "quote_rune h (r, take n s) = [CHR 0x5C, char_of r]" "r = 0x22 \<or> r = 0x5C"
    | (esc) e where "e \<in> set ''bfnrt''" "quote_rune h (r, take n s) = [CHR 0x5C, e]"
    | (u) "quote_rune h (r, take n s) = u_escape r"
    | (plain) "quote_rune h (r, take n s) = [char_of r]" "r \<noteq> 0x22" "r \<noteq> 0x5C" "0x20 \<le> r"
    using quote_rune_ascii [OF True, of h "take n s"] by blast
  then show ?thesis
  proof cases
    case plain
    have "char_of r \<noteq> CHR 0x5C" "char_of r \<noteq> CHR 0x22"
      using plain True by (intro char_of_neq; simp add: byte_def)+
    with plain b show ?thesis
      by (auto intro!: transparent_unit simp: str_unit_def)
  next
    case self
    then show ?thesis
      by (auto intro!: transparent_unit simp: str_unit_def simple_escape_def)
  next
    case (esc e)
    then have "simple_escape e" by (auto simp: simple_escape_def)
    with esc show ?thesis
      by (auto intro!: transparent_unit simp: str_unit_def)
  qed (simp add: transparent_u_escape)
next
  case False
  have "n = length (take n s)"
    using decode_rune_width [OF assms(1)] assms(2) by simp
  moreover have "0 < n"
    using decode_rune_width [OF assms(1)] assms(2) by simp
  ultimately show ?thesis
    using False decode_rune_bytes [OF assms] 
    by (auto simp: quote_rune_def transparent_u_escape intro!: transparent_wide)
qed

lemma runes_decode:
  "(r, w) \<in> set (runes s) \<Longrightarrow> \<exists>s' n. s' \<noteq> [] \<and> decode_rune s' = (r, n) \<and> w = take n s'"
proof (induction s rule: runes.induct)
  case (1 s)
  show ?case
  proof (cases "s = []")
    case False
    obtain r' n where rn: "decode_rune s = (r', n)" by (cases "decode_rune s")
    with "1.prems" False have "(r, w) = (r', take n s) \<or> (r, w) \<in> set (runes (drop n s))"
      by (simp add: runes.simps [of s])
    with "1.IH" [OF False rn [symmetric] refl] False rn show ?thesis by blast
  qed (use 1 in simp)
qed

lemma scan_str_quote: "scan_str (CHR 0x22 # t) = Some ([], t)"
  by (subst scan_str.simps) simp

lemma str_lexeme_quote_body: "str_lexeme (quote_body h s)"
proof -
  have "transparent (quote_body h s)"
    unfolding quote_body_def
  proof (rule transparent_concat, rule ballI)
    fix u
    assume "u \<in> set (map (quote_rune h) (runes s))"
    then obtain r w where u: "u = quote_rune h (r, w)" "(r, w) \<in> set (runes s)"
      by auto
    then obtain s' n where "s' \<noteq> []" "decode_rune s' = (r, n)" "w = take n s'"
      by (blast dest: runes_decode)
    with u show "transparent u"
      by (simp add: transparent_quote_rune)
  qed
  then show ?thesis
    by (simp add: transparent_def str_lexeme_def scan_str_quote)
qed

lemma parse_quote: "parse_json (quote h s) = Some (JStr (quote_body h s))"
  using parse_print [of "JStr (quote_body h s)"] by (simp add: quote_def str_lexeme_quote_body)

section \<open>What decoding yields is well-formed text\<close>

lemma decode_encode_rune:
  "\<exists>r'. decode_rune (encode_rune r @ t) = (r', length (encode_rune r))
     \<and> \<not> (r' = RuneError \<and> length (encode_rune r) \<le> 1) \<and> encode_rune r \<noteq> []"
proof -
  consider "r < 0x80" | "0x80 \<le> r" "r < 0x800" | "0x10FFFF < r \<or> (0xD800 \<le> r \<and> r \<le> 0xDFFF)"
    | "0x800 \<le> r" "r < 0x10000" "\<not> (0xD800 \<le> r \<and> r \<le> 0xDFFF)" | "0x10000 \<le> r" "r \<le> 0x10FFFF"
    by linarith
  then show ?thesis
  proof cases
    case 1
    then show ?thesis
      by (simp add: encode_rune_def byte_of_char RuneError_def)
  next
    case 2
    then have "r div 64 < 32" "2 \<le> r div 64" "r mod 64 < 64" by simp_all
    with 2 show ?thesis
      by (simp add: encode_rune_def decode_rune_def Let_def byte_of_char between_def)
  next
    case 3
    then have "encode_rune r = [char_of (0xEF :: nat), char_of (0xBF :: nat), char_of (0xBD :: nat)]"
      by (simp add: encode_rune_def) linarith
    then show ?thesis
      by (simp add: decode_rune_def Let_def byte_of_char between_def)
  next
    case 4
    define a b c where "a = r div 4096" and "b = r div 64 mod 64" and "c = r mod 64"
    have "r div 64 div 64 = a" by (simp add: a_def div_mult2_eq [symmetric])
    then have "r div 64 = a * 64 + b" "r = r div 64 * 64 + c"
      using div_mult_mod_eq [of "r div 64" 64] div_mult_mod_eq [of r 64] by (simp_all add: b_def c_def)
    then have r: "r = (a * 64 + b) * 64 + c" "b < 64" "c < 64" "a < 16"
      using 4 by (simp_all add: a_def b_def c_def less_mult_imp_div_less)
    have e: "encode_rune r = [char_of (0xE0 + a), char_of (0x80 + b), char_of (0x80 + c)]"
      using 4 by (auto simp: encode_rune_def a_def b_def c_def)
    have "a = 0 \<longrightarrow> 32 \<le> b" "a = 13 \<longrightarrow> b \<le> 31" using r 4 by auto
    with r show ?thesis
      unfolding e by (simp add: decode_rune_def Let_def byte_of_char between_def)
  next
    case 5
    define a b c d where "a = r div 262144" and "b = r div 4096 mod 64" and "c = r div 64 mod 64" and "d = r mod 64"
    have "r div 64 div 64 = r div 4096" "r div 4096 div 64 = a"
      by (simp_all add: a_def div_mult2_eq [symmetric])
    then have "r div 4096 = a * 64 + b" "r div 64 = r div 4096 * 64 + c" "r = r div 64 * 64 + d"
      using div_mult_mod_eq [of "r div 4096" 64] div_mult_mod_eq [of "r div 64" 64] div_mult_mod_eq [of r 64]
      by (simp_all add: b_def c_def d_def)
    moreover have "a < 5" using 5 by (simp add: a_def less_mult_imp_div_less)
    ultimately have r: "r = ((a * 64 + b) * 64 + c) * 64 + d" "b < 64" "c < 64" "d < 64" "a \<le> 4"
      by (simp_all add: b_def c_def d_def)
    have e: "encode_rune r = [char_of (0xF0 + a), char_of (0x80 + b), char_of (0x80 + c), char_of (0x80 + d)]"
      using 5 by (simp add: encode_rune_def a_def b_def c_def d_def)
    have "a = 0 \<longrightarrow> 16 \<le> b" "a = 4 \<longrightarrow> b \<le> 15" using r 5 by auto
    with r show ?thesis
      unfolding e by (simp add: decode_rune_def Let_def byte_of_char between_def)
  qed
qed

lemma ValidString_encode: "ValidString (encode_rune r @ t) = ValidString t"
proof -
  obtain r' where r': "decode_rune (encode_rune r @ t) = (r', length (encode_rune r))"
    "\<not> (r' = RuneError \<and> length (encode_rune r) \<le> 1)" "encode_rune r \<noteq> []"
    using decode_encode_rune [of r t] by blast
  then have "runes (encode_rune r @ t) = (r', encode_rune r) # runes t"
    by (simp add: runes.simps [of "encode_rune r @ t"])
  with r' show ?thesis
    by (auto simp: ValidString_def)
qed

lemma escape_char_ascii: "simple_escape e \<Longrightarrow> byte (escape_char e) < 0x80"
  by (simp add: simple_escape_def) (elim disjE; simp add: escape_char_def byte_def)

lemma encode_rune_byte: "byte c < 0x80 \<Longrightarrow> encode_rune (byte c) = [c]"
  by (simp add: encode_rune_def)

lemma unquote_step:
  "unquote s = [] \<or> (\<exists>x q. unquote s = encode_rune x @ unquote q \<and> length q < length s)"
proof (cases s)
  case (Cons c r)
  consider (esc) "c = CHR 0x5C" | (ascii) "c \<noteq> CHR 0x5C" "byte c < 0x80" | (wide) "c \<noteq> CHR 0x5C" "\<not> byte c < 0x80"
    by blast
  then show ?thesis
  proof cases
    case ascii
    then have "unquote s = encode_rune (byte c) @ unquote r"
      by (simp add: Cons unquote_plain encode_rune_byte)
    with Cons show ?thesis by (intro disjI2 exI conjI) auto
  next
    case wide
    then have "unquote s = encode_rune (fst (decode_rune s)) @ unquote (drop (snd (decode_rune s)) s)"
      unfolding Cons by (subst unquote.simps) simp
    moreover have "length (drop (snd (decode_rune s)) s) < length s"
      using decode_rune_width [of s] Cons by simp
    ultimately show ?thesis by blast
  next
    case esc
    show ?thesis
    proof (cases "\<exists>h1 h2 h3 h4 q. r = CHR ''u'' # h1 # h2 # h3 # h4 # q")
      case True
      then obtain h1 h2 h3 h4 q where r: "r = CHR ''u'' # h1 # h2 # h3 # h4 # q" by blast
      have "\<exists>x t. unquote s = encode_rune x @ unquote t \<and> (t = q \<or> length t < length q)"
        unfolding Cons esc r
        by (subst unquote.simps) (auto simp: Let_def dest: low_surrogate_length split: option.splits)
      then show ?thesis using Cons r by force
    next
      case False
      have "unquote s = [] \<or> (\<exists>e r'. r = e # r' \<and> simple_escape e \<and> unquote s = escape_char e # unquote r')"
      proof (cases r)
        case Nil
        then show ?thesis unfolding Cons esc by (subst unquote.simps) simp
      next
        case r: (Cons e r')
        show ?thesis
        proof (cases "e = CHR ''u''")
          case True
          with False r show ?thesis
            unfolding Cons esc by (subst unquote.simps) (auto split: list.splits)
        next
          case False
          then have "unquote s = (if simple_escape e then escape_char e # unquote r' else [])"
            unfolding Cons esc r by (subst unquote.simps) simp
          with r show ?thesis by (cases "simple_escape e") simp_all
        qed
      qed
      then show ?thesis
      proof (elim disjE exE conjE)
        fix e r'
        assume *: "r = e # r'" "simple_escape e" "unquote s = escape_char e # unquote r'"
        then have "unquote s = encode_rune (byte (escape_char e)) @ unquote r'"
          by (simp add: escape_char_ascii encode_rune_byte)
        moreover have "length r' < length s" using Cons * by simp
        ultimately show ?thesis by blast
      qed simp
    qed
  qed
qed simp

lemma ValidString_unquote: "ValidString (unquote s)"
proof (induction "length s" arbitrary: s rule: less_induct)
  case less
  then show ?case using unquote_step [of s] by (auto simp: ValidString_encode)
qed

end
