(* ===== verification/Tokens.thy ===== *)
theory Tokens
  imports JsonText
begin

text \<open>
  The token reader of \<open>encoding/json\<close> (\<open>Decoder.Token\<close>), and the two scans of record.go built
  on it: \<open>refuseDeepNesting\<close> and \<open>refuseDuplicateNames\<close>.  The reader is modelled with its own
  state machine, because it accepts more than one value in a row and reports the end of the
  input inside an open array as the end, not as an error.

  The lemmas relate the two scans to the parse tree of theory Json: on a text that is one
  valid value they accept exactly the trees that are not too deep and repeat no name.
\<close>

section \<open>The token reader\<close>

datatype tstate =
    TopValue | ArrayStart | ArrayValue | ArrayComma
  | ObjectStart | ObjectKey | ObjectColon | ObjectValue | ObjectComma

datatype token = Delim char | TString string | TScalar

datatype tok_result = EOF | TokErr | Tok token tstate "tstate list" string

definition tokenValueAllowed :: "tstate \<Rightarrow> bool" where
  "tokenValueAllowed st \<longleftrightarrow> st = TopValue \<or> st = ArrayStart \<or> st = ArrayValue \<or> st = ObjectValue"

definition tokenValueEnd :: "tstate \<Rightarrow> tstate" where
  "tokenValueEnd st =
     (if st = ArrayStart \<or> st = ArrayValue then ArrayComma
      else if st = ObjectValue then ObjectComma
      else st)"

definition scalar_token :: "json \<Rightarrow> token" where
  "scalar_token v = (case v of JStr l \<Rightarrow> TString (unquote l) | _ \<Rightarrow> TScalar)"

text \<open>The branch of \<open>Token\<close> that decodes a value or a name.\<close>

definition token_value :: "tstate \<Rightarrow> tstate list \<Rightarrow> string \<Rightarrow> tok_result" where
  "token_value st stk s =
     (if (st = ObjectStart \<or> st = ObjectKey) \<and> take 1 s = [CHR 0x22] then
        (case scan_str (drop 1 s) of
           None \<Rightarrow> TokErr
         | Some (l, q) \<Rightarrow> Tok (TString (unquote l)) ObjectColon stk q)
      else if \<not> tokenValueAllowed st then TokErr
      else (case scan_scalar s of
              None \<Rightarrow> TokErr
            | Some (v, q) \<Rightarrow> Tok (scalar_token v) (tokenValueEnd st) stk q))"

function Token :: "tstate \<Rightarrow> tstate list \<Rightarrow> string \<Rightarrow> tok_result" where
  "Token st stk s =
     (case skip_ws s of
        [] \<Rightarrow> EOF
      | c # r \<Rightarrow>
          if c = CHR ''['' then
            (if tokenValueAllowed st then Tok (Delim c) ArrayStart (st # stk) r else TokErr)
          else if c = CHR '']'' then
            (if st = ArrayStart \<or> st = ArrayComma
             then (case stk of [] \<Rightarrow> TokErr | st' # stk' \<Rightarrow> Tok (Delim c) (tokenValueEnd st') stk' r)
             else TokErr)
          else if c = CHR ''{'' then
            (if tokenValueAllowed st then Tok (Delim c) ObjectStart (st # stk) r else TokErr)
          else if c = CHR ''}'' then
            (if st = ObjectStart \<or> st = ObjectComma
             then (case stk of [] \<Rightarrow> TokErr | st' # stk' \<Rightarrow> Tok (Delim c) (tokenValueEnd st') stk' r)
             else TokErr)
          else if c = CHR '':'' then
            (if st = ObjectColon then Token ObjectValue stk r else TokErr)
          else if c = CHR '','' then
            (if st = ArrayComma then Token ArrayValue stk r
             else if st = ObjectComma then Token ObjectKey stk r
             else TokErr)
          else token_value st stk (c # r))"
  by pat_completeness auto
termination
proof (relation "measure (\<lambda>(st, stk, s). length s)")
  have "length r < length s" if "skip_ws s = c # r" for s :: string and c r
    using skip_ws_length [of s] that by simp
  then show "\<And>st stk s c r. skip_ws s = c # r \<Longrightarrow> c \<noteq> CHR ''['' \<Longrightarrow> c \<noteq> CHR '']'' \<Longrightarrow> c \<noteq> CHR ''{'' \<Longrightarrow>
      c \<noteq> CHR ''}'' \<Longrightarrow> c = CHR '':'' \<Longrightarrow> st = ObjectColon \<Longrightarrow>
      ((ObjectValue, stk, r), st, stk, s) \<in> measure (\<lambda>(st, stk, s). length s)"
    "\<And>st stk s c r. skip_ws s = c # r \<Longrightarrow> c \<noteq> CHR ''['' \<Longrightarrow> c \<noteq> CHR '']'' \<Longrightarrow> c \<noteq> CHR ''{'' \<Longrightarrow>
      c \<noteq> CHR ''}'' \<Longrightarrow> c \<noteq> CHR '':'' \<Longrightarrow> c = CHR '','' \<Longrightarrow> st = ArrayComma \<Longrightarrow>
      ((ArrayValue, stk, r), st, stk, s) \<in> measure (\<lambda>(st, stk, s). length s)"
    "\<And>st stk s c r. skip_ws s = c # r \<Longrightarrow> c \<noteq> CHR ''['' \<Longrightarrow> c \<noteq> CHR '']'' \<Longrightarrow> c \<noteq> CHR ''{'' \<Longrightarrow>
      c \<noteq> CHR ''}'' \<Longrightarrow> c \<noteq> CHR '':'' \<Longrightarrow> c = CHR '','' \<Longrightarrow> st \<noteq> ArrayComma \<Longrightarrow> st = ObjectComma \<Longrightarrow>
      ((ObjectKey, stk, r), st, stk, s) \<in> measure (\<lambda>(st, stk, s). length s)"
    by auto
qed simp

declare Token.simps [simp del]

lemma token_value_length: "token_value st stk s = Tok t st' stk' r \<Longrightarrow> length r < length s"
  by (cases s) (auto simp: token_value_def split: if_splits option.splits
      dest: scan_str_length scan_scalar_length)

lemma Token_length: "Token st stk s = Tok t st' stk' r \<Longrightarrow> length r < length s"
proof (induction st stk s rule: Token.induct)
  case (1 st stk s)
  then obtain c q where s: "skip_ws s = c # q"
    by (auto simp: Token.simps [of st stk s] split: list.splits)
  have len: "length q < length s"
    using skip_ws_length [of s] s by simp
  from "1.prems" s consider "r = q" | "token_value st stk (c # q) = Tok t st' stk' r"
    | "c = CHR '':''" "st = ObjectColon" "Token ObjectValue stk q = Tok t st' stk' r"
    | "c = CHR '',''" "st = ArrayComma" "Token ArrayValue stk q = Tok t st' stk' r"
    | "c = CHR '',''" "st = ObjectComma" "Token ObjectKey stk q = Tok t st' stk' r"
    by (auto simp: Token.simps [of st stk s] split: if_splits list.splits)
  then show ?case
  proof cases
    case 2
    then show ?thesis using token_value_length [OF 2] skip_ws_length [of s] s by simp
  next
    case 3
    then have "length r < length q" by (intro "1.IH"(1) [OF s]) simp_all
    with len show ?thesis by simp
  next
    case 4
    then have "length r < length q" by (intro "1.IH"(2) [OF s]) simp_all
    with len show ?thesis by simp
  next
    case 5
    then have "length r < length q" by (intro "1.IH"(3) [OF s]) simp_all
    with len show ?thesis by simp
  qed (use len in simp)
qed

text \<open>
  The loop \<open>for { t, err := dec.Token(); ... }\<close>: it ends well at \<open>io.EOF\<close>, with \<open>ErrInvalid\<close>
  at any other reader error, and otherwise runs its body, which may refuse.
\<close>

function scan_tokens :: "(token \<Rightarrow> 'a \<Rightarrow> 'a res) \<Rightarrow> 'a \<Rightarrow> tstate \<Rightarrow> tstate list \<Rightarrow> string \<Rightarrow> unit res" where
  "scan_tokens body a st stk s =
     (case Token st stk s of
        EOF \<Rightarrow> Inr ()
      | TokErr \<Rightarrow> Inl ErrInvalid
      | Tok t st' stk' r \<Rightarrow>
          (case body t a of Inl e \<Rightarrow> Inl e | Inr a' \<Rightarrow> scan_tokens body a' st' stk' r))"
  by pat_completeness auto
termination
  by (relation "measure (\<lambda>(body, a, st, stk, s). length s)") (auto dest: Token_length)

declare scan_tokens.simps [simp del]

section \<open>The two scans of record.go\<close>

definition depthLimit :: int where
  "depthLimit = 64"

definition deep_body :: "token \<Rightarrow> int \<Rightarrow> int res" where
  "deep_body t n = (case t of
     Delim d \<Rightarrow>
       if d = CHR ''{'' \<or> d = CHR ''['' then
         (if depthLimit < n + 1 then Inl ErrInvalid else Inr (n + 1))
       else Inr (n - 1)
   | _ \<Rightarrow> Inr n)"

definition refuseDeepNesting :: "string \<Rightarrow> unit res" where
  "refuseDeepNesting b = scan_tokens deep_body 0 TopValue [] b"

text \<open>The stack of frames of \<open>refuseDuplicateNames\<close>: what encloses the next token.\<close>

record frame =
  fr_object :: bool
  fr_seen :: "string list"
  fr_key :: bool

fun key_next :: "frame list \<Rightarrow> frame list" where
  "key_next [] = []"
| "key_next (f # fs) = (if fr_object f then f\<lparr>fr_key := True\<rparr> # fs else f # fs)"

definition dup_body :: "token \<Rightarrow> frame list \<Rightarrow> frame list res" where
  "dup_body t stack = (case t of
     Delim d \<Rightarrow>
       if d = CHR ''{'' then Inr (\<lparr>fr_object = True, fr_seen = [], fr_key = True\<rparr> # stack)
       else if d = CHR ''['' then Inr (\<lparr>fr_object = False, fr_seen = [], fr_key = False\<rparr> # stack)
       else (case stack of [] \<Rightarrow> Inl (ErrPlain ''panic'') | _ # rest \<Rightarrow> Inr (key_next rest))
   | _ \<Rightarrow>
       (case stack of
          [] \<Rightarrow> Inr stack
        | fr # rest \<Rightarrow>
            if fr_object fr \<and> fr_key fr then
              (case t of
                 TString name \<Rightarrow>
                   if name \<in> set (fr_seen fr) then Inl ErrInvalid
                   else Inr (fr\<lparr>fr_seen := name # fr_seen fr, fr_key := False\<rparr> # rest)
               | _ \<Rightarrow> Inl (ErrPlain ''panic''))
            else Inr (key_next stack)))"

definition refuseDuplicateNames :: "string \<Rightarrow> unit res" where
  "refuseDuplicateNames b = scan_tokens dup_body [] TopValue [] b"

section \<open>The tokens of a tree\<close>

fun flatten :: "json \<Rightarrow> token list" where
  "flatten (JArr vs) = Delim (CHR ''['') # concat (map flatten vs) @ [Delim (CHR '']'')]"
| "flatten (JObj ms) =
     Delim (CHR ''{'') # concat (map (\<lambda>(k, v). TString (unquote k) # flatten v) ms) @ [Delim (CHR ''}'')]"
| "flatten v = [scalar_token v]"

fun run_body :: "(token \<Rightarrow> 'a \<Rightarrow> 'a res) \<Rightarrow> token list \<Rightarrow> 'a \<Rightarrow> 'a res" where
  "run_body body [] a = Inr a"
| "run_body body (t # ts) a = rbind (body t a) (run_body body ts)"

lemma run_body_append [simp]:
  "run_body body (ts @ us) a = rbind (run_body body ts a) (run_body body us)"
  by (induction ts arbitrary: a) (auto simp: rbind_def split: sum.splits)

lemma rbind_assoc: "rbind (rbind r f) g = rbind r (\<lambda>x. rbind (f x) g)"
  by (cases r) simp_all

lemma scan_tokens_step:
  "Token st stk s = Tok t st' stk' r \<Longrightarrow>
     scan_tokens body a st stk s = rbind (body t a) (\<lambda>a'. scan_tokens body a' st' stk' r)"
  by (subst scan_tokens.simps) (simp add: rbind_def)

lemma scan_scalar_head:
  assumes "scan_scalar (c # r) = Some x"
  shows "c \<noteq> CHR ''{'' \<and> c \<noteq> CHR ''['' \<and> c \<noteq> CHR '']'' \<and> c \<noteq> CHR ''}'' \<and> c \<noteq> CHR '':'' \<and> c \<noteq> CHR '',''"
  using assms
  by (auto simp: scan_scalar_def scan_num_def scan_int_def is_digit_def between_def byte_def)

lemma Token_scalar:
  assumes "skip_ws s = c # t" "scan_scalar (c # t) = Some (v, r)" "tokenValueAllowed st"
  shows "Token st stk s = Tok (scalar_token v) (tokenValueEnd st) stk r"
  using assms scan_scalar_head [OF assms(2)]
  by (subst Token.simps) (auto simp: token_value_def tokenValueAllowed_def)

lemma flatten_scalar: "scan_scalar s = Some (v, r) \<Longrightarrow> flatten v = [scalar_token v]"
  by (auto simp: scan_scalar_def split: if_splits)

lemma scan_tokens_parse:
  "parse_value f d s = Some (v, r) \<Longrightarrow> tokenValueAllowed st \<Longrightarrow>
     scan_tokens body a st stk s
       = rbind (run_body body (flatten v) a) (\<lambda>a'. scan_tokens body a' (tokenValueEnd st) stk r)"
  "parse_elems f d s = Some (vs, r) \<Longrightarrow> st = ArrayStart \<or> st = ArrayValue \<Longrightarrow> stk = st0 # stk0 \<Longrightarrow>
     scan_tokens body a st stk s
       = rbind (run_body body (concat (map flatten vs) @ [Delim (CHR '']'')]) a)
           (\<lambda>a'. scan_tokens body a' (tokenValueEnd st0) stk0 r)"
  "parse_members f d s = Some (ms, r) \<Longrightarrow> st = ObjectStart \<or> st = ObjectKey \<Longrightarrow> stk = st0 # stk0 \<Longrightarrow>
     scan_tokens body a st stk s
       = rbind (run_body body (concat (map (\<lambda>(k, v). TString (unquote k) # flatten v) ms)
                  @ [Delim (CHR ''}'')]) a)
           (\<lambda>a'. scan_tokens body a' (tokenValueEnd st0) stk0 r)"
proof (induction f arbitrary: d s v vs ms r st stk st0 stk0 a)
  case 0
  { case 1 then show ?case by simp }
  { case 2 then show ?case by simp }
  { case 3 then show ?case by simp }
next
  case (Suc f)
  { case 1
    then obtain c t where s: "skip_ws s = c # t"
      by (auto split: list.splits)
    consider (o0) "c = CHR ''{''" "v = JObj []" "take 1 (skip_ws t) = ''}''" "r = drop 1 (skip_ws t)"
      | (a0) "c = CHR ''[''" "v = JArr []" "take 1 (skip_ws t) = '']''" "r = drop 1 (skip_ws t)"
      | (os) ms where "c = CHR ''{''" "v = JObj ms" "parse_members f (d - 1) t = Some (ms, r)"
      | (as) vs where "c = CHR ''[''" "v = JArr vs" "parse_elems f (d - 1) t = Some (vs, r)"
      | (sc) "scan_scalar (c # t) = Some (v, r)"
      using 1 s by (auto split: if_splits)
    then show ?case
    proof cases
      case o0
      then have t: "skip_ws t = CHR ''}'' # r" by (cases "skip_ws t") auto
      have "Token st stk s = Tok (Delim (CHR ''{'')) ObjectStart (st # stk) t"
        using s o0 1 by (simp add: Token.simps [of st stk s])
      moreover have "Token ObjectStart (st # stk) t = Tok (Delim (CHR ''}'')) (tokenValueEnd st) stk r"
        using t by (simp add: Token.simps [of ObjectStart "st # stk" t])
      ultimately show ?thesis using o0 by (simp add: scan_tokens_step rbind_assoc)
    next
      case a0
      then have t: "skip_ws t = CHR '']'' # r" by (cases "skip_ws t") auto
      have "Token st stk s = Tok (Delim (CHR ''['')) ArrayStart (st # stk) t"
        using s a0 1 by (simp add: Token.simps [of st stk s])
      moreover have "Token ArrayStart (st # stk) t = Tok (Delim (CHR '']'')) (tokenValueEnd st) stk r"
        using t by (simp add: Token.simps [of ArrayStart "st # stk" t])
      ultimately show ?thesis using a0 by (simp add: scan_tokens_step rbind_assoc)
    next
      case (os ms)
      have "Token st stk s = Tok (Delim (CHR ''{'')) ObjectStart (st # stk) t"
        using s os 1 by (simp add: Token.simps [of st stk s])
      then show ?thesis
        using os Suc.IH(3) [OF os(3), of ObjectStart "st # stk" st stk]
        by (simp add: scan_tokens_step rbind_assoc)
    next
      case (as vs)
      have "Token st stk s = Tok (Delim (CHR ''['')) ArrayStart (st # stk) t"
        using s as 1 by (simp add: Token.simps [of st stk s])
      then show ?thesis
        using as Suc.IH(2) [OF as(3), of ArrayStart "st # stk" st stk]
        by (simp add: scan_tokens_step rbind_assoc)
    next
      case sc
      have "Token st stk s = Tok (scalar_token v) (tokenValueEnd st) stk r"
        using s sc 1(2) by (rule Token_scalar)
      then show ?thesis
        using flatten_scalar [OF sc] by (simp add: scan_tokens_step rbind_assoc)
    qed }
  { case 2
    then obtain w t where w: "parse_value f d s = Some (w, t)"
      by (auto split: option.splits)
    with 2 obtain c q where q: "skip_ws t = c # q"
      by (auto split: list.splits)
    have first: "scan_tokens body a st stk s
        = rbind (run_body body (flatten w) a) (\<lambda>a'. scan_tokens body a' ArrayComma stk t)"
      using Suc.IH(1) [OF w, of st a stk] 2(2) by (auto simp: tokenValueAllowed_def tokenValueEnd_def)
    from 2 w q consider (last) "vs = [w]" "c = CHR '']''" "r = q"
      | (more) ws where "vs = w # ws" "c = CHR '',''" "parse_elems f d q = Some (ws, r)"
      by (auto split: if_splits)
    then show ?case
    proof cases
      case last
      have "Token ArrayComma stk t = Tok (Delim (CHR '']'')) (tokenValueEnd st0) stk0 r"
        using q last 2(3) by (simp add: Token.simps [of ArrayComma "st0 # stk0" t])
      then show ?thesis
        using first last by (simp add: scan_tokens_step rbind_assoc)
    next
      case (more ws)
      have "Token ArrayComma stk t = Token ArrayValue stk q"
        using q more by (simp add: Token.simps [of ArrayComma stk t])
      then have "scan_tokens body b ArrayComma stk t = scan_tokens body b ArrayValue stk q" for b
        by (simp add: scan_tokens.simps [of body b ArrayComma stk t]
            scan_tokens.simps [of body b ArrayValue stk q])
      then show ?thesis
        using first more Suc.IH(2) [OF more(3), of ArrayValue stk st0 stk0] 2(3)
        by (simp add: rbind_assoc)
    qed }
  { case 3
    then obtain t where s: "skip_ws s = CHR 0x22 # t"
      by (auto split: list.splits if_splits)
    with 3 obtain k q where k: "scan_str t = Some (k, q)"
      by (auto split: option.splits)
    with 3 s have colon: "take 1 (skip_ws q) = '':''"
      by (auto split: if_splits)
    define u where "u = drop 1 (skip_ws q)"
    from colon have u: "skip_ws q = CHR '':'' # u" by (cases "skip_ws q") (auto simp: u_def)
    with 3 s k colon obtain w x where w: "parse_value f d u = Some (w, x)"
      by (auto split: option.splits)
    with 3 s k colon u obtain c' q' where q': "skip_ws x = c' # q'"
      by (auto split: list.splits)
    have name: "Token st stk s = Tok (TString (unquote k)) ObjectColon stk q"
      using s k 3(2) by (auto simp: Token.simps [of st stk s] token_value_def)
    have "Token ObjectColon stk q = Token ObjectValue stk u"
      using u by (simp add: Token.simps [of ObjectColon stk q])
    then have "scan_tokens body b ObjectColon stk q = scan_tokens body b ObjectValue stk u" for b
      by (simp add: scan_tokens.simps [of body b ObjectColon stk q]
          scan_tokens.simps [of body b ObjectValue stk u])
    moreover have "scan_tokens body b ObjectValue stk u
        = rbind (run_body body (flatten w) b) (\<lambda>a'. scan_tokens body a' ObjectComma stk x)" for b
      using Suc.IH(1) [OF w, of ObjectValue b stk] by (simp add: tokenValueAllowed_def tokenValueEnd_def)
    ultimately have first: "scan_tokens body a st stk s
        = rbind (run_body body (TString (unquote k) # flatten w) a)
            (\<lambda>a'. scan_tokens body a' ObjectComma stk x)"
      using name by (simp add: scan_tokens_step rbind_assoc)
    from 3 s k colon u w q' consider (last) "ms = [(k, w)]" "c' = CHR ''}''" "r = q'"
      | (more) ns where "ms = (k, w) # ns" "c' = CHR '',''" "parse_members f d q' = Some (ns, r)"
      by (auto split: if_splits)
    then show ?case
    proof cases
      case last
      have "Token ObjectComma stk x = Tok (Delim (CHR ''}'')) (tokenValueEnd st0) stk0 r"
        using q' last 3(3) by (simp add: Token.simps [of ObjectComma "st0 # stk0" x])
      then show ?thesis
        using first last by (simp add: scan_tokens_step rbind_assoc)
    next
      case (more ns)
      have "Token ObjectComma stk x = Token ObjectKey stk q'"
        using q' more by (simp add: Token.simps [of ObjectComma stk x])
      then have "scan_tokens body b ObjectComma stk x = scan_tokens body b ObjectKey stk q'" for b
        by (simp add: scan_tokens.simps [of body b ObjectComma stk x]
            scan_tokens.simps [of body b ObjectKey stk q'])
      then show ?thesis
        using first more Suc.IH(3) [OF more(3), of ObjectKey stk st0 stk0] 3(3)
        by (simp add: rbind_assoc)
    qed }
qed

text \<open>On one valid value the loop runs its body over the tokens of the tree, then ends.\<close>

lemma scan_tokens_valid:
  assumes "parse_json s = Some v"
  shows "scan_tokens body a TopValue [] s = rbind (run_body body (flatten v) a) (\<lambda>_. Inr ())"
proof -
  obtain r where r: "parse_value (2 * length s + 1) max_nesting s = Some (v, r)" "skip_ws r = []"
    using assms by (auto simp: parse_json_def split: option.splits if_splits simp del: parse_value.simps)
  have "scan_tokens body b TopValue [] r = Inr ()" for b
    using r(2) by (simp add: scan_tokens.simps [of body b TopValue "[]" r] Token.simps)
  with scan_tokens_parse(1) [OF r(1), of TopValue body a "[]"] show ?thesis
    by (simp add: tokenValueAllowed_def tokenValueEnd_def)
qed

section \<open>What the scans accept\<close>

fun dup_free :: "json \<Rightarrow> bool" where
  "dup_free (JArr vs) = list_all dup_free vs"
| "dup_free (JObj ms) =
     (distinct (map (\<lambda>(k, _). unquote k) ms) \<and> list_all (\<lambda>(_, v). dup_free v) ms)"
| "dup_free _ = True"

lemma deep_body_simps:
  "deep_body (Delim (CHR ''{'')) n = (if depthLimit < n + 1 then Inl ErrInvalid else Inr (n + 1))"
  "deep_body (Delim (CHR ''['')) n = (if depthLimit < n + 1 then Inl ErrInvalid else Inr (n + 1))"
  "deep_body (Delim (CHR ''}'')) n = Inr (n - 1)"
  "deep_body (Delim (CHR '']'')) n = Inr (n - 1)"
  "deep_body (TString k) n = Inr n"
  "deep_body TScalar n = Inr n"
  by (simp_all add: deep_body_def)

lemma run_deep:
  "0 \<le> n \<Longrightarrow> n \<le> depthLimit \<Longrightarrow>
     run_body deep_body (flatten v) n
       = (if n + int (depth v) \<le> depthLimit then Inr n else Inl ErrInvalid)"
proof (induction v arbitrary: n)
  case (JArr vs)
  have "run_body deep_body (concat (map flatten ws)) m
      = (if m + int (foldr max (map depth ws) 0) \<le> depthLimit then Inr m else Inl ErrInvalid)"
    if "0 \<le> m" "m \<le> depthLimit" "set ws \<subseteq> set vs" for m ws
    using that
  proof (induction ws)
    case (Cons w ws)
    then have "run_body deep_body (flatten w) m
        = (if m + int (depth w) \<le> depthLimit then Inr m else Inl ErrInvalid)"
      by (intro JArr.IH) auto
    with Cons show ?case by auto
  qed simp
  from this [of "n + 1" vs] JArr.prems show ?case
    by (auto simp: deep_body_simps)
next
  case (JObj ms)
  have "run_body deep_body (concat (map (\<lambda>(k, v). TString (unquote k) # flatten v) ns)) m
      = (if m + int (foldr max (map (\<lambda>(k, v). depth v) ns) 0) \<le> depthLimit then Inr m else Inl ErrInvalid)"
    if "0 \<le> m" "m \<le> depthLimit" "set ns \<subseteq> set ms" for m ns
    using that
  proof (induction ns)
    case (Cons p ns)
    obtain k w where p: "p = (k, w)" by (cases p)
    with Cons have "run_body deep_body (flatten w) m
        = (if m + int (depth w) \<le> depthLimit then Inr m else Inl ErrInvalid)"
      by (intro JObj.IH [of p w]) auto
    with Cons p show ?case by (auto simp: deep_body_simps)
  qed simp
  from this [of "n + 1" ms] JObj.prems show ?case
    by (auto simp: deep_body_simps)
qed (auto simp: deep_body_simps scalar_token_def)

text \<open>A value starts where its enclosing object, if any, has read the value's name.\<close>

definition at_value :: "frame list \<Rightarrow> bool" where
  "at_value fs \<longleftrightarrow> (case fs of [] \<Rightarrow> True | f # _ \<Rightarrow> fr_object f \<longrightarrow> \<not> fr_key f)"

lemma dup_body_simps:
  "dup_body (Delim (CHR ''{'')) fs = Inr (\<lparr>fr_object = True, fr_seen = [], fr_key = True\<rparr> # fs)"
  "dup_body (Delim (CHR ''['')) fs = Inr (\<lparr>fr_object = False, fr_seen = [], fr_key = False\<rparr> # fs)"
  "dup_body (Delim (CHR ''}'')) (f # fs) = Inr (key_next fs)"
  "dup_body (Delim (CHR '']'')) (f # fs) = Inr (key_next fs)"
  "dup_body (TString k) (\<lparr>fr_object = True, fr_seen = seen, fr_key = True\<rparr> # fs) =
     (if k \<in> set seen then Inl ErrInvalid
      else Inr (\<lparr>fr_object = True, fr_seen = k # seen, fr_key = False\<rparr> # fs))"
  by (simp_all add: dup_body_def)

lemma run_dup:
  "at_value fs \<Longrightarrow>
     run_body dup_body (flatten v) fs = (if dup_free v then Inr (key_next fs) else Inl ErrInvalid)"
proof (induction v arbitrary: fs)
  case (JArr vs)
  let ?fr = "\<lparr>fr_object = False, fr_seen = [], fr_key = False\<rparr>"
  have "run_body dup_body (concat (map flatten ws)) (?fr # fs)
      = (if list_all dup_free ws then Inr (?fr # fs) else Inl ErrInvalid)"
    if "set ws \<subseteq> set vs" for ws
    using that
  proof (induction ws)
    case (Cons w ws)
    then have "run_body dup_body (flatten w) (?fr # fs)
        = (if dup_free w then Inr (?fr # fs) else Inl ErrInvalid)"
      by (subst JArr.IH) (auto simp: at_value_def)
    with Cons show ?case by auto
  qed simp
  from this [of vs] show ?case
    by (simp add: dup_body_simps)
next
  case (JObj ms)
  let ?fr = "\<lambda>seen. \<lparr>fr_object = True, fr_seen = seen, fr_key = True\<rparr>"
  have "run_body dup_body (concat (map (\<lambda>(k, v). TString (unquote k) # flatten v) ns)) (?fr seen # fs)
      = (if distinct (map (\<lambda>(k, _). unquote k) ns) \<and> set (map (\<lambda>(k, _). unquote k) ns) \<inter> set seen = {}
            \<and> list_all (\<lambda>(_, v). dup_free v) ns
         then Inr (?fr (rev (map (\<lambda>(k, _). unquote k) ns) @ seen) # fs) else Inl ErrInvalid)"
    if "set ns \<subseteq> set ms" for ns seen
    using that
  proof (induction ns arbitrary: seen)
    case (Cons p ns)
    obtain k w where p: "p = (k, w)" by (cases p)
    let ?gr = "\<lparr>fr_object = True, fr_seen = unquote k # seen, fr_key = False\<rparr>"
    have "run_body dup_body (flatten w) (?gr # fs)
        = (if dup_free w then Inr (?fr (unquote k # seen) # fs) else Inl ErrInvalid)"
      using Cons.prems p by (subst JObj.IH [of p w]) (auto simp: at_value_def)
    with Cons p show ?case
      by (cases "unquote k \<in> set seen") (auto simp: dup_body_simps)
  qed simp
  from this [of ms "[]"] show ?case
    by (simp add: dup_body_simps)
qed (auto simp: dup_body_def scalar_token_def at_value_def split: list.splits)

lemma refuseDeepNesting_valid:
  "parse_json s = Some v \<Longrightarrow> refuseDeepNesting s = Inr () \<longleftrightarrow> int (depth v) \<le> depthLimit"
  by (simp add: refuseDeepNesting_def scan_tokens_valid run_deep depthLimit_def)

lemma refuseDuplicateNames_valid:
  "parse_json s = Some v \<Longrightarrow> refuseDuplicateNames s = Inr () \<longleftrightarrow> dup_free v"
  by (simp add: refuseDuplicateNames_def scan_tokens_valid run_dup at_value_def)

lemma scan_tokens_empty: "scan_tokens body a TopValue [] [] = Inr ()"
  by (simp add: scan_tokens.simps [of _ _ _ _ "[]"] Token.simps)

lemma refuseDuplicateNames_Nil [simp]: "refuseDuplicateNames [] = Inr ()"
  by (simp add: refuseDuplicateNames_def scan_tokens_empty)


section \<open>The scans never panic\<close>

text \<open>
  The two places where \<open>refuseDuplicateNames\<close> could panic, the type assertion \<open>t.(string)\<close> and
  the slice \<open>stack[:len(stack)-1]\<close>, rely on the stack of frames following the reader's own.
  \<open>agree st stk fs\<close> is that invariant.
\<close>

definition frame_ok :: "tstate \<Rightarrow> frame \<Rightarrow> bool" where
  "frame_ok st f \<longleftrightarrow>
     (if fr_object f then
        (if fr_key f then st = ObjectStart \<or> st = ObjectKey \<or> st = ObjectComma
         else st = ObjectColon \<or> st = ObjectValue)
      else st = ArrayStart \<or> st = ArrayValue \<or> st = ArrayComma)"

fun agree :: "tstate \<Rightarrow> tstate list \<Rightarrow> frame list \<Rightarrow> bool" where
  "agree st [] [] = (st = TopValue)"
| "agree st (s # stk) (f # fs) = (frame_ok st f \<and> tokenValueAllowed s \<and> agree s stk fs)"
| "agree _ _ _ = False"

lemma agree_value_end:
  "agree st stk fs \<Longrightarrow> tokenValueAllowed st \<Longrightarrow> agree (tokenValueEnd st) stk (key_next fs)"
  by (induction st stk fs rule: agree.induct)
    (auto simp: tokenValueEnd_def tokenValueAllowed_def frame_ok_def split: if_splits)

lemma agree_open:
  "agree st stk fs \<Longrightarrow> tokenValueAllowed st \<Longrightarrow> frame_ok st' f \<Longrightarrow> agree st' (st # stk) (f # fs)"
  by simp

lemma token_value_step:
  assumes "token_value st stk s = Tok t st' stk' r" "agree st stk fs"
  shows "case dup_body t fs of Inl e \<Rightarrow> e = ErrInvalid | Inr fs' \<Rightarrow> agree st' stk' fs'"
proof (cases "(st = ObjectStart \<or> st = ObjectKey) \<and> take 1 s = [CHR 0x22]")
  case True
  then obtain k where t: "t = TString k" "st' = ObjectColon" "stk' = stk"
    using assms(1) by (auto simp: token_value_def split: option.splits)
  from True assms(2) obtain f gs s0 stk0 where "fs = f # gs" "stk = s0 # stk0"
    by (cases "(st, stk, fs)" rule: agree.cases) auto
  with t True assms(2) show ?thesis
    by (auto simp: dup_body_def frame_ok_def split: if_splits)
next
  case False
  then have v: "tokenValueAllowed st" "st' = tokenValueEnd st" "stk' = stk" "\<not> (\<exists>d. t = Delim d)"
    using assms(1) by (auto simp: token_value_def scalar_token_def split: if_splits option.splits json.splits)
  then have "dup_body t fs = Inr (key_next fs)"
    using assms(2) by (cases fs; cases stk; cases t)
      (auto simp: dup_body_def frame_ok_def tokenValueAllowed_def)
  with v assms(2) agree_value_end show ?thesis by simp
qed

lemma Token_step:
  "Token st stk s = Tok t st' stk' r \<Longrightarrow> agree st stk fs \<Longrightarrow>
     (case dup_body t fs of Inl e \<Rightarrow> e = ErrInvalid | Inr fs' \<Rightarrow> agree st' stk' fs')"
proof (induction st stk s rule: Token.induct)
  case (1 st stk s)
  then obtain c q where s: "skip_ws s = c # q"
    by (auto simp: Token.simps [of st stk s] split: list.splits)
  from "1.prems"(1) s consider
      (ao) "c = CHR ''[''" "tokenValueAllowed st" "t = Delim c" "st' = ArrayStart" "stk' = st # stk"
    | (ac) s0 where "c = CHR '']''" "t = Delim c" "stk = s0 # stk'" "st' = tokenValueEnd s0"
    | (oo) "c = CHR ''{''" "tokenValueAllowed st" "t = Delim c" "st' = ObjectStart" "stk' = st # stk"
    | (oc) s0 where "c = CHR ''}''" "t = Delim c" "stk = s0 # stk'" "st' = tokenValueEnd s0"
    | (colon) "c = CHR '':''" "st = ObjectColon" "Token ObjectValue stk q = Tok t st' stk' r"
    | (acomma) "c = CHR '',''" "st = ArrayComma" "Token ArrayValue stk q = Tok t st' stk' r"
    | (ocomma) "c = CHR '',''" "st = ObjectComma" "Token ObjectKey stk q = Tok t st' stk' r"
    | (val) "token_value st stk (c # q) = Tok t st' stk' r"
    by (auto simp: Token.simps [of st stk s] split: if_splits list.splits)
  then show ?case
  proof cases
    case ao
    with "1.prems"(2) show ?thesis by (simp add: dup_body_simps frame_ok_def)
  next
    case oo
    with "1.prems"(2) show ?thesis by (simp add: dup_body_simps frame_ok_def)
  next
    case ac
    with "1.prems"(2) obtain f gs where "fs = f # gs" "tokenValueAllowed s0" "agree s0 stk' gs"
      by (cases fs) auto
    with ac agree_value_end show ?thesis by (simp add: dup_body_simps)
  next
    case oc
    with "1.prems"(2) obtain f gs where "fs = f # gs" "tokenValueAllowed s0" "agree s0 stk' gs"
      by (cases fs) auto
    with oc agree_value_end show ?thesis by (simp add: dup_body_simps)
  next
    case colon
    have "agree ObjectValue stk fs"
      using "1.prems"(2) colon by (cases stk; cases fs) (auto simp: frame_ok_def split: if_splits)
    with colon show ?thesis by (intro "1.IH"(1) [OF s]) simp_all
  next
    case acomma
    have "agree ArrayValue stk fs"
      using "1.prems"(2) acomma by (cases stk; cases fs) (auto simp: frame_ok_def split: if_splits)
    with acomma show ?thesis by (intro "1.IH"(2) [OF s]) simp_all
  next
    case ocomma
    have "agree ObjectKey stk fs"
      using "1.prems"(2) ocomma by (cases stk; cases fs) (auto simp: frame_ok_def split: if_splits)
    with ocomma show ?thesis by (intro "1.IH"(3) [OF s]) simp_all
  next
    case val
    from token_value_step [OF this "1.prems"(2)] show ?thesis .
  qed
qed

lemma scan_dup_no_panic:
  "agree st stk fs \<Longrightarrow> scan_tokens dup_body fs st stk s = Inr () \<or> scan_tokens dup_body fs st stk s = Inl ErrInvalid"
proof (induction "length s" arbitrary: fs st stk s rule: less_induct)
  case less
  show ?case
  proof (cases "Token st stk s")
    case (Tok t st' stk' r)
    with less Token_step [OF Tok less.prems] Token_length [OF Tok] show ?thesis
      by (cases "dup_body t fs") (auto simp: scan_tokens_step)
  qed (simp_all add: scan_tokens.simps [of dup_body fs st stk s])
qed

lemma refuseDuplicateNames_no_panic':
  "refuseDuplicateNames b = Inr () \<or> refuseDuplicateNames b = Inl ErrInvalid"
  unfolding refuseDuplicateNames_def by (rule scan_dup_no_panic) simp

lemma scan_deep_cases:
  "scan_tokens deep_body n st stk s = Inr () \<or> scan_tokens deep_body n st stk s = Inl ErrInvalid"
proof (induction "length s" arbitrary: n st stk s rule: less_induct)
  case less
  show ?case
  proof (cases "Token st stk s")
    case (Tok t st' stk' r)
    with less Token_length [OF Tok] show ?thesis
      by (cases "deep_body t n") (auto simp: scan_tokens_step deep_body_def split: token.splits if_splits)
  qed (simp_all add: scan_tokens.simps [of deep_body n st stk s])
qed

lemma refuseDeepNesting_cases: "refuseDeepNesting b = Inr () \<or> refuseDeepNesting b = Inl ErrInvalid"
  unfolding refuseDeepNesting_def by (rule scan_deep_cases)

text \<open>On any bytes whatever, valid JSON or not, the two scans answer nil or \<open>ErrInvalid\<close>:
  neither the type assertion of \<open>refuseDuplicateNames\<close> nor its pop of the frame stack can panic.\<close>

theorem refuseDuplicateNames_no_panic:
  "refuseDuplicateNames b \<in> {Inr (), Inl ErrInvalid} \<and> refuseDeepNesting b \<in> {Inr (), Inl ErrInvalid}"
  using refuseDuplicateNames_no_panic' [of b] refuseDeepNesting_cases [of b] by simp

text \<open>On a text that is one JSON value, \<open>refuseDeepNesting\<close> and \<open>refuseDuplicateNames\<close> accept
  exactly the values nested at most 64 deep and the values in which no object, at any
  level, gives one decoded name to two members.\<close>

theorem scans_decide_tree:
  assumes "parse_json s = Some v"
  shows "(refuseDeepNesting s = Inr () \<longleftrightarrow> depth v \<le> 64) \<and> (refuseDuplicateNames s = Inr () \<longleftrightarrow> dup_free v)"
  using refuseDeepNesting_valid [OF assms] refuseDuplicateNames_valid [OF assms]
  by (simp add: depthLimit_def)

lemma scans_decide_tree_witness:
  "\<not> dup_free (JObj [(''a'', JNum ''1''), (''a'', JNum ''2'')]) \<and> depth (JObj [(''a'', JNum ''1''), (''a'', JNum ''2'')]) \<le> 64"
proof -
  have "parse_json ''{\"a\":1,\"a\":2}'' = Some (JObj [(''a'', JNum ''1''), (''a'', JNum ''2'')])"
    by code_simp
  moreover have "refuseDuplicateNames ''{\"a\":1,\"a\":2}'' = Inl ErrInvalid" "refuseDeepNesting ''{\"a\":1,\"a\":2}'' = Inr ()"
    by code_simp+
  ultimately show ?thesis
    using scans_decide_tree [of "''{\"a\":1,\"a\":2}''"] by auto
qed

end
