(* ===== verification/JobRecord.thy ===== *)
theory JobRecord
  imports Envelope Tokens
begin

text \<open>
  The job record of go/record.go: its data, the declaration of features (\<open>describe\<close>,
  \<open>Understands\<close>), \<open>Validate\<close>, and the questions a record answers about itself
  (\<open>Wants\<close>, \<open>Paused\<close>, \<open>Stranded\<close>, \<open>Held\<close>, and \<open>Ask\<close> of go/envelope.go).

  A nil pointer is \<open>None\<close>; \<open>State\<close> and \<open>Want\<close>, strings in the source, are datatypes whose
  last constructor holds any other text; nil and empty slices and maps are one value.
\<close>

section \<open>Features\<close>

definition FeatureIntent :: string where "FeatureIntent = ''abstraction.job/intent@1''"
definition FeatureDelegation :: string where "FeatureDelegation = ''abstraction.job/delegation@1''"
definition FeatureStep :: string where "FeatureStep = ''abstraction.job/step@1''"
definition FeatureTerminal :: string where "FeatureTerminal = ''abstraction.job/terminal@1''"
definition FeatureRecall :: string where "FeatureRecall = ''abstraction.job/recall@1''"
definition FeatureRanges :: string where "FeatureRanges = ''abstraction.download/ranges@1''"

lemmas feature_defs = FeatureBase_def FeatureIntent_def FeatureDelegation_def FeatureStep_def
  FeatureTerminal_def FeatureRecall_def FeatureRanges_def FeatureEnvelope_def

definition known :: "string list" where
  "known = [FeatureBase, FeatureIntent, FeatureDelegation, FeatureStep, FeatureTerminal,
     FeatureRecall, FeatureEnvelope, FeatureRanges]"

definition carried :: "string list" where
  "carried = [FeatureRanges]"

definition neverCritical :: "string list" where
  "neverCritical = [FeatureStep, FeatureRanges]"

definition legacySchemas :: "int \<Rightarrow> string list option" where
  "legacySchemas n =
     (if n = 3 then Some [FeatureBase]
      else if n = 4 then Some [FeatureBase, FeatureIntent]
      else if n = 5 then Some [FeatureBase, FeatureIntent, FeatureStep]
      else None)"

definition KnownFeatures :: "string list" where
  "KnownFeatures = sort known"

definition NeverCritical :: "string \<Rightarrow> bool" where
  "NeverCritical name \<longleftrightarrow> name \<in> set neverCritical"

fun Understands :: "string list \<Rightarrow> string \<times> bool" where
  "Understands [] = ([], True)"
| "Understands (name # critical) = (if name \<notin> set known then (name, False) else Understands critical)"

lemma Understands_iff: "snd (Understands critical) \<longleftrightarrow> set critical \<subseteq> set known"
  by (induction critical) auto

section \<open>States and wants\<close>

datatype state =
    StatePending | StateRunning | StateTransferred | StateComplete | StateFailed | StateCancelled
  | StateOther string

definition Terminal :: "state \<Rightarrow> bool" where
  "Terminal s = (case s of StateComplete \<Rightarrow> True | StateFailed \<Rightarrow> True | StateCancelled \<Rightarrow> True | _ \<Rightarrow> False)"

definition ValidState :: "state \<Rightarrow> bool" where
  "ValidState s = (case s of StateOther _ \<Rightarrow> False | _ \<Rightarrow> True)"

datatype Want = WantRun | WantPause | WantCancel | WantOther string

definition ValidWant :: "Want \<Rightarrow> bool" where
  "ValidWant w = (case w of WantOther _ \<Rightarrow> False | _ \<Rightarrow> True)"

section \<open>The record\<close>

record Intent =
  iWant :: Want
  iBy :: string
  iAt :: time

record Step =
  sName :: string
  sOrdinal :: int
  sOf :: int
  sDone :: int
  sTotal :: int

record Progress =
  pDone :: int
  pTotal :: int
  pUpdatedAt :: time
  pStep :: "Step option"

record Recall =
  rcReason :: string
  rcBy :: string
  rcAt :: time
  rcUntil :: time

record Lease =
  lOwner :: string
  lEpoch :: int
  lExpiresAt :: time
  lRecall :: "Recall option"

record Delegation =
  dSystem :: string
  dExternalID :: string
  dDelivered :: bool

record Record =
  rContent :: "string list"
  rCritical :: "string list"
  rID :: string
  rKind :: string
  rEnvelope :: "Envelope option"
  rState :: state
  rSpec :: string
  rCheckpoint :: string
  rProgress :: Progress
  rLease :: Lease
  rDelegation :: "Delegation option"
  rRequires :: "string list"
  rError :: string
  rIntent :: "Intent option"
  rExtensions :: "string gomap"
  rCreatedAt :: time
  rUpdatedAt :: time

text \<open>The zero values a Go composite literal starts from.\<close>

definition zero_progress :: Progress where
  "zero_progress = \<lparr>pDone = 0, pTotal = 0, pUpdatedAt = 0, pStep = None\<rparr>"

definition zero_lease :: Lease where
  "zero_lease = \<lparr>lOwner = [], lEpoch = 0, lExpiresAt = 0, lRecall = None\<rparr>"

definition zero_record :: Record where
  "zero_record = \<lparr>rContent = [], rCritical = [], rID = [], rKind = [], rEnvelope = None,
     rState = StateOther [], rSpec = [], rCheckpoint = [], rProgress = zero_progress,
     rLease = zero_lease, rDelegation = None, rRequires = [], rError = [], rIntent = None,
     rExtensions = [], rCreatedAt = 0, rUpdatedAt = 0\<rparr>"

section \<open>What a record says of itself\<close>

definition Wants :: "Record \<Rightarrow> Want" where
  "Wants r = (case rIntent r of
     None \<Rightarrow> WantRun
   | Some i \<Rightarrow> if iWant i = WantOther [] then WantRun else iWant i)"

definition Paused :: "Record \<Rightarrow> bool" where
  "Paused r \<longleftrightarrow> Wants r = WantPause \<and> \<not> Terminal (rState r)"

definition Stranded :: "Record \<Rightarrow> bool" where
  "Stranded r \<longleftrightarrow> (if rState r = StateTransferred then False else \<not> Paused r \<or> rState r = StateRunning)"

definition Held :: "Lease \<Rightarrow> time \<Rightarrow> bool" where
  "Held l now \<longleftrightarrow> lOwner l \<noteq> [] \<and> now < lExpiresAt l"

definition Recalled :: "Lease \<Rightarrow> bool" where
  "Recalled l \<longleftrightarrow> lRecall l \<noteq> None"

definition Delegated :: "Record \<Rightarrow> bool" where
  "Delegated r \<longleftrightarrow> rDelegation r \<noteq> None"

definition Schema :: "Record \<Rightarrow> string" where
  "Schema r = (case rEnvelope r of None \<Rightarrow> [] | Some e \<Rightarrow> eSchema e)"

definition Actions :: "Record \<Rightarrow> string list" where
  "Actions r = (case rEnvelope r of None \<Rightarrow> [] | Some e \<Rightarrow> eActions e)"

definition Supports :: "Record \<Rightarrow> string \<Rightarrow> bool" where
  "Supports r action = (case rEnvelope r of None \<Rightarrow> False | Some e \<Rightarrow> contains (eActions e) action)"

record Supervisor =
  svSchemas :: "string list"
  svActions :: "string list"

definition Ask :: "Record \<Rightarrow> string \<Rightarrow> Supervisor \<Rightarrow> unit res" where
  "Ask r action s =
     (let (schema, _, ok) = SplitAction action in
      if \<not> ok then Inl ErrInvalid
      else case rEnvelope r of
        None \<Rightarrow> Inl ErrNotSupported
      | Some e \<Rightarrow>
          if \<not> contains (svSchemas s) (eSchema e) then Inl ErrUnknownSchema
          else if schema \<noteq> [] \<and> \<not> contains (svSchemas s) schema then Inl ErrUnknownSchema
          else if \<not> Supports r action then Inl ErrNotSupported
          else if \<not> contains (svActions s) action then Inl ErrNotSupported
          else Inr ())"

section \<open>The declaration of features\<close>

text \<open>The loop that collects the declarations the record carries without being able to derive
  them, and the one that keeps what the caller marked critical.\<close>

fun carried_here :: "string list \<Rightarrow> string list \<Rightarrow> string list" where
  "carried_here acc [] = acc"
| "carried_here acc (name # names) =
     (if name \<in> set carried \<and> \<not> contains acc name then carried_here (acc @ [name]) names
      else carried_here acc names)"

fun keep_critical :: "string list \<Rightarrow> string list \<Rightarrow> string list \<Rightarrow> string list" where
  "keep_critical content critical [] = critical"
| "keep_critical content critical (name # names) =
     (if name \<in> set neverCritical then keep_critical content critical names
      else if \<not> contains critical name \<and> contains content name
      then keep_critical content (critical @ [name]) names
      else keep_critical content critical names)"

definition describe :: "Record \<Rightarrow> Record" where
  "describe r =
     (let content = [FeatureBase];
          critical = [FeatureBase];
          content = content @ (if rIntent r \<noteq> None then [FeatureIntent] else []);
          critical = critical @ (if rIntent r \<noteq> None then [FeatureIntent] else []);
          content = content @ (if rDelegation r \<noteq> None then [FeatureDelegation] else []);
          critical = critical @ (if rDelegation r \<noteq> None then [FeatureDelegation] else []);
          content = content @ (if rEnvelope r \<noteq> None then [FeatureEnvelope] else []);
          critical = critical @ (if rEnvelope r \<noteq> None then [FeatureEnvelope] else []);
          content = content @ (if pStep (rProgress r) \<noteq> None then [FeatureStep] else []);
          content = content @ (if Terminal (rState r) then [FeatureTerminal] else []);
          critical = critical @ (if Terminal (rState r) then [FeatureTerminal] else []);
          content = content @ (if lRecall (rLease r) \<noteq> None then [FeatureRecall] else []);
          critical = critical @ (if lRecall (rLease r) \<noteq> None then [FeatureRecall] else []);
          content = content @ sort (carried_here [] (rContent r));
          content = content @ gomap_keys (rExtensions r);
          critical = keep_critical content critical (rCritical r)
      in r\<lparr>rContent := content, rCritical := critical\<rparr>)"

section \<open>Validation\<close>

definition validate_content :: "Record \<Rightarrow> unit res" where
  "validate_content r =
     (if rContent r = [] then Inl ErrInvalid
      else let marked = filter (\<lambda>n. n \<notin> set neverCritical) (rCritical r) in
        if \<not> snd (Understands marked) then Inl ErrUnknownSchema
        else if \<not> list_all (contains (rContent r)) marked then Inl ErrInvalid
        else Inr ())"

definition validate_extensions :: "string gomap \<Rightarrow> unit res" where
  "validate_extensions m =
     foldr (\<lambda>(name, raw) rest.
        if blank name then Inl ErrInvalid
        else if raw = [] \<or> \<not> Valid raw then Inl ErrInvalid
        else rbind (refuseDuplicateNames raw) (\<lambda>_. rest)) m (Inr ())"

definition validate_step :: "Step option \<Rightarrow> unit res" where
  "validate_step st = (case st of
     None \<Rightarrow> Inr ()
   | Some s \<Rightarrow>
       if blank (sName s) then Inl ErrInvalid
       else if sOrdinal s < 1 then Inl ErrInvalid
       else if sOf s > 0 \<and> sOrdinal s > sOf s then Inl ErrInvalid
       else if sDone s < 0 \<or> sTotal s < 0 then Inl ErrInvalid
       else Inr ())"

definition validate_delegation :: "Delegation option \<Rightarrow> unit res" where
  "validate_delegation d = (case d of
     None \<Rightarrow> Inr ()
   | Some d \<Rightarrow> if blank (dSystem d) \<or> blank (dExternalID d) then Inl ErrInvalid else Inr ())"

definition validate_recall :: "Recall option \<Rightarrow> unit res" where
  "validate_recall rc = (case rc of
     None \<Rightarrow> Inr ()
   | Some rc \<Rightarrow>
       if blank (rcReason rc) then Inl ErrInvalid
       else if IsZero (rcUntil rc) then Inl ErrInvalid
       else Inr ())"

definition Validate :: "Record \<Rightarrow> unit res" where
  "Validate r =
     rbind (validate_content r) (\<lambda>_.
     if (case rIntent r of None \<Rightarrow> False | Some i \<Rightarrow> \<not> ValidWant (iWant i)) then Inl ErrInvalid
     else if blank (rID r) then Inl ErrInvalid
     else if blank (rKind r) then Inl ErrInvalid
     else if \<not> ValidState (rState r) then Inl ErrInvalid
     else rbind (case rEnvelope r of None \<Rightarrow> Inr () | Some e \<Rightarrow> validate_envelope e) (\<lambda>_.
     if rSpec r = [] \<or> \<not> Valid (rSpec r) \<or> TrimSpace (rSpec r) = ''null'' then Inl ErrInvalid
     else rbind (refuseDuplicateNames (rSpec r)) (\<lambda>_.
     if rCheckpoint r \<noteq> [] \<and> \<not> Valid (rCheckpoint r) then Inl ErrInvalid
     else rbind (refuseDuplicateNames (rCheckpoint r)) (\<lambda>_.
     if pDone (rProgress r) < 0 \<or> pTotal (rProgress r) < 0 then Inl ErrInvalid
     else rbind (validate_extensions (rExtensions r)) (\<lambda>_.
     rbind (validate_step (pStep (rProgress r))) (\<lambda>_.
     rbind (validate_delegation (rDelegation r)) (\<lambda>_.
     validate_recall (lRecall (rLease r)))))))))"

section \<open>What the declaration says\<close>

lemma carried_here_eq:
  "carried_here acc names = acc @ (if FeatureRanges \<in> set names \<and> FeatureRanges \<notin> set acc then [FeatureRanges] else [])"
  by (induction acc names rule: carried_here.induct) (auto simp: carried_def)

lemma keep_critical_mono: "\<exists>ex. keep_critical c crit names = crit @ ex \<and> distinct ex \<and> set ex \<inter> set crit = {}
     \<and> set ex \<subseteq> set c - set neverCritical"
proof (induction c crit names rule: keep_critical.induct)
  case (2 c crit n names)
  show ?case
  proof (cases "n \<in> set neverCritical \<or> \<not> (\<not> contains crit n \<and> contains c n)")
    case True
    with 2 show ?thesis by auto
  next
    case False
    with 2 obtain ex where "keep_critical c (crit @ [n]) names = crit @ n # ex" "distinct ex"
      "set ex \<inter> set (crit @ [n]) = {}" "set ex \<subseteq> set c - set neverCritical"
      by auto
    with False show ?thesis by (intro exI [of _ "n # ex"]) auto
  qed
qed simp

lemma keep_critical_skip: "set names \<subseteq> set crit \<Longrightarrow> keep_critical c crit (names @ ms) = keep_critical c crit ms"
  by (induction names) auto

lemma keep_critical_all:
  "distinct ex \<Longrightarrow> set ex \<inter> set crit = {} \<Longrightarrow> set ex \<subseteq> set c - set neverCritical \<Longrightarrow>
     keep_critical c crit ex = crit @ ex"
  by (induction ex arbitrary: crit) auto

lemma keep_critical_idem: "keep_critical c crit (keep_critical c crit names) = keep_critical c crit names"
proof -
  obtain ex where ex: "keep_critical c crit names = crit @ ex" "distinct ex" "set ex \<inter> set crit = {}"
    "set ex \<subseteq> set c - set neverCritical"
    using keep_critical_mono by blast
  show ?thesis
    unfolding ex(1) using keep_critical_skip [of crit crit c ex] keep_critical_all [OF ex(2-4)] by simp
qed

lemma set_keep_critical:
  "set (keep_critical c crit names) = set crit \<union> {n \<in> set names. n \<notin> set neverCritical \<and> n \<in> set c}"
  by (induction c crit names rule: keep_critical.induct) auto

definition derived :: "Record \<Rightarrow> string list" where
  "derived r = [FeatureBase]
     @ (if rIntent r \<noteq> None then [FeatureIntent] else [])
     @ (if rDelegation r \<noteq> None then [FeatureDelegation] else [])
     @ (if rEnvelope r \<noteq> None then [FeatureEnvelope] else [])
     @ (if pStep (rProgress r) \<noteq> None then [FeatureStep] else [])
     @ (if Terminal (rState r) then [FeatureTerminal] else [])
     @ (if lRecall (rLease r) \<noteq> None then [FeatureRecall] else [])"

definition derived_critical :: "Record \<Rightarrow> string list" where
  "derived_critical r = filter (\<lambda>n. n \<noteq> FeatureStep) (derived r)"

lemma feature_distinct [simp]:
  "FeatureBase \<noteq> FeatureStep" "FeatureIntent \<noteq> FeatureStep" "FeatureDelegation \<noteq> FeatureStep"
  "FeatureEnvelope \<noteq> FeatureStep" "FeatureTerminal \<noteq> FeatureStep" "FeatureRecall \<noteq> FeatureStep"
  by (simp_all add: feature_defs)

lemma describe_eq:
  "describe r = r\<lparr>rContent := derived r @ (if FeatureRanges \<in> set (rContent r) then [FeatureRanges] else [])
        @ gomap_keys (rExtensions r),
     rCritical := keep_critical
       (derived r @ (if FeatureRanges \<in> set (rContent r) then [FeatureRanges] else []) @ gomap_keys (rExtensions r))
       (derived_critical r) (rCritical r)\<rparr>"
  by (simp add: describe_def Let_def derived_def derived_critical_def carried_here_eq)

lemma describe_keeps [rec_simps]:
  "rID (describe r) = rID r" "rKind (describe r) = rKind r" "rEnvelope (describe r) = rEnvelope r"
  "rState (describe r) = rState r" "rSpec (describe r) = rSpec r" "rCheckpoint (describe r) = rCheckpoint r"
  "rProgress (describe r) = rProgress r" "rLease (describe r) = rLease r"
  "rDelegation (describe r) = rDelegation r" "rRequires (describe r) = rRequires r"
  "rError (describe r) = rError r" "rIntent (describe r) = rIntent r"
  "rExtensions (describe r) = rExtensions r" "rCreatedAt (describe r) = rCreatedAt r"
  "rUpdatedAt (describe r) = rUpdatedAt r"
  by (simp_all add: describe_eq)

lemma derived_no_ranges: "FeatureRanges \<notin> set (derived r)"
  by (auto simp: derived_def feature_defs)

lemma derived_known: "set (derived r) \<subseteq> set known"
  by (auto simp: derived_def known_def)

lemma derived_describe [simp]:
  "derived (describe r) = derived r" "derived_critical (describe r) = derived_critical r"
  by (simp_all add: derived_def derived_critical_def describe_keeps)

lemma derived_cong:
  "rIntent r = rIntent q \<Longrightarrow> rDelegation r = rDelegation q \<Longrightarrow> rEnvelope r = rEnvelope q \<Longrightarrow>
   pStep (rProgress r) = pStep (rProgress q) \<Longrightarrow> rState r = rState q \<Longrightarrow>
   lRecall (rLease r) = lRecall (rLease q) \<Longrightarrow> derived r = derived q"
  by (simp add: derived_def)

lemma in_derived:
  "FeatureBase \<in> set (derived r)"
  "FeatureIntent \<in> set (derived r) \<longleftrightarrow> rIntent r \<noteq> None"
  "FeatureDelegation \<in> set (derived r) \<longleftrightarrow> rDelegation r \<noteq> None"
  "FeatureEnvelope \<in> set (derived r) \<longleftrightarrow> rEnvelope r \<noteq> None"
  "FeatureStep \<in> set (derived r) \<longleftrightarrow> pStep (rProgress r) \<noteq> None"
  "FeatureTerminal \<in> set (derived r) \<longleftrightarrow> Terminal (rState r)"
  "FeatureRecall \<in> set (derived r) \<longleftrightarrow> lRecall (rLease r) \<noteq> None"
  by (auto simp: derived_def feature_defs)

text \<open>The names a record's content claims, when no extension squats a name of this layer's.\<close>

definition own_extensions :: "Record \<Rightarrow> bool" where
  "own_extensions r \<longleftrightarrow> fst ` set (rExtensions r) \<inter> set known = {}"

lemma describe_idem: "own_extensions r \<Longrightarrow> describe (describe r) = describe r"
proof -
  assume own: "own_extensions r"
  have fr: "FeatureRanges \<in> set (rContent (describe r)) \<longleftrightarrow> FeatureRanges \<in> set (rContent r)"
    using own derived_no_ranges [of r] by (auto simp: describe_eq own_extensions_def known_def)
  show "describe (describe r) = describe r"
    unfolding describe_eq [of "describe r"] derived_describe fr describe_keeps
    unfolding describe_eq [of r] by (simp add: keep_critical_idem)
qed



section \<open>What validation promises\<close>

lemma runes_ws: "list_all is_ws ws \<Longrightarrow> runes (ws @ t) = map (\<lambda>c. (byte c, [c])) ws @ runes t"
  by (induction ws) (auto simp: is_ws_def byte_def)

lemma is_ws_space: "is_ws c \<Longrightarrow> IsSpace (byte c)"
  unfolding is_ws_def by (elim disjE) (simp_all add: IsSpace_def byte_def)

lemma skip_ws_split: "\<exists>ws. list_all is_ws ws \<and> s = ws @ skip_ws s"
proof (induction s)
  case (Cons c s)
  then obtain ws where "list_all is_ws ws" "s = ws @ skip_ws s" by blast
  then show ?case
    by (cases "is_ws c") (auto intro: exI [of _ "c # ws"])
qed simp

lemma parse_null_trim:
  assumes "parse_json s = Some JNull"
  shows "TrimSpace s = ''null''"
proof -
  obtain r where r: "parse_value (2 * length s + 1) max_nesting s = Some (JNull, r)" "skip_ws r = []"
    using assms by (auto simp: parse_json_def split: option.splits if_splits simp del: parse_value.simps)
  then obtain c t where s: "skip_ws s = c # t" and "scan_scalar (c # t) = Some (JNull, r)"
    by (auto split: list.splits if_splits)
  then have t: "c # t = ''null'' @ r"
    using append_take_drop_id [of 4 "c # t"] append_take_drop_id [of 3 t]
    by (auto simp: scan_scalar_def split: if_splits simp del: append_take_drop_id)
  obtain ws where ws: "list_all is_ws ws" "s = ws @ skip_ws s"
    using skip_ws_split by blast
  obtain ws' where ws': "list_all is_ws ws'" "r = ws'"
    using skip_ws_split [of r] r(2) by auto
  have eq: "s = ws @ ''null'' @ ws'"
    using ws(2) s t ws' by simp
  let ?m = "map (\<lambda>c. (byte c, [c]))"
  have runes: "runes s = ?m ws @ ?m ''null'' @ ?m ws'"
    unfolding eq using runes_ws [OF ws(1)] runes_ws [OF ws'(1), of "[]"] by (simp add: byte_def)
  let ?sp = "\<lambda>(r, _ :: string). IsSpace r"
  have sp: "\<forall>x \<in> set (?m us). ?sp x" if "list_all is_ws us" for us
    using that is_ws_space by (auto simp: list_all_iff)
  have null: "?m ''null'' = [(110, ''n''), (117, ''u''), (108, ''l''), (108, ''l'')]"
    by (simp add: byte_def)
  have "dropWhile ?sp (runes s) = dropWhile ?sp (?m ''null'' @ ?m ws')"
    unfolding runes using sp [OF ws(1)] by (intro dropWhile_append2) blast
  also have "\<dots> = ?m ''null'' @ ?m ws'"
    unfolding null by (simp add: IsSpace_def)
  finally have 1: "dropWhile ?sp (runes s) = ?m ''null'' @ ?m ws'" .
  have "dropWhile ?sp (rev (?m ws') @ rev (?m ''null'')) = dropWhile ?sp (rev (?m ''null''))"
    using sp [OF ws'(1)] by (intro dropWhile_append2) auto
  also have "\<dots> = rev (?m ''null'')"
    unfolding null by (simp add: IsSpace_def)
  finally have 2: "dropWhile ?sp (rev (?m ''null'' @ ?m ws')) = rev (?m ''null'')"
    unfolding rev_append .
  show ?thesis
    unfolding TrimSpace_def Let_def 1 2 by simp
qed

lemma Valid_parse: "Valid s \<longleftrightarrow> (\<exists>v. parse_json s = Some v)"
  by (simp add: Valid_def)

lemma validate_extensions_iff:
  "validate_extensions m = Inr () \<longleftrightarrow>
     (\<forall>(name, raw) \<in> set m. \<not> blank name \<and> (\<exists>v. parse_json raw = Some v \<and> dup_free v))"
proof (induction m)
  case (Cons p m)
  obtain name raw where p: "p = (name, raw)" by (cases p)
  have "\<not> Valid []" by code_simp
  with Cons p show ?case
    by (auto simp: validate_extensions_def Valid_parse refuseDuplicateNames_valid res_simps)
qed (simp add: validate_extensions_def)

lemma validate_extensions_cases:
  "validate_extensions m = Inr () \<or> validate_extensions m = Inl ErrInvalid"
proof (induction m)
  case (Cons p m)
  then show ?case
    using refuseDuplicateNames_no_panic' [of "snd p"] by (cases p) (auto simp: validate_extensions_def)
qed (simp add: validate_extensions_def)

lemma validate_envelope_cases: "validate_envelope e = Inr () \<or> validate_envelope e = Inl ErrInvalid"
proof -
  have "validate_actions es seen names = Inr () \<or> validate_actions es seen names = Inl ErrInvalid" for es seen names
    by (induction es seen names rule: validate_actions.induct) (auto split: prod.splits)
  then show ?thesis by (simp add: validate_envelope_def)
qed

text \<open>The conditions a record meets once it has passed \<open>Validate\<close>, over the parse trees of its
  opaque halves.\<close>

definition good_value :: "string \<Rightarrow> bool" where
  "good_value raw \<longleftrightarrow> (\<exists>v. parse_json raw = Some v \<and> dup_free v)"

definition well_formed :: "Record \<Rightarrow> bool" where
  "well_formed r \<longleftrightarrow>
     rContent r \<noteq> []
   \<and> (\<forall>n \<in> set (rCritical r). n \<in> set neverCritical \<or> n \<in> set known \<and> n \<in> set (rContent r))
   \<and> (\<forall>i. rIntent r = Some i \<longrightarrow> ValidWant (iWant i))
   \<and> \<not> blank (rID r) \<and> \<not> blank (rKind r) \<and> ValidState (rState r)
   \<and> (\<forall>e. rEnvelope r = Some e \<longrightarrow> validate_envelope e = Inr ())
   \<and> good_value (rSpec r) \<and> parse_json (rSpec r) \<noteq> Some JNull
   \<and> (rCheckpoint r = [] \<or> good_value (rCheckpoint r))
   \<and> 0 \<le> pDone (rProgress r) \<and> 0 \<le> pTotal (rProgress r)
   \<and> (\<forall>(name, raw) \<in> set (rExtensions r). \<not> blank name \<and> good_value raw)
   \<and> (\<forall>s. pStep (rProgress r) = Some s \<longrightarrow>
        \<not> blank (sName s) \<and> 1 \<le> sOrdinal s \<and> (sOf s \<le> 0 \<or> sOrdinal s \<le> sOf s) \<and> 0 \<le> sDone s \<and> 0 \<le> sTotal s)
   \<and> (\<forall>d. rDelegation r = Some d \<longrightarrow> \<not> blank (dSystem d) \<and> \<not> blank (dExternalID d))
   \<and> (\<forall>rc. lRecall (rLease r) = Some rc \<longrightarrow> \<not> blank (rcReason rc) \<and> rcUntil rc \<noteq> 0)"

lemma validate_content_ok:
  "validate_content r = Inr () \<longleftrightarrow> rContent r \<noteq> []
     \<and> (\<forall>n \<in> set (rCritical r). n \<in> set neverCritical \<or> n \<in> set known \<and> n \<in> set (rContent r))"
  by (auto simp: validate_content_def Understands_iff list_all_iff)

lemma validate_parts_ok:
  "validate_step st = Inr () \<longleftrightarrow> (\<forall>s. st = Some s \<longrightarrow> \<not> blank (sName s) \<and> 1 \<le> sOrdinal s
      \<and> (sOf s \<le> 0 \<or> sOrdinal s \<le> sOf s) \<and> 0 \<le> sDone s \<and> 0 \<le> sTotal s)"
  "validate_delegation d = Inr () \<longleftrightarrow> (\<forall>x. d = Some x \<longrightarrow> \<not> blank (dSystem x) \<and> \<not> blank (dExternalID x))"
  "validate_recall rc = Inr () \<longleftrightarrow> (\<forall>x. rc = Some x \<longrightarrow> \<not> blank (rcReason x) \<and> rcUntil x \<noteq> 0)"
  by (auto simp: validate_step_def validate_delegation_def validate_recall_def IsZero_def split: option.splits)

lemma Validate_well_formed:
  assumes "Validate r = Inr ()"
  shows "well_formed r"
proof -
  have parts: "validate_content r = Inr ()" "\<And>i. rIntent r = Some i \<Longrightarrow> ValidWant (iWant i)"
    "\<not> blank (rID r)" "\<not> blank (rKind r)" "ValidState (rState r)"
    "\<And>e. rEnvelope r = Some e \<Longrightarrow> validate_envelope e = Inr ()"
    "Valid (rSpec r)" "TrimSpace (rSpec r) \<noteq> ''null''" "refuseDuplicateNames (rSpec r) = Inr ()"
    "rCheckpoint r = [] \<or> Valid (rCheckpoint r)" "refuseDuplicateNames (rCheckpoint r) = Inr ()"
    "0 \<le> pDone (rProgress r)" "0 \<le> pTotal (rProgress r)"
    "validate_extensions (rExtensions r) = Inr ()" "validate_step (pStep (rProgress r)) = Inr ()"
    "validate_delegation (rDelegation r) = Inr ()" "validate_recall (lRecall (rLease r)) = Inr ()"
    using assms by (auto simp: Validate_def res_simps split: option.splits)
  then show ?thesis
    unfolding well_formed_def good_value_def
    using validate_content_ok validate_extensions_iff validate_parts_ok parse_null_trim
      refuseDuplicateNames_valid Valid_parse by auto
qed

text \<open>A record that has passed keeps passing as long as the fields that are read do.\<close>

lemma Validate_cong:
  "validate_content r = validate_content q \<Longrightarrow> rIntent r = rIntent q \<Longrightarrow> rID r = rID q \<Longrightarrow> rKind r = rKind q \<Longrightarrow>
   rState r = rState q \<Longrightarrow> rEnvelope r = rEnvelope q \<Longrightarrow> rSpec r = rSpec q \<Longrightarrow> rCheckpoint r = rCheckpoint q \<Longrightarrow>
   pDone (rProgress r) = pDone (rProgress q) \<Longrightarrow> pTotal (rProgress r) = pTotal (rProgress q) \<Longrightarrow>
   pStep (rProgress r) = pStep (rProgress q) \<Longrightarrow> rExtensions r = rExtensions q \<Longrightarrow>
   rDelegation r = rDelegation q \<Longrightarrow> lRecall (rLease r) = lRecall (rLease q) \<Longrightarrow> Validate r = Validate q"
  by (simp add: Validate_def)

definition ok_or_invalid :: "unit res \<Rightarrow> bool" where
  "ok_or_invalid x \<longleftrightarrow> x = Inr () \<or> x = Inl ErrInvalid"

lemma ok_or_invalid_intros:
  "(\<not> c \<Longrightarrow> ok_or_invalid x) \<Longrightarrow> ok_or_invalid (if c then Inl ErrInvalid else x)"
  "ok_or_invalid z \<Longrightarrow> ok_or_invalid (y ()) \<Longrightarrow> ok_or_invalid (rbind z y)"
  by (auto simp: ok_or_invalid_def)

lemma ok_or_invalid_parts:
  "ok_or_invalid (validate_step st)" "ok_or_invalid (validate_delegation d)" "ok_or_invalid (validate_recall rc)"
  "ok_or_invalid (case ev of None \<Rightarrow> Inr () | Some e \<Rightarrow> validate_envelope e)"
  "ok_or_invalid (refuseDuplicateNames b)" "ok_or_invalid (validate_extensions m)"
  using validate_envelope_cases refuseDuplicateNames_no_panic' validate_extensions_cases
  by (auto simp: ok_or_invalid_def validate_step_def validate_delegation_def validate_recall_def split: option.splits)

lemma Validate_cases:
  assumes "validate_content r \<in> {Inr (), Inl ErrInvalid, Inl ErrUnknownSchema}"
  shows "Validate r \<in> {Inr (), Inl ErrInvalid, Inl ErrUnknownSchema}"
proof (cases "validate_content r = Inr ()")
  case True
  have "ok_or_invalid (Validate r)"
    unfolding Validate_def True rbind_simps by (intro ok_or_invalid_intros ok_or_invalid_parts)
  then show ?thesis by (auto simp: ok_or_invalid_def)
next
  case False
  with assms show ?thesis by (auto simp: Validate_def)
qed

text \<open>C23: \<open>Validate\<close> never panics and fails only with the two sentinels of this package; a record it
  accepts is well formed: every critical name that is not advisory is known and declared, the
  wants, states and names are legal, the spec is present and is not null, and the spec, the
  checkpoint and every extension are JSON whose objects, at every level, repeat no name.\<close>

theorem Validate_correct:
  "Validate r \<in> {Inr (), Inl ErrInvalid, Inl ErrUnknownSchema}
   \<and> (Validate r = Inr () \<longrightarrow> well_formed r)"
proof -
  have "validate_content r \<in> {Inr (), Inl ErrInvalid, Inl ErrUnknownSchema}"
    by (auto simp: validate_content_def Let_def)
  then show ?thesis
    using Validate_cases Validate_well_formed by blast
qed

section \<open>A sample job\<close>

text \<open>The record the witnesses of the theories below start from.\<close>

definition sample :: Record where
  "sample = zero_record\<lparr>rID := ''j1'', rKind := ''download'', rState := StatePending, rSpec := ''{}''\<rparr>"

lemma sample_json: "Valid ''{}''" "refuseDuplicateNames ''{}'' = Inr ()"
  by code_simp+

lemmas sample_simps = sample_def zero_record_def zero_progress_def zero_lease_def

lemmas eval_record = sample_simps sample_json describe_eq derived_def derived_critical_def known_def
  neverCritical_def feature_defs Terminal_def ValidState_def blank_def TrimSpace_def IsSpace_def byte_def
  gomap_keys_def

lemmas eval_Validate = Validate_def validate_content_def validate_extensions_def validate_step_def
  validate_delegation_def validate_recall_def

lemma sample_valid: "Validate (describe sample) = Inr ()"
  by (simp add: eval_record eval_Validate)

lemma Validate_correct_witness: "good_value ''{}'' \<and> well_formed (describe sample)"
  using Validate_correct [of "describe sample"] sample_valid
  by (auto simp: well_formed_def describe_keeps sample_def)


section \<open>Asking for an action\<close>

text \<open>\<open>Ask\<close> on a valid envelope grants an action exactly when the record declares it, this
  supervisor knows the record's schema, and it implements the action; an envelope whose schema
  is not in the supervisor's own list is refused, whatever the action.\<close>

theorem Ask_correct:
  assumes "rEnvelope r = Some e" "validate_envelope e = Inr ()"
  shows "(Ask r a s = Inr () \<longleftrightarrow> eSchema e \<in> set (svSchemas s) \<and> Supports r a \<and> a \<in> set (svActions s))
    \<and> (eSchema e \<notin> set (svSchemas s) \<longrightarrow> Ask r a s \<in> {Inl ErrInvalid, Inl ErrUnknownSchema})"
proof -
  have sup: "Supports r a \<longleftrightarrow> a \<in> set (eActions e)"
    by (simp add: Supports_def assms(1))
  have "\<exists>schema bare. SplitAction a = (schema, bare, True) \<and> (schema = [] \<or> schema = eSchema e)"
    if "a \<in> set (eActions e)"
    using assms(2) that by (auto simp: validate_envelope_def validate_actions_iff split: if_splits)
  then show ?thesis
    unfolding sup by (cases "SplitAction a") (auto simp: Ask_def assms(1) sup split: if_splits)
qed

lemma Ask_correct_witness:
  "Ask (sample\<lparr>rEnvelope := Some \<lparr>eSchema = ''v/x@1'', eActions = [''pause'']\<rparr>\<rparr>) ''pause''
     \<lparr>svSchemas = [''v/x@1''], svActions = [''pause'']\<rparr> = Inr ()"
  using Ask_correct [of "sample\<lparr>rEnvelope := Some \<lparr>eSchema = ''v/x@1'', eActions = [''pause'']\<rparr>\<rparr>"
      "\<lparr>eSchema = ''v/x@1'', eActions = [''pause'']\<rparr>" "''pause''" "\<lparr>svSchemas = [''v/x@1''], svActions = [''pause'']\<rparr>"]
  by (simp add: validate_envelope_def ValidSchema_def SplitAction_def IndexByte_def before_byte_def label_def
      version_def bareAction_def lowerAlnum_def between_def byte_def BaseActions_def action_defs Supports_def
      maxSchema_def maxLabel_def maxAction_def BaseSchema_def FeatureBase_def)

end
