(* ===== verification/Ranges.thy ===== *)
theory Ranges
  imports GoText
begin

text \<open>
  The sets of proven byte ranges of go/ranges.go: the canonical form, the operations on a
  set of ranges, and what they mean as sets of byte offsets.

  A \<open>Range\<close> is a half-open interval of int64 offsets, a \<open>Ranges\<close> a list of them.
  \<open>bytes_of\<close> is the set of offsets a list proves; \<open>canonical\<close> is the form the code promises:
  sorted, non-overlapping, non-adjacent, without empty ranges.
\<close>

section \<open>Ranges and their order\<close>

datatype rng = Range (Start: int) (End: int)

text \<open>The order \<open>sort.Slice\<close> is given.\<close>

definition range_less :: "rng \<Rightarrow> rng \<Rightarrow> bool" where
  "range_less a b \<longleftrightarrow> (if Start a \<noteq> Start b then Start a < Start b else End a < End b)"

instantiation rng :: linorder
begin

definition less_eq_rng :: "rng \<Rightarrow> rng \<Rightarrow> bool" where
  "less_eq_rng a b \<longleftrightarrow> (if Start a \<noteq> Start b then Start a < Start b else End a \<le> End b)"

definition less_rng :: "rng \<Rightarrow> rng \<Rightarrow> bool" where
  "less_rng a b \<longleftrightarrow> range_less a b"

instance
  by standard (auto simp: less_eq_rng_def less_rng_def range_less_def rng.expand split: if_splits)

end

lemma le_rng_Start: "a \<le> b \<Longrightarrow> Start a \<le> Start (b :: rng)"
  by (auto simp: less_eq_rng_def split: if_splits)

definition Len :: "rng \<Rightarrow> int" where
  "Len r = wrap64 (End r - Start r)"

definition Empty :: "rng \<Rightarrow> bool" where
  "Empty r \<longleftrightarrow> End r \<le> Start r"

section \<open>The canonical form\<close>

text \<open>The loop that validates the ranges and drops the empty ones.\<close>

fun keep_ranges :: "rng list \<Rightarrow> rng list res" where
  "keep_ranges [] = Inr []"
| "keep_ranges (r # rs) =
     (if Start r < 0 \<or> End r < 0 then Inl ErrInvalid
      else if End r < Start r then Inl ErrInvalid
      else if End r = Start r then keep_ranges rs
      else rbind (keep_ranges rs) (\<lambda>kept. Inr (r # kept)))"

text \<open>The loop that merges: \<open>out\<close> is the output so far, its last range first.\<close>

fun merge_ranges :: "rng list \<Rightarrow> rng list \<Rightarrow> rng list" where
  "merge_ranges out [] = rev out"
| "merge_ranges [] (r # rs) = merge_ranges [r] rs"
| "merge_ranges (p # out) (r # rs) =
     (if Start r \<le> End p
      then (if End r > End p then merge_ranges (Range (Start p) (End r) # out) rs
            else merge_ranges (p # out) rs)
      else merge_ranges (r # p # out) rs)"

definition CanonicalRanges :: "rng list \<Rightarrow> rng list res" where
  "CanonicalRanges ins = rbind (keep_ranges ins) (\<lambda>kept. Inr (merge_ranges [] (sort kept)))"

definition VerifiedPrefix :: "rng list \<Rightarrow> int" where
  "VerifiedPrefix rs = (case rs of r # _ \<Rightarrow> if Start r = 0 then End r else 0 | [] \<Rightarrow> 0)"

definition AddRange :: "rng list \<Rightarrow> int \<Rightarrow> int \<Rightarrow> rng list res" where
  "AddRange rs start end' = CanonicalRanges (rs @ [Range start end'])"

definition UnionRanges :: "rng list \<Rightarrow> rng list \<Rightarrow> rng list res" where
  "UnionRanges rs other = CanonicalRanges (rs @ other)"

definition Covers :: "rng list \<Rightarrow> int \<Rightarrow> int \<Rightarrow> bool" where
  "Covers rs start end' \<longleftrightarrow> end' \<le> start \<or> (\<exists>r \<in> set rs. Start r \<le> start \<and> end' \<le> End r)"

text \<open>The loop of \<open>Missing\<close>: \<open>at\<close> moves over the ranges; the gaps come out in order.\<close>

definition missing_tail :: "int \<Rightarrow> int \<Rightarrow> rng list" where
  "missing_tail at end' = (if at < end' then [Range at end'] else [])"

fun missing_from :: "rng list \<Rightarrow> int \<Rightarrow> int \<Rightarrow> rng list" where
  "missing_from [] at end' = missing_tail at end'"
| "missing_from (r # rs) at end' =
     (if End r \<le> at then missing_from rs at end'
      else if end' \<le> Start r then missing_tail at end'
      else
        let gap = (if at < Start r then [Range at (Start r)] else []);
            at' = (if at < End r then End r else at)
        in gap @ (if end' \<le> at' then missing_tail at' end' else missing_from rs at' end'))"

definition Missing :: "rng list \<Rightarrow> int \<Rightarrow> int \<Rightarrow> rng list" where
  "Missing rs start end' = missing_from rs start end'"

definition Total :: "rng list \<Rightarrow> int" where
  "Total rs = foldl (\<lambda>n r. wrap64 (n + Len r)) 0 rs"

fun EqualRanges :: "rng list \<Rightarrow> rng list \<Rightarrow> bool" where
  "EqualRanges [] [] = True"
| "EqualRanges (r # rs) (s # ss) = (r = s \<and> EqualRanges rs ss)"
| "EqualRanges _ _ = False"

lemma EqualRanges_iff [simp]: "EqualRanges rs ss \<longleftrightarrow> rs = ss"
  by (induction rs ss rule: EqualRanges.induct) auto

section \<open>The bytes a list of ranges proves\<close>

definition bytes_of :: "rng list \<Rightarrow> int set" where
  "bytes_of rs = (\<Union>r \<in> set rs. {Start r ..< End r})"

lemma bytes_of_simps [simp]:
  "bytes_of [] = {}"
  "bytes_of (r # rs) = {Start r ..< End r} \<union> bytes_of rs"
  "bytes_of (rs @ ss) = bytes_of rs \<union> bytes_of ss"
  by (auto simp: bytes_of_def)

lemma bytes_of_rev [simp]: "bytes_of (rev rs) = bytes_of rs"
  by (simp add: bytes_of_def)

lemma bytes_of_sort [simp]: "bytes_of (sort rs) = bytes_of rs"
  by (simp add: bytes_of_def)

lemma finite_bytes_of [simp]: "finite (bytes_of rs)"
  by (simp add: bytes_of_def)

definition good_range :: "rng \<Rightarrow> bool" where
  "good_range r \<longleftrightarrow> 0 \<le> Start r \<and> Start r < End r"

definition canonical :: "rng list \<Rightarrow> bool" where
  "canonical rs \<longleftrightarrow> list_all good_range rs \<and> sorted_wrt (\<lambda>a b. End a < Start b) rs"

lemma canonical_simps [simp]:
  "canonical []"
  "canonical (r # rs) \<longleftrightarrow> good_range r \<and> (\<forall>s \<in> set rs. End r < Start s) \<and> canonical rs"
  by (auto simp: canonical_def)

text \<open>The offsets of a canonical list after its first range start past the end of that range.\<close>

lemma canonical_tail_bytes: "canonical (r # rs) \<Longrightarrow> x \<in> bytes_of rs \<Longrightarrow> End r < x"
  by (force simp: bytes_of_def)

section \<open>The locale of a canonical form\<close>

text \<open>
  What a user of a canonical form relies on: \<open>canon\<close> fails exactly on lists with an
  ill-formed element, and otherwise gives a list of the form \<open>ok\<close> with the same meaning;
  and the form has one list per meaning.
\<close>

locale canonical_form =
  fixes canon :: "'r list \<Rightarrow> 'r list res"
    and elem :: "'r \<Rightarrow> bool"
    and ok :: "'r list \<Rightarrow> bool"
    and sem :: "'r list \<Rightarrow> 'b set"
  assumes canon_err: "\<not> list_all elem rs \<Longrightarrow> canon rs = Inl ErrInvalid"
    and canon_ok: "list_all elem rs \<Longrightarrow> \<exists>c. canon rs = Inr c \<and> ok c \<and> sem c = sem rs"
    and ok_elem: "ok rs \<Longrightarrow> list_all elem rs"
    and ok_unique: "ok rs \<Longrightarrow> ok ss \<Longrightarrow> sem rs = sem ss \<Longrightarrow> rs = ss"
    and sem_append: "sem (rs @ ss) = sem rs \<union> sem ss"
begin

lemma canon_InrD: "canon rs = Inr c \<Longrightarrow> list_all elem rs \<and> ok c \<and> sem c = sem rs"
  by (cases "list_all elem rs") (use canon_err canon_ok in fastforce)+

lemma canon_InlD: "canon rs = Inl e \<Longrightarrow> e = ErrInvalid \<and> \<not> list_all elem rs"
  by (cases "list_all elem rs") (use canon_err canon_ok in fastforce)+

lemma canon_ok_id: "ok rs \<Longrightarrow> canon rs = Inr rs"
  using canon_ok [OF ok_elem] ok_unique by blast

lemma canon_idem: "canon rs = Inr c \<Longrightarrow> canon c = Inr c"
  using canon_InrD canon_ok_id by blast

lemma canon_same:
  "canon rs = Inr c \<Longrightarrow> canon ss = Inr d \<Longrightarrow> (c = d) = (sem rs = sem ss)"
  using canon_InrD ok_unique by metis

lemma canon_eqI:
  assumes "list_all elem rs = list_all elem ss" "sem rs = sem ss"
  shows "canon rs = canon ss"
  using assms canon_err canon_ok ok_unique by (cases "list_all elem ss") metis+

lemma canon_commute: "canon (rs @ ss) = canon (ss @ rs)"
  by (rule canon_eqI) (auto simp: sem_append)

text \<open>Adding to a canonical list is adding to any list with its meaning.\<close>

lemma canon_absorb: "canon rs = Inr c \<Longrightarrow> canon (c @ ss) = canon (rs @ ss)"
  using canon_InrD [of rs c] ok_elem [of c] by (intro canon_eqI) (auto simp: sem_append)

lemma canon_twice: "canon rs = Inr c \<Longrightarrow> canon (c @ rs) = Inr c"
  using canon_absorb [of rs c rs] canon_eqI [of "rs @ rs" rs] by (simp add: sem_append)

lemma canon_assoc:
  "canon (rs @ ss) = Inr c \<Longrightarrow> canon (ss @ ts) = Inr d \<Longrightarrow> canon (c @ ts) = canon (rs @ d)"
  using canon_absorb [of "rs @ ss" c ts] canon_absorb [of "ss @ ts" d rs]
    canon_commute [of d rs] canon_eqI [of "(rs @ ss) @ ts" "(ss @ ts) @ rs"]
  by (auto simp: sem_append)

end

section \<open>The loops meet the contract\<close>

text \<open>The ranges \<open>CanonicalRanges\<close> takes: no negative offset, no end before its start.\<close>

definition range_ok :: "rng \<Rightarrow> bool" where
  "range_ok r \<longleftrightarrow> 0 \<le> Start r \<and> Start r \<le> End r"

lemma keep_ranges_err: "\<not> list_all range_ok rs \<Longrightarrow> keep_ranges rs = Inl ErrInvalid"
  by (induction rs) (auto simp: range_ok_def)

lemma keep_ranges_ok:
  "list_all range_ok rs \<Longrightarrow>
     \<exists>kept. keep_ranges rs = Inr kept \<and> list_all good_range kept \<and> bytes_of kept = bytes_of rs"
  by (induction rs) (auto simp: range_ok_def good_range_def)

lemma merge_ranges_ok:
  assumes "list_all good_range rs" "sorted rs" "canonical (rev out)"
    and "out \<noteq> [] \<Longrightarrow> \<forall>r \<in> set rs. Start (hd out) \<le> Start r"
  shows "canonical (merge_ranges out rs) \<and> bytes_of (merge_ranges out rs) = bytes_of out \<union> bytes_of rs"
  using assms
proof (induction out rs rule: merge_ranges.induct)
  case (1 out)
  then show ?case by simp
next
  case (2 r rs)
  then show ?case by (auto dest: le_rng_Start)
next
  case (3 p out r rs)
  have p: "good_range p" "\<forall>s \<in> set out. End s < Start p" "Start p \<le> Start r" "good_range r"
    and rs: "\<forall>s \<in> set rs. Start r \<le> Start s"
    using 3 by (auto simp: canonical_def sorted_wrt_append dest: le_rng_Start)
  show ?case
  proof (cases "Start r \<le> End p")
    case True
    show ?thesis
    proof (cases "End r > End p")
      case T: True
      have "canonical (rev (Range (Start p) (End r) # out))"
        using "3.prems"(3) p T by (auto simp: canonical_def sorted_wrt_append good_range_def)
      moreover have "{Start p ..< End p} \<union> {Start r ..< End r} = {Start p ..< End r}"
        using p True T by (auto simp: good_range_def)
      ultimately show ?thesis
        using 3 True T p rs by (auto simp: Un_assoc [symmetric])
    next
      case F: False
      have "{Start r ..< End r} \<subseteq> {Start p ..< End p}"
        using p F by auto
      then show ?thesis
        using 3 True F by (auto simp del: atLeastLessThan_subset_iff)
    qed
  next
    case False
    have "canonical (rev (r # p # out))"
      using "3.prems"(3) p False by (auto simp: canonical_def sorted_wrt_append good_range_def)
    then show ?thesis
      using 3 False rs by auto
  qed
qed

lemma canonical_unique:
  "canonical rs \<Longrightarrow> canonical ss \<Longrightarrow> bytes_of rs = bytes_of ss \<Longrightarrow> rs = ss"
proof (induction rs arbitrary: ss)
  case Nil
  then show ?case by (cases ss) (auto simp: good_range_def)
next
  case (Cons r rs)
  obtain s ss' where ss: "ss = s # ss'"
    using Cons.prems by (cases ss) (auto simp: good_range_def)
  have r: "good_range r" "good_range s"
    using Cons.prems ss by auto
  have tail: "\<forall>x \<in> bytes_of rs. End r < x" "\<forall>x \<in> bytes_of ss'. End s < x"
    using Cons.prems canonical_tail_bytes ss by blast+
  have eq: "x \<in> {Start r ..< End r} \<union> bytes_of rs \<longleftrightarrow> x \<in> {Start s ..< End s} \<union> bytes_of ss'" for x
    using Cons.prems(3) ss by simp
  have "Start r = Start s"
    using eq [of "Start r"] eq [of "Start s"] r tail unfolding good_range_def by force
  moreover have "End r = End s"
    using eq [of "End r"] eq [of "End s"] r tail \<open>Start r = Start s\<close> unfolding good_range_def by force
  ultimately have rs: "r = s"
    by (simp add: rng.expand)
  have "bytes_of rs = bytes_of ss'"
  proof (rule set_eqI)
    fix x
    show "x \<in> bytes_of rs \<longleftrightarrow> x \<in> bytes_of ss'"
      using eq [of x] tail rs by (cases "End r < x") auto
  qed
  with Cons rs ss show ?case by simp
qed

interpretation ranges: canonical_form CanonicalRanges range_ok canonical bytes_of
proof
  fix rs
  show "CanonicalRanges rs = Inl ErrInvalid" if "\<not> list_all range_ok rs"
    using that by (simp add: CanonicalRanges_def keep_ranges_err)
  show "\<exists>c. CanonicalRanges rs = Inr c \<and> canonical c \<and> bytes_of c = bytes_of rs" if "list_all range_ok rs"
  proof -
    obtain kept where kept: "keep_ranges rs = Inr kept" "list_all good_range kept" "bytes_of kept = bytes_of rs"
      using keep_ranges_ok [OF \<open>list_all range_ok rs\<close>] by blast
    then show ?thesis
      using merge_ranges_ok [of "sort kept" "[]"] by (simp add: CanonicalRanges_def list_all_iff)
  qed
  show "list_all range_ok rs" if "canonical rs"
    using that by (auto simp: canonical_def list_all_iff good_range_def range_ok_def)
qed (auto intro: canonical_unique)

lemmas canonical_out = ranges.canon_InrD [THEN conjunct2, THEN conjunct1]
lemmas canonical_bytes = ranges.canon_InrD [THEN conjunct2, THEN conjunct2]

text \<open>C22: \<open>CanonicalRanges\<close> refuses exactly the inputs with a negative offset or a range that ends
  before it starts; on any other input it returns a canonical set that proves the same bytes, and
  leaves that set alone.\<close>

theorem CanonicalRanges_correct:
  "if list_all range_ok ins
   then (\<exists>rs. CanonicalRanges ins = Inr rs \<and> canonical rs \<and> bytes_of rs = bytes_of ins
          \<and> CanonicalRanges rs = Inr rs)
   else CanonicalRanges ins = Inl ErrInvalid"
  using ranges.canon_err [of ins] ranges.canon_ok [of ins] ranges.canon_ok_id by auto

text \<open>One spelling per state: two lists of ranges canonicalise to the same list exactly when they
  prove the same bytes.\<close>

theorem CanonicalRanges_one_spelling:
  assumes "CanonicalRanges a = Inr ca" "CanonicalRanges b = Inr cb"
  shows "EqualRanges ca cb \<longleftrightarrow> bytes_of a = bytes_of b"
  using ranges.canon_same [OF assms] by simp

lemma CanonicalRanges_one_spelling_witness:
  "bytes_of [Range 0 4, Range 4 8] = bytes_of [Range 2 8, Range 0 3]"
  using CanonicalRanges_one_spelling [of "[Range 0 4, Range 4 8]" "[Range 0 8]"
      "[Range 2 8, Range 0 3]" "[Range 0 8]"]
  by (simp add: CanonicalRanges_def less_eq_rng_def)

section \<open>Queries on a canonical set\<close>

lemma Covers_bytes:
  "canonical rs \<Longrightarrow> Covers rs s e \<longleftrightarrow> {s ..< e} \<subseteq> bytes_of rs"
proof (induction rs)
  case Nil
  then show ?case by (auto simp: Covers_def)
next
  case (Cons r rs)
  have tail: "\<forall>x \<in> bytes_of rs. End r < x"
    using Cons.prems canonical_tail_bytes by blast
  show ?case
  proof
    assume "Covers (r # rs) s e"
    then show "{s ..< e} \<subseteq> bytes_of (r # rs)"
      by (fastforce simp: Covers_def bytes_of_def)
  next
    assume sub: "{s ..< e} \<subseteq> bytes_of (r # rs)"
    show "Covers (r # rs) s e"
    proof (cases "e \<le> s")
      case False
      consider "s \<in> {Start r ..< End r}" | "s \<in> bytes_of rs"
        using sub False by fastforce
      then show ?thesis
      proof cases
        case 1
        have "\<not> End r < e"
        proof
          assume "End r < e"
          then have "End r \<in> {s ..< e}"
            using 1 by auto
          then have "End r \<in> bytes_of (r # rs)"
            using sub by blast
          with tail show False by auto
        qed
        with 1 show ?thesis by (auto simp: Covers_def)
      next
        case 2
        then have "End r < s" using tail by blast
        then have "{s ..< e} \<subseteq> bytes_of rs"
          using sub by auto
        then have "Covers rs s e" using Cons by simp
        then show ?thesis by (auto simp: Covers_def)
      qed
    qed (simp add: Covers_def)
  qed
qed

lemma missing_from_ok:
  "canonical rs \<Longrightarrow> 0 \<le> at \<Longrightarrow>
     canonical (missing_from rs at e) \<and> bytes_of (missing_from rs at e) = {at ..< e} - bytes_of rs
     \<and> (\<forall>g \<in> set (missing_from rs at e). at \<le> Start g)"
proof (induction rs arbitrary: at)
  case Nil
  then show ?case by (auto simp: missing_tail_def good_range_def)
next
  case (Cons r rs)
  have r: "good_range r" "canonical rs" "\<forall>s \<in> set rs. End r < Start s"
    and tail: "\<forall>x \<in> bytes_of rs. End r < x"
    using Cons.prems canonical_tail_bytes by auto
  note IH = Cons.IH [OF r(2)]
  consider "End r \<le> at" | "at < End r" "e \<le> Start r" | "at < End r" "Start r < e"
    by linarith
  then show ?case
  proof cases
    case 1
    then show ?thesis using IH [of at] Cons.prems r by auto
  next
    case 2
    have "{at ..< e} - bytes_of (r # rs) = {at ..< e}"
      using 2 tail r by (force simp: good_range_def)
    with 2 Cons.prems show ?thesis
      by (auto simp: missing_tail_def good_range_def)
  next
    case 3
    define rest where "rest = (if e \<le> End r then [] else missing_from rs (End r) e)"
    have unfold: "missing_from (r # rs) at e = (if at < Start r then [Range at (Start r)] else []) @ rest"
      using 3 by (simp add: rest_def missing_tail_def Let_def)
    have e0: "0 \<le> End r" using r by (simp add: good_range_def)
    have rest: "canonical rest \<and> bytes_of rest = {End r ..< e} - bytes_of rs \<and> (\<forall>g \<in> set rest. End r \<le> Start g)"
      using IH [OF e0] tail by (auto simp: rest_def)
    have "{at ..< e} - bytes_of (r # rs) = {at ..< Start r} \<union> ({End r ..< e} - bytes_of rs)"
      using 3 tail r by (force simp: good_range_def)
    then show ?thesis
      unfolding unfold using rest 3 r Cons.prems by (auto simp: good_range_def)
  qed
qed

lemma Total_aux:
  "canonical rs \<Longrightarrow> \<forall>r \<in> set rs. End r \<le> m \<Longrightarrow> 0 \<le> n \<Longrightarrow> n + int (card (bytes_of rs)) \<le> max_int64
     \<Longrightarrow> foldl (\<lambda>n r. wrap64 (n + Len r)) n rs = n + int (card (bytes_of rs))"
proof (induction rs arbitrary: n)
  case (Cons r rs)
  have disj: "{Start r ..< End r} \<inter> bytes_of rs = {}"
    using canonical_tail_bytes [OF Cons.prems(1)] by fastforce
  have r: "Start r < End r" "0 \<le> Start r" using Cons.prems by (auto simp: good_range_def)
  have card: "int (card (bytes_of (r # rs))) = (End r - Start r) + int (card (bytes_of rs))"
    using disj r by (simp add: card_Un_disjoint)
  then have "Len r = End r - Start r"
    using Cons.prems r unfolding Len_def by (intro wrap64_id) (auto simp: int64_def)
  moreover have "wrap64 (n + (End r - Start r)) = n + (End r - Start r)"
    using Cons.prems card r by (intro wrap64_id) (auto simp: int64_def)
  moreover have "foldl (\<lambda>n r. wrap64 (n + Len r)) (n + (End r - Start r)) rs
      = n + (End r - Start r) + int (card (bytes_of rs))"
    using Cons.prems card r by (intro Cons.IH) auto
  ultimately show ?case
    using card by simp
qed simp

lemma bytes_of_card_le:
  assumes "canonical rs" "\<forall>r \<in> set rs. End r \<le> m"
  shows "int (card (bytes_of rs)) \<le> max m 0"
proof -
  have "bytes_of rs \<subseteq> {0 ..< m}"
    using assms by (fastforce simp: bytes_of_def canonical_def list_all_iff good_range_def)
  then have "card (bytes_of rs) \<le> card {0 ..< m}"
    by (intro card_mono) auto
  then show ?thesis by simp
qed

text \<open>On a canonical set of int64 offsets, \<open>Covers\<close> answers whether every byte of the interval is
  proven, and \<open>Missing\<close> returns the canonical set of exactly the bytes that are not.\<close>

theorem Covers_Missing_correct:
  assumes "canonical rs" "0 \<le> s"
  shows "(Covers rs s e \<longleftrightarrow> {s ..< e} \<subseteq> bytes_of rs)
    \<and> canonical (Missing rs s e) \<and> bytes_of (Missing rs s e) = {s ..< e} - bytes_of rs
    \<and> (Covers rs s e \<longleftrightarrow> Missing rs s e = [])"
proof -
  have C: "Covers rs s e \<longleftrightarrow> {s ..< e} \<subseteq> bytes_of rs"
    using assms by (simp add: Covers_bytes)
  have M: "canonical (Missing rs s e) \<and> bytes_of (Missing rs s e) = {s ..< e} - bytes_of rs"
    using assms missing_from_ok [of rs s e] by (simp add: Missing_def)
  then have "Missing rs s e = [] \<longleftrightarrow> {s ..< e} - bytes_of rs = {}"
    using canonical_unique [of "Missing rs s e" "[]"] by auto
  with C M show ?thesis by blast
qed

lemma Covers_Missing_correct_witness:
  "bytes_of [Range 4 6, Range 9 10] = {2 ..< 10} - bytes_of [Range 0 4, Range 6 9]"
  using Covers_Missing_correct [of "[Range 0 4, Range 6 9]" 2 10]
  by (simp add: good_range_def Missing_def missing_tail_def)

text \<open>\<open>Total\<close> counts the proven bytes of a canonical set whose offsets fit an int64 (no addition
  wraps), and \<open>VerifiedPrefix\<close> is the length of the longest proven prefix.\<close>

theorem Total_VerifiedPrefix_correct:
  assumes "canonical rs" "\<forall>r \<in> set rs. End r \<le> max_int64"
  shows "Total rs = int (card (bytes_of rs)) \<and> {0 ..< VerifiedPrefix rs} \<subseteq> bytes_of rs
    \<and> VerifiedPrefix rs \<notin> bytes_of rs \<and> 0 \<le> VerifiedPrefix rs"
proof -
  have "Total rs = int (card (bytes_of rs))"
    using Total_aux [OF assms, of 0] bytes_of_card_le [OF assms] by (simp add: Total_def)
  moreover have "{0 ..< VerifiedPrefix rs} \<subseteq> bytes_of rs \<and> VerifiedPrefix rs \<notin> bytes_of rs
      \<and> 0 \<le> VerifiedPrefix rs"
    using assms(1) canonical_tail_bytes
    by (cases rs) (force simp: VerifiedPrefix_def good_range_def)+
  ultimately show ?thesis by simp
qed

lemma Total_VerifiedPrefix_correct_witness:
  "5 \<notin> bytes_of [Range 0 5, Range 7 9] \<and> int (card (bytes_of [Range 0 5, Range 7 9])) = 7"
  using Total_VerifiedPrefix_correct [of "[Range 0 5, Range 7 9]"]
  by (simp add: good_range_def VerifiedPrefix_def Total_def Len_def wrap64_def)

text \<open>Folding parts in commutes: whatever the order in which parts land, \<open>Add\<close> and \<open>Union\<close>
  reach the same set, and a part folded in twice changes nothing.\<close>

theorem Add_Union_confluent:
  assumes "canonical rs" "AddRange rs s e = Inr x" "AddRange rs s' e' = Inr y"
  shows "AddRange x s' e' = AddRange y s e \<and> AddRange x s e = Inr x
    \<and> UnionRanges rs ss = UnionRanges ss rs \<and> bytes_of x = bytes_of rs \<union> {s ..< e}"
proof (intro conjI)
  have xy: "CanonicalRanges (x @ [Range s' e']) = CanonicalRanges (rs @ [Range s e] @ [Range s' e'])"
    "CanonicalRanges (y @ [Range s e]) = CanonicalRanges (rs @ [Range s' e'] @ [Range s e])"
    using assms ranges.canon_absorb by (auto simp: AddRange_def)
  then show "AddRange x s' e' = AddRange y s e"
    unfolding AddRange_def xy by (intro ranges.canon_eqI) auto
  have "CanonicalRanges (x @ [Range s e]) = CanonicalRanges (rs @ [Range s e] @ [Range s e])"
    using assms ranges.canon_absorb by (auto simp: AddRange_def)
  also have "\<dots> = Inr x"
    using assms(2) ranges.canon_eqI [of "rs @ [Range s e] @ [Range s e]" "rs @ [Range s e]"]
    by (auto simp: AddRange_def)
  finally show "AddRange x s e = Inr x" by (simp add: AddRange_def)
  show "UnionRanges rs ss = UnionRanges ss rs"
    unfolding UnionRanges_def by (rule ranges.canon_commute)
  show "bytes_of x = bytes_of rs \<union> {s ..< e}"
    using assms(2) canonical_bytes by (fastforce simp: AddRange_def)
qed

lemma Add_Union_confluent_witness: "AddRange [Range 0 4] 6 9 = AddRange [Range 0 2, Range 6 9] 2 4"
  using Add_Union_confluent [of "[Range 0 2]" 2 4 "[Range 0 4]" 6 9 "[Range 0 2, Range 6 9]"]
  by (simp add: AddRange_def CanonicalRanges_def less_eq_rng_def good_range_def)

end
