(* ===== verification/Checkpoint.thy ===== *)
theory Checkpoint
  imports JobRecord Ranges
begin

text \<open>
  Ranges inside a checkpoint (go/ranges.go, second half): reading a set of proven ranges out
  of the opaque checkpoint of a record, writing one into it, the rewriting every encode
  applies (\<open>canonicalCheckpoint\<close>, \<open>canonicalise\<close> of record.go), and the four operations on a
  record.

  A \<open>map[string]json.RawMessage\<close> is a \<open>json gomap\<close>: the code only ever copies such a value
  through \<open>json.Compact\<close>, which prints its tree.  Decoding into a struct matches member names
  without regard to ASCII case, as \<open>encoding/json\<close> does; decoding into a map does not.  A second
  member that matches the same field is decoded onto what the first left there (not modelled:
  the spare capacity a third such member could expose).
\<close>

section \<open>Reading\<close>

definition keyVerifiedPrefix :: string where "keyVerifiedPrefix = ''verified_prefix''"
definition keyVerified :: string where "keyVerified = ''verified''"

definition upper :: "char \<Rightarrow> char" where
  "upper c = (if between 97 c 122 then char_of (byte c - 32) else c)"

definition field_match :: "string \<Rightarrow> string \<Rightarrow> bool" where
  "field_match name field \<longleftrightarrow> map upper name = map upper field"

text \<open>\<open>json.Unmarshal\<close> of a value into an \<open>int64\<close> and into a slice that held \<open>prev\<close>.\<close>

definition decode_int :: "int \<Rightarrow> json \<Rightarrow> int res" where
  "decode_int prev v = (case v of
     JNull \<Rightarrow> Inr prev
   | JNum l \<Rightarrow> (case ParseInt l of None \<Rightarrow> Inl ErrInvalid | Some n \<Rightarrow> Inr n)
   | _ \<Rightarrow> Inl ErrInvalid)"

fun decode_elems :: "('a \<Rightarrow> json \<Rightarrow> 'a res) \<Rightarrow> 'a \<Rightarrow> 'a list \<Rightarrow> json list \<Rightarrow> 'a list res" where
  "decode_elems dec zero prev [] = Inr []"
| "decode_elems dec zero prev (v # vs) =
     rbind (dec (case prev of [] \<Rightarrow> zero | p # _ \<Rightarrow> p) v) (\<lambda>x.
     rbind (decode_elems dec zero (tl prev) vs) (\<lambda>xs. Inr (x # xs)))"

definition decode_slice :: "('a \<Rightarrow> json \<Rightarrow> 'a res) \<Rightarrow> 'a \<Rightarrow> 'a list \<Rightarrow> json \<Rightarrow> 'a list res" where
  "decode_slice dec zero prev v = (case v of
     JNull \<Rightarrow> Inr []
   | JArr vs \<Rightarrow> decode_elems dec zero prev vs
   | _ \<Rightarrow> Inl ErrInvalid)"

text \<open>The anonymous struct of \<open>RangesFromCheckpoint\<close>: two pointers, nil when absent or null.\<close>

record range_fields =
  cpPrefix :: "int option"
  cpVerified :: "int list list option"

definition decode_member :: "range_fields \<Rightarrow> string \<times> json \<Rightarrow> range_fields res" where
  "decode_member cp = (\<lambda>(k, v).
     if field_match (unquote k) keyVerifiedPrefix then
       (if v = JNull then Inr (cp\<lparr>cpPrefix := None\<rparr>)
        else rbind (decode_int (case cpPrefix cp of None \<Rightarrow> 0 | Some n \<Rightarrow> n) v)
               (\<lambda>n. Inr (cp\<lparr>cpPrefix := Some n\<rparr>)))
     else if field_match (unquote k) keyVerified then
       (if v = JNull then Inr (cp\<lparr>cpVerified := None\<rparr>)
        else rbind (decode_slice (decode_slice decode_int 0) [] (case cpVerified cp of None \<Rightarrow> [] | Some vs \<Rightarrow> vs) v)
               (\<lambda>vs. Inr (cp\<lparr>cpVerified := Some vs\<rparr>)))
     else Inr cp)"

fun decode_fields :: "range_fields \<Rightarrow> (string \<times> json) list \<Rightarrow> range_fields res" where
  "decode_fields cp [] = Inr cp"
| "decode_fields cp (m # ms) = rbind (decode_member cp m) (\<lambda>cp'. decode_fields cp' ms)"

fun pairs_of :: "int list list \<Rightarrow> rng list res" where
  "pairs_of [] = Inr []"
| "pairs_of (pair # ps) =
     (case pair of
        [s, e] \<Rightarrow> rbind (pairs_of ps) (\<lambda>rs. Inr (Range s e # rs))
      | _ \<Rightarrow> Inl ErrInvalid)"

definition ranges_of_fields :: "range_fields \<Rightarrow> rng list res" where
  "ranges_of_fields cp =
     rbind (case cpVerified cp of None \<Rightarrow> Inr [] | Some ps \<Rightarrow> pairs_of ps) (\<lambda>ins.
     CanonicalRanges (case cpPrefix cp of
        Some p \<Rightarrow> if p > 0 then ins @ [Range 0 p] else ins
      | None \<Rightarrow> ins))"

definition no_fields :: range_fields where
  "no_fields = \<lparr>cpPrefix = None, cpVerified = None\<rparr>"

definition absent :: "string \<Rightarrow> bool" where
  "absent raw \<longleftrightarrow> raw = [] \<or> TrimSpace raw = ''null''"

definition RangesFromCheckpoint :: "string \<Rightarrow> rng list res" where
  "RangesFromCheckpoint raw =
     (if absent raw then Inr []
      else case parse_json raw of
        Some JNull \<Rightarrow> ranges_of_fields no_fields
      | Some (JObj ms) \<Rightarrow> rbind (decode_fields no_fields ms) ranges_of_fields
      | _ \<Rightarrow> Inl ErrInvalid)"

section \<open>Writing\<close>

text \<open>\<open>json.Unmarshal\<close> into a \<open>map[string]json.RawMessage\<close>: the last of a repeated name stays.\<close>

definition put_members :: "(string \<times> json) list \<Rightarrow> json gomap" where
  "put_members ms = foldl (\<lambda>m (k, v). gomap_put (unquote k) v m) [] ms"

definition unmarshal_map :: "string \<Rightarrow> json gomap res" where
  "unmarshal_map raw = (case parse_json raw of
     Some JNull \<Rightarrow> Inr []
   | Some (JObj ms) \<Rightarrow> Inr (put_members ms)
   | _ \<Rightarrow> Inl ErrInvalid)"

definition others_of :: "string \<Rightarrow> json gomap res" where
  "others_of raw = (if \<not> absent raw then unmarshal_map raw else Inr [])"

definition member_of :: "json gomap \<Rightarrow> string \<Rightarrow> string" where
  "member_of m name = quote True name @ '':'' @ print_json (the (map_of m name))"

definition range_text :: "rng \<Rightarrow> string" where
  "range_text r = ''['' @ FormatInt (Start r) @ '','' @ FormatInt (End r) @ '']''"

definition CheckpointWithRanges :: "string \<Rightarrow> rng list \<Rightarrow> string res" where
  "CheckpointWithRanges raw rs =
     rbind (CanonicalRanges rs) (\<lambda>canon.
     rbind (others_of raw) (\<lambda>others.
     let others = gomap_delete keyVerified (gomap_delete keyVerifiedPrefix others);
         names = gomap_keys others
     in Inr ([CHR ''{'', CHR 0x22] @ keyVerifiedPrefix @ [CHR 0x22, CHR '':'']
          @ FormatInt (VerifiedPrefix canon)
          @ [CHR '','', CHR 0x22] @ keyVerified @ [CHR 0x22, CHR '':'', CHR ''['']
          @ join '','' (map range_text canon) @ '']''
          @ concat (map (\<lambda>name. '','' @ member_of others name) names) @ ''}'')))"

text \<open>The second component tells whether the checkpoint carries ranges, and was rewritten.\<close>

definition canonicalCheckpoint :: "string \<Rightarrow> (string \<times> bool) res" where
  "canonicalCheckpoint raw =
     (case (if raw = [] then Inl ErrInvalid else unmarshal_map raw) of
        Inl _ \<Rightarrow> Inr (raw, False)
      | Inr probe \<Rightarrow>
          if map_of probe keyVerified = None then Inr (raw, False)
          else rbind (RangesFromCheckpoint raw) (\<lambda>rs.
               rbind (CheckpointWithRanges raw rs) (\<lambda>out. Inr (out, True))))"

section \<open>The operations on a record\<close>

definition declare_ranges :: "string list \<Rightarrow> string list" where
  "declare_ranges content = (if \<not> contains content FeatureRanges then content @ [FeatureRanges] else content)"

definition CheckpointRanges :: "Record \<Rightarrow> rng list res" where
  "CheckpointRanges r = RangesFromCheckpoint (rCheckpoint r)"

definition SetCheckpointRanges :: "rng list \<Rightarrow> Record \<Rightarrow> Record res" where
  "SetCheckpointRanges rs r =
     rbind (CheckpointWithRanges (rCheckpoint r) rs) (\<lambda>raw.
     Inr (r\<lparr>rCheckpoint := raw, rContent := declare_ranges (rContent r)\<rparr>))"

definition AddCheckpointRange :: "int \<Rightarrow> int \<Rightarrow> Record \<Rightarrow> Record res" where
  "AddCheckpointRange start end' r =
     rbind (CheckpointRanges r) (\<lambda>have.
     rbind (AddRange have start end') (\<lambda>next. SetCheckpointRanges next r))"

definition ClearCheckpointRanges :: "Record \<Rightarrow> Record res" where
  "ClearCheckpointRanges r =
     rbind (others_of (rCheckpoint r)) (\<lambda>others.
     let others = gomap_delete keyVerified others;
         cp = (if others = [] then []
               else ''{'' @ join '','' (map (member_of others) (gomap_keys others)) @ ''}'')
     in Inr (r\<lparr>rCheckpoint := cp, rContent := filter (\<lambda>n. n \<noteq> FeatureRanges) (rContent r)\<rparr>))"

definition canonicalise :: "Record \<Rightarrow> Record res" where
  "canonicalise r =
     rbind (canonicalCheckpoint (rCheckpoint r)) (\<lambda>(canonical, declares).
     let r = r\<lparr>rCheckpoint := canonical\<rparr>;
         r = (if declares then r\<lparr>rContent := declare_ranges (rContent r)\<rparr> else r)
     in Inr (describe r))"

section \<open>The written text is the printed form of a tree\<close>

lemma nat_digits_head: "0 < n \<Longrightarrow> \<exists>c t. nat_digits n = c # t \<and> c \<noteq> CHR ''0'' \<and> is_digit c"
proof (induction n rule: nat_digits.induct)
  case (1 n)
  show ?case
  proof (cases "n < 10")
    case True
    have "digit n \<noteq> CHR ''0''"
    proof
      assume "digit n = CHR ''0''"
      then have "byte (digit n) = byte (CHR ''0'')" by simp
      with True "1.prems" show False by (simp add: byte_digit) (simp add: byte_def)
    qed
    with True show ?thesis by (simp add: nat_digits.simps [of n] is_digit_digit)
  next
    case False
    then have "0 < n div 10" by simp
    with 1 False obtain c t where "nat_digits (n div 10) = c # t" "c \<noteq> CHR ''0''" "is_digit c"
      by blast
    with False show ?thesis by (simp add: nat_digits.simps [of n])
  qed
qed

lemma takeWhile_digits: "list_all is_digit s \<Longrightarrow> scan_digits s = (s, [])"
  by (simp add: scan_digits_def list_all_iff)

lemma scan_int_nat_digits: "scan_int (nat_digits n) = Some (nat_digits n, [])"
proof (cases "n = 0")
  case True
  have "digit 0 = CHR ''0''" unfolding digit_def by (rule char_of_eqI) (simp add: byte_def)
  with True show ?thesis by (simp add: nat_digits.simps [of 0] scan_int_def)
next
  case False
  then obtain c t where "nat_digits n = c # t" "c \<noteq> CHR ''0''" "is_digit c"
    using nat_digits_head [of n] by auto
  then show ?thesis
    using takeWhile_digits [OF nat_digits_digits [of n]] by (simp add: scan_int_def)
qed

lemma num_lexeme_FormatInt: "num_lexeme (FormatInt n)"
proof -
  obtain c t where c: "nat_digits (nat n) = c # t" by (cases "nat_digits (nat n)") auto
  then have "c \<noteq> CHR ''-''" using nat_digits_not_sign by blast
  then show ?thesis
    using scan_int_nat_digits [of "nat n"] scan_int_nat_digits [of "nat (- n)"] c
    by (auto simp: num_lexeme_def scan_num_def FormatInt_def scan_frac_def scan_exp_def)
qed

lemma join_concat: "join sep (x # xs) = x @ concat (map (\<lambda>y. sep @ y) xs)"
  by (induction xs arbitrary: x) auto

definition range_json :: "rng \<Rightarrow> json" where
  "range_json r = JArr [JNum (FormatInt (Start r)), JNum (FormatInt (End r))]"

lemma print_range_json [simp]: "print_json (range_json r) = range_text r"
  by (simp add: range_json_def range_text_def)

definition checkpoint_members :: "rng list \<Rightarrow> json gomap \<Rightarrow> (string \<times> json) list" where
  "checkpoint_members canon others =
     (keyVerifiedPrefix, JNum (FormatInt (VerifiedPrefix canon)))
     # (keyVerified, JArr (map range_json canon))
     # map (\<lambda>name. (quote_body True name, the (map_of others name))) (gomap_keys others)"

definition foreign :: "json gomap \<Rightarrow> json gomap" where
  "foreign others = gomap_delete keyVerified (gomap_delete keyVerifiedPrefix others)"

lemma CheckpointWithRanges_tree:
  "CheckpointWithRanges raw rs =
     rbind (CanonicalRanges rs) (\<lambda>canon. rbind (others_of raw) (\<lambda>others.
       Inr (print_json (JObj (checkpoint_members canon (foreign others))))))"
proof -
  have eq: "map print_json (map range_json canon) = map range_text canon" for canon
    by simp
  show ?thesis
    unfolding CheckpointWithRanges_def foreign_def checkpoint_members_def Let_def
    by (simp add: join_concat eq member_of_def quote_def comp_def case_prod_beta')
qed


section \<open>What reading the written text gives\<close>

lemma unquote_ascii_name:
  "list_all (\<lambda>c. c \<noteq> CHR 0x5C \<and> byte c < 0x80) s \<Longrightarrow> unquote s = s"
  by (induction s) (simp_all add: unquote_plain)

lemma unquote_keys [simp]: "unquote keyVerifiedPrefix = keyVerifiedPrefix" "unquote keyVerified = keyVerified"
  by (rule unquote_ascii_name, simp add: keyVerifiedPrefix_def keyVerified_def byte_def)+

lemma str_lexeme_keys: "str_lexeme keyVerifiedPrefix" "str_lexeme keyVerified"
  unfolding str_lexeme_def keyVerifiedPrefix_def keyVerified_def by code_simp+

lemma field_match_keys [simp]:
  "field_match keyVerifiedPrefix keyVerifiedPrefix" "field_match keyVerified keyVerified"
  "\<not> field_match keyVerified keyVerifiedPrefix" "\<not> field_match keyVerifiedPrefix keyVerified"
  by (simp_all add: field_match_def keyVerifiedPrefix_def keyVerified_def)

definition put_all :: "json gomap \<Rightarrow> (string \<times> json) list \<Rightarrow> json gomap" where
  "put_all m ms = foldl (\<lambda>m (k, v). gomap_put (unquote k) v m) m ms"

lemma put_all_props:
  assumes "gomap_wf m" "list_all ValidString (map fst m)"
    and "\<forall>v \<in> snd ` set m. P v" "\<forall>v \<in> snd ` set ms. P v"
  shows "gomap_wf (put_all m ms) \<and> list_all ValidString (map fst (put_all m ms)) \<and> (\<forall>v \<in> snd ` set (put_all m ms). P v)"
  using assms
proof (induction ms arbitrary: m)
  case (Cons p ms)
  obtain k v where p: "p = (k, v)" by (cases p)
  have "x = w \<or> (a, x) \<in> set n" if "(a, x) \<in> set (gomap_put k' w n)" for a x k' w and n :: "json gomap"
    using that by (induction n) (auto split: if_splits)
  then have vals: "\<forall>v \<in> snd ` set (gomap_put (unquote k) v m). P v"
    using Cons.prems p by fastforce
  have names: "list_all ValidString (map fst (gomap_put (unquote k) v m))"
    using Cons.prems(2) fst_gomap_put [of "unquote k" v m] ValidString_unquote
    by (auto simp: list_all_iff)
  have wf: "gomap_wf (gomap_put (unquote k) v m)"
    using Cons.prems(1) by (rule gomap_wf_put)
  have rest: "\<forall>v \<in> snd ` set ms. P v"
    using Cons.prems(4) by simp
  have "put_all m (p # ms) = put_all (gomap_put (unquote k) v m) ms"
    by (simp add: put_all_def p)
  with Cons.IH [OF wf names vals rest] show ?case by metis
qed (simp add: put_all_def)

lemma put_all_append: "k \<notin> fst ` set m \<Longrightarrow> gomap_put k v m = m @ [(k, v)]"
  by (induction m) auto

lemma put_all_distinct:
  "distinct (map fst m @ map (unquote \<circ> fst) ms) \<Longrightarrow> put_all m ms = m @ map (\<lambda>(k, v). (unquote k, v)) ms"
proof (induction ms arbitrary: m)
  case (Cons p ms)
  obtain k v where p: "p = (k, v)" by (cases p)
  have "unquote k \<notin> fst ` set m" using Cons.prems p by auto
  then have "gomap_put (unquote k) v m = m @ [(unquote k, v)]" by (rule put_all_append)
  with Cons.IH [of "m @ [(unquote k, v)]"] Cons.prems p show ?case
    by (simp add: put_all_def)
qed (simp add: put_all_def)

definition good_map :: "json gomap \<Rightarrow> bool" where
  "good_map m \<longleftrightarrow> gomap_wf m \<and> list_all ValidString (map fst m)
     \<and> (\<forall>v \<in> snd ` set m. wf_json v \<and> Suc (depth v) \<le> max_nesting)"

lemma unmarshal_map_good: "unmarshal_map raw = Inr m \<Longrightarrow> good_map m"
proof -
  assume m: "unmarshal_map raw = Inr m"
  then consider "m = []" | ms where "parse_json raw = Some (JObj ms)" "m = put_members ms"
    by (auto simp: unmarshal_map_def split: option.splits json.splits)
  then show ?thesis
  proof cases
    case 1
    then show ?thesis by (simp add: good_map_def gomap_wf_def)
  next
    case 2
    have "\<forall>v \<in> snd ` set ms. wf_json v \<and> Suc (depth v) \<le> max_nesting"
    proof
      fix v assume "v \<in> snd ` set ms"
      then obtain k where kv: "(k, v) \<in> set ms" by auto
      have wf: "wf_json (JObj ms)" "depth (JObj ms) \<le> max_nesting"
        using parse_json_wf [OF 2(1)] by simp_all
      then have "Suc (depth v) \<le> max_nesting"
        using kv foldr_max_le [of "map (\<lambda>(k, v). depth v) ms" "max_nesting - 1"] by (auto simp: max_nesting_def)
      with wf kv show "wf_json v \<and> Suc (depth v) \<le> max_nesting"
        by (auto simp: list_all_iff)
    qed
    moreover have "m = put_all [] ms"
      using 2 by (simp add: put_members_def put_all_def)
    ultimately show ?thesis
      unfolding good_map_def by (simp only:, intro put_all_props) (simp_all add: gomap_wf_def)
  qed
qed

lemma others_of_good: "others_of raw = Inr m \<Longrightarrow> good_map m"
  using unmarshal_map_good [of raw m]
  by (cases "absent raw") (auto simp: others_of_def good_map_def gomap_wf_def)

lemma good_map_delete: "good_map m \<Longrightarrow> good_map (gomap_delete k m)"
  by (auto simp: good_map_def gomap_wf_delete list_all_iff) (auto simp: gomap_delete_def)

lemma good_map_foreign: "good_map m \<Longrightarrow> good_map (foreign m)"
  by (simp add: foreign_def good_map_delete)

lemma foreign_keys: "keyVerified \<notin> fst ` set (foreign m)" "keyVerifiedPrefix \<notin> fst ` set (foreign m)"
  by (auto simp: foreign_def gomap_delete_def)

lemma good_map_lookup:
  assumes "good_map m" "k \<in> fst ` set m"
  shows "ValidString k \<and> wf_json (the (map_of m k)) \<and> Suc (depth (the (map_of m k))) \<le> max_nesting"
proof -
  obtain v where "map_of m k = Some v" using assms(2) map_of_eq_None_iff [of m k] by fastforce
  then have "(k, v) \<in> set m" "the (map_of m k) = v" by (auto dest: map_of_SomeD)
  with assms(1) show ?thesis by (force simp: good_map_def list_all_iff)
qed

text \<open>The members of a map as the code writes them, in the order of their names.\<close>

definition map_members :: "json gomap \<Rightarrow> (string \<times> json) list" where
  "map_members m = map (\<lambda>name. (quote_body True name, the (map_of m name))) (gomap_keys m)"

lemma map_members_good:
  assumes "good_map m"
  shows "list_all (\<lambda>(k, v). str_lexeme k \<and> wf_json v \<and> Suc (depth v) \<le> max_nesting) (map_members m)"
    and "map (\<lambda>(k, v). (unquote k, v)) (map_members m) = map (\<lambda>k. (k, the (map_of m k))) (gomap_keys m)"
    and "map (unquote \<circ> fst) (map_members m) = gomap_keys m"
proof -
  have "unquote (quote_body True k) = k" if "k \<in> set (gomap_keys m)" for k
    using that good_map_lookup [OF assms, of k] by (simp add: unquote_quote_body)
  then show "map (\<lambda>(k, v). (unquote k, v)) (map_members m) = map (\<lambda>k. (k, the (map_of m k))) (gomap_keys m)"
    "map (unquote \<circ> fst) (map_members m) = gomap_keys m"
    by (auto simp: map_members_def intro!: map_idI)
  show "list_all (\<lambda>(k, v). str_lexeme k \<and> wf_json v \<and> Suc (depth v) \<le> max_nesting) (map_members m)"
    using good_map_lookup [OF assms] by (auto simp: map_members_def list_all_iff str_lexeme_quote_body)
qed

lemma map_of_map_keys:
  "map_of (map (\<lambda>k. (k, the (map_of m k))) (gomap_keys m)) = map_of m"
proof
  fix k
  show "map_of (map (\<lambda>k. (k, the (map_of m k))) (gomap_keys m)) k = map_of m k"
  proof (cases "map_of m k")
    case None
    then have "k \<notin> set (gomap_keys m)" by (simp add: map_of_eq_None_iff)
    with None show ?thesis by (simp add: map_of_map_restrict)
  next
    case (Some v)
    then have "k \<in> set (gomap_keys m)" by (force dest: map_of_SomeD)
    with Some show ?thesis by (simp add: map_of_map_restrict)
  qed
qed

lemma checkpoint_members_eq:
  "checkpoint_members canon others =
     (keyVerifiedPrefix, JNum (FormatInt (VerifiedPrefix canon))) # (keyVerified, JArr (map range_json canon))
       # map_members others"
  by (simp add: checkpoint_members_def map_members_def)

lemma parse_checkpoint:
  assumes "good_map others"
  shows "parse_json (print_json (JObj (checkpoint_members canon others))) = Some (JObj (checkpoint_members canon others))"
proof (rule parse_print)
  have w: "wf_json (JArr (map range_json canon))"
    by (auto simp: list_all_iff range_json_def num_lexeme_FormatInt)
  then show "wf_json (JObj (checkpoint_members canon others))"
    using map_members_good(1) [OF assms] str_lexeme_keys
    by (auto simp: checkpoint_members_eq list_all_iff num_lexeme_FormatInt)
  have d: "depth (JArr (map range_json canon)) \<le> 2"
    using foldr_max_le [of "map depth (map range_json canon)" 1] by (auto simp: range_json_def)
  have "foldr max (map (\<lambda>(k, v). depth v) (checkpoint_members canon others)) 0 \<le> max_nesting - 1"
    unfolding foldr_max_le
    using map_members_good(1) [OF assms] d
    by (auto simp: checkpoint_members_eq list_all_iff max_nesting_def simp del: depth.simps(1))
  then show "depth (JObj (checkpoint_members canon others)) \<le> max_nesting"
    by (simp add: max_nesting_def)
qed

lemma brace_not_absent: "\<not> absent (CHR ''{'' # t)"
proof -
  have "TrimSpace (CHR ''{'' # t) \<noteq> ''null''"
  proof
    assume null: "TrimSpace (CHR ''{'' # t) = ''null''"
    let ?sp = "\<lambda>(r, _ :: string). IsSpace r"
    have r: "runes (CHR ''{'' # t) = (123, ''{'') # runes t"
      by (simp add: byte_def)
    have d: "dropWhile ?sp (runes (CHR ''{'' # t)) = (123, ''{'') # runes t"
      unfolding r by (simp add: IsSpace_def)
    have "\<exists>xs. dropWhile ?sp (rev (runes t) @ [(123, ''{'')]) = xs @ [(123, ''{'')]"
      by (induction "rev (runes t)") (auto simp: IsSpace_def dropWhile_append)
    then obtain xs where "dropWhile ?sp (rev ((123, ''{'') # runes t)) = xs @ [(123, ''{'')]"
      by auto
    then have "TrimSpace (CHR ''{'' # t) = ''{'' @ concat (map snd (rev xs))"
      unfolding TrimSpace_def Let_def d by simp
    with null show False by simp
  qed
  then show ?thesis by (simp add: absent_def)
qed

lemma print_obj_not_absent: "\<not> absent (print_json (JObj ms))"
  using brace_not_absent by simp

section \<open>The round trip\<close>

definition offsets_ok :: "rng list \<Rightarrow> bool" where
  "offsets_ok rs \<longleftrightarrow> (\<forall>r \<in> set rs. int64 (Start r) \<and> int64 (End r))"

lemma offsets_canonical:
  assumes "CanonicalRanges rs = Inr c" "offsets_ok rs"
  shows "offsets_ok c"
  unfolding offsets_ok_def
proof
  fix r assume r: "r \<in> set c"
  have c: "canonical c" "bytes_of c = bytes_of rs"
    using assms(1) canonical_out canonical_bytes by blast+
  have g: "0 \<le> Start r" "Start r < End r"
    using c(1) r by (auto simp: canonical_def list_all_iff good_range_def)
  then have "End r - 1 \<in> bytes_of c"
    unfolding bytes_of_def using r by force
  then have "End r - 1 \<in> bytes_of rs"
    by (simp add: c(2))
  then obtain q where "q \<in> set rs" "End r \<le> End q"
    by (auto simp: bytes_of_def)
  with assms(2) g show "int64 (Start r) \<and> int64 (End r)"
    by (auto simp: offsets_ok_def int64_def)
qed

lemma decode_int_FormatInt: "int64 n \<Longrightarrow> decode_int p (JNum (FormatInt n)) = Inr n"
  by (simp add: decode_int_def ParseInt_FormatInt)

lemma decode_ranges:
  "offsets_ok c \<Longrightarrow>
     decode_elems (decode_slice decode_int 0) [] [] (map range_json c) = Inr (map (\<lambda>r. [Start r, End r]) c)"
  by (induction c) (auto simp: offsets_ok_def decode_slice_def range_json_def decode_int_FormatInt)

lemma pairs_of_ranges: "pairs_of (map (\<lambda>r. [Start r, End r]) c) = Inr c"
  by (induction c) auto

text \<open>No other key of the checkpoint spells one of the two keys in another case.\<close>

definition own_names :: "json gomap \<Rightarrow> bool" where
  "own_names m \<longleftrightarrow> (\<forall>k \<in> fst ` set m. \<not> field_match k keyVerified \<and> \<not> field_match k keyVerifiedPrefix)"

lemma decode_fields_foreign:
  "\<forall>(k, v) \<in> set ms. \<not> field_match (unquote k) keyVerified \<and> \<not> field_match (unquote k) keyVerifiedPrefix \<Longrightarrow>
     decode_fields cp ms = Inr cp"
  by (induction ms) (auto simp: decode_member_def)

lemma VerifiedPrefix_int64: "offsets_ok c \<Longrightarrow> int64 (VerifiedPrefix c)"
  by (cases c) (auto simp: VerifiedPrefix_def offsets_ok_def int64_def)

lemma canonical_with_prefix:
  assumes "canonical c"
  shows "CanonicalRanges (if VerifiedPrefix c > 0 then c @ [Range 0 (VerifiedPrefix c)] else c) = Inr c"
proof (cases "VerifiedPrefix c > 0")
  case True
  have "{0 ..< VerifiedPrefix c} \<subseteq> bytes_of c"
    using True by (cases c) (auto simp: VerifiedPrefix_def split: if_splits)
  then have "CanonicalRanges (c @ [Range 0 (VerifiedPrefix c)]) = CanonicalRanges c"
    using True by (intro ranges.canon_eqI) (auto simp: range_ok_def)
  with True assms show ?thesis by (simp add: ranges.canon_ok_id)
qed (simp add: assms ranges.canon_ok_id)

lemma read_checkpoint_members:
  assumes "canonical c" "offsets_ok c" "good_map others" "own_names others"
  shows "RangesFromCheckpoint (print_json (JObj (checkpoint_members c others))) = Inr c"
proof -
  have rest: "decode_fields cp (map_members others) = Inr cp" for cp
  proof (rule decode_fields_foreign, clarify)
    fix k v assume kv: "(k, v) \<in> set (map_members others)"
    then have "unquote k \<in> set (map (unquote \<circ> fst) (map_members others))" by force
    then have "unquote k \<in> fst ` set others"
      unfolding map_members_good(3) [OF assms(3)] by simp
    then show "\<not> field_match (unquote k) keyVerified \<and> \<not> field_match (unquote k) keyVerifiedPrefix"
      using assms(4) unfolding own_names_def by blast
  qed
  have "decode_fields no_fields (checkpoint_members c others)
      = Inr \<lparr>cpPrefix = Some (VerifiedPrefix c), cpVerified = Some (map (\<lambda>r. [Start r, End r]) c)\<rparr>"
    using decode_ranges [OF assms(2)] VerifiedPrefix_int64 [OF assms(2)] rest
    by (simp add: checkpoint_members_eq decode_member_def no_fields_def decode_int_FormatInt decode_slice_def)
  then show ?thesis
    unfolding RangesFromCheckpoint_def parse_checkpoint [OF assms(3)]
    using canonical_with_prefix [OF assms(1)]
    by (simp add: print_obj_not_absent ranges_of_fields_def pairs_of_ranges del: print_json.simps)
qed

lemma others_checkpoint_members:
  assumes "good_map others" "keyVerified \<notin> fst ` set others" "keyVerifiedPrefix \<notin> fst ` set others"
  shows "\<exists>m. others_of (print_json (JObj (checkpoint_members c others))) = Inr m
    \<and> unmarshal_map (print_json (JObj (checkpoint_members c others))) = Inr m
    \<and> map_of m = (map_of others)(keyVerifiedPrefix \<mapsto> JNum (FormatInt (VerifiedPrefix c)),
                      keyVerified \<mapsto> JArr (map range_json c))"
proof -
  let ?ms = "checkpoint_members c others"
  have keys: "map (unquote \<circ> fst) ?ms = keyVerifiedPrefix # keyVerified # gomap_keys others"
    using map_members_good(3) [OF assms(1)] by (simp add: checkpoint_members_eq)
  have "keyVerifiedPrefix \<noteq> keyVerified"
    by (simp add: keyVerifiedPrefix_def keyVerified_def)
  then have "distinct (map (unquote \<circ> fst) ?ms)"
    using assms distinct_gomap_keys [of others] unfolding keys by (auto simp: good_map_def)
  then have "put_members ?ms = map (\<lambda>(k, v). (unquote k, v)) ?ms"
    using put_all_distinct [of "[]" ?ms] by (simp add: put_members_def put_all_def)
  also have "\<dots> = (keyVerifiedPrefix, JNum (FormatInt (VerifiedPrefix c))) # (keyVerified, JArr (map range_json c))
      # map (\<lambda>k. (k, the (map_of others k))) (gomap_keys others)"
    using map_members_good(2) [OF assms(1)] by (simp add: checkpoint_members_eq)
  finally have put: "put_members ?ms = \<dots>" .
  have m: "unmarshal_map (print_json (JObj ?ms)) = Inr (put_members ?ms)"
    unfolding unmarshal_map_def parse_checkpoint [OF assms(1)] by simp
  have "map_of (put_members ?ms) = (map_of others)(keyVerifiedPrefix \<mapsto> JNum (FormatInt (VerifiedPrefix c)),
                      keyVerified \<mapsto> JArr (map range_json c))"
    unfolding put using map_of_map_keys [of others] \<open>keyVerifiedPrefix \<noteq> keyVerified\<close> by (simp add: fun_upd_twist)
  with m print_obj_not_absent show ?thesis
    by (auto simp: others_of_def simp del: print_json.simps)
qed

text \<open>C16: What \<open>CheckpointWithRanges\<close> writes, \<open>RangesFromCheckpoint\<close> reads back as the canonical set of
  the ranges written, and every key the two helpers do not own keeps its value; for int64
  offsets and a checkpoint no other key of which spells one of the two in another case.\<close>

theorem checkpoint_roundtrip:
  assumes "CheckpointWithRanges raw rs = Inr out" "others_of raw = Inr others"
    and "offsets_ok rs" "own_names (foreign others)"
  shows "RangesFromCheckpoint out = CanonicalRanges rs
    \<and> (\<exists>m. others_of out = Inr m
         \<and> (\<forall>k. k \<noteq> keyVerified \<and> k \<noteq> keyVerifiedPrefix \<longrightarrow> map_of m k = map_of others k))"
proof -
  obtain c where c: "CanonicalRanges rs = Inr c"
    and out: "out = print_json (JObj (checkpoint_members c (foreign others)))"
    using assms(1,2) by (auto simp: CheckpointWithRanges_tree res_simps simp del: print_json.simps)
  have good: "good_map (foreign others)"
    using assms(2) others_of_good good_map_foreign by blast
  have "RangesFromCheckpoint out = Inr c"
    unfolding out using canonical_out [OF c] offsets_canonical [OF c assms(3)] good assms(4)
    by (rule read_checkpoint_members)
  moreover obtain m where "others_of out = Inr m"
    "map_of m = (map_of (foreign others))(keyVerifiedPrefix \<mapsto> JNum (FormatInt (VerifiedPrefix c)),
                      keyVerified \<mapsto> JArr (map range_json c))"
    using others_checkpoint_members [OF good foreign_keys, of c] out by blast
  moreover have "map_of (foreign others) k = map_of others k" if "k \<noteq> keyVerified" "k \<noteq> keyVerifiedPrefix" for k
    using that by (simp add: foreign_def map_of_gomap_delete)
  ultimately show ?thesis using c by simp
qed


lemma checkpoint_roundtrip_witness:
  "RangesFromCheckpoint ''{\"verified_prefix\":4,\"verified\":[[0,4]],\"k\":7}'' = CanonicalRanges [Range 2 4, Range 0 3]"
proof -
  have p: "parse_json ''{\"k\" : 7 }'' = Some (JObj [(''k'', JNum ''7'')])"
    by code_simp
  have a: "\<not> absent ''{\"k\" : 7 }''"
    by (simp add: absent_def TrimSpace_def IsSpace_def byte_def)
  have u: "unquote ''k'' = ''k''"
    by (rule unquote_ascii_name) (simp add: byte_def)
  have o: "others_of ''{\"k\" : 7 }'' = Inr [(''k'', JNum ''7'')]"
    by (simp add: others_of_def a unmarshal_map_def p put_members_def u)
  have n: "nat_digits 0 = ''0''" "nat_digits 4 = ''4''"
    by (code_simp, code_simp)
  have k: "char_of (107 :: nat) = CHR ''k''"
    by (rule char_of_eqI) (simp add: byte_def)
  have w: "CheckpointWithRanges ''{\"k\" : 7 }'' [Range 2 4, Range 0 3]
      = Inr ''{\"verified_prefix\":4,\"verified\":[[0,4]],\"k\":7}''"
    by (simp add: CheckpointWithRanges_def o CanonicalRanges_def less_eq_rng_def Let_def gomap_delete_def
        keyVerified_def keyVerifiedPrefix_def gomap_keys_def member_of_def quote_def quote_body_def quote_rune_def
        byte_def range_text_def FormatInt_def n VerifiedPrefix_def k)
  have "own_names (foreign [(''k'', JNum ''7'')])"
    by (simp add: own_names_def foreign_def gomap_delete_def field_match_def keyVerified_def keyVerifiedPrefix_def)
  then show ?thesis
    using checkpoint_roundtrip [OF w o] by (simp add: offsets_ok_def int64_def)
qed

section \<open>The canonical spelling is stable\<close>

lemma gomap_keys_cong:
  assumes "map_of m = map_of n" "gomap_wf m" "gomap_wf n"
  shows "gomap_keys m = gomap_keys n"
proof -
  have "fst ` set m = fst ` set n"
    using assms(1) by (metis dom_map_of_conv_image_fst)
  then have "set (gomap_keys m) = set (gomap_keys n)" by simp
  then show ?thesis
    using assms(2,3) by (intro sorted_distinct_set_unique) (simp_all add: distinct_gomap_keys)
qed

lemma checkpoint_members_cong:
  "map_of m = map_of n \<Longrightarrow> gomap_wf m \<Longrightarrow> gomap_wf n \<Longrightarrow> checkpoint_members c m = checkpoint_members c n"
  using gomap_keys_cong [of m n] by (simp add: checkpoint_members_def)

text \<open>A decoder keeps a property: a value that has it is decoded onto as a value that has it.\<close>

definition keeps :: "('a \<Rightarrow> bool) \<Rightarrow> ('a \<Rightarrow> json \<Rightarrow> 'a res) \<Rightarrow> bool" where
  "keeps P dec \<longleftrightarrow> (\<forall>p x v. P p \<longrightarrow> dec p v = Inr x \<longrightarrow> P x)"

lemma keepsD: "keeps P dec \<Longrightarrow> P p \<Longrightarrow> dec p v = Inr x \<Longrightarrow> P x"
  by (auto simp: keeps_def)

lemma decode_elems_keeps:
  "keeps P dec \<Longrightarrow> P zero \<Longrightarrow> list_all P prev \<Longrightarrow> decode_elems dec zero prev vs = Inr xs \<Longrightarrow> list_all P xs"
proof (induction dec zero prev vs arbitrary: xs rule: decode_elems.induct)
  case (2 dec zero prev v vs)
  from "2.prems"(4) obtain x ys where x: "dec (case prev of [] \<Rightarrow> zero | p # _ \<Rightarrow> p) v = Inr x"
    and ys: "decode_elems dec zero (tl prev) vs = Inr ys" and xs: "xs = x # ys"
    by (auto simp: res_simps)
  have p: "P (case prev of [] \<Rightarrow> zero | p # _ \<Rightarrow> p)" "list_all P (tl prev)"
    using "2.prems"(2,3) by (cases prev; simp)+
  have "list_all P ys"
    by (rule "2.IH" [OF "2.prems"(1,2) p(2) ys])
  with keepsD [OF "2.prems"(1) p(1) x] show ?case
    unfolding xs by simp
qed simp

lemma keeps_slice: "keeps P dec \<Longrightarrow> P zero \<Longrightarrow> keeps (list_all P) (decode_slice dec zero)"
proof (unfold keeps_def [of "list_all P"], intro allI impI)
  fix p x v
  assume "keeps P dec" "P zero" "list_all P p" "decode_slice dec zero p v = Inr x"
  then show "list_all P x"
    by (cases v) (auto simp: decode_slice_def intro: decode_elems_keeps)
qed

lemma ParseInt_int64: "ParseInt l = Some n \<Longrightarrow> int64 n"
  by (auto simp: ParseInt_def Let_def split: prod.splits if_splits)

lemma int64_0 [simp]: "int64 0"
  by (simp add: int64_def)

lemma keeps_int: "keeps int64 decode_int"
proof (unfold keeps_def, intro allI impI)
  fix p x v
  assume "int64 p" "decode_int p v = Inr x"
  then show "int64 x"
    by (cases v) (auto simp: decode_int_def ParseInt_int64 split: option.splits)
qed

lemmas keeps_verified = keeps_slice [OF keeps_slice [OF keeps_int int64_0], of "[]", simplified]

definition fields_ok :: "range_fields \<Rightarrow> bool" where
  "fields_ok cp \<longleftrightarrow> (\<forall>n. cpPrefix cp = Some n \<longrightarrow> int64 n)
     \<and> (\<forall>ps. cpVerified cp = Some ps \<longrightarrow> list_all (list_all int64) ps)"

lemma decode_member_ok: "fields_ok cp \<Longrightarrow> decode_member cp m = Inr cp' \<Longrightarrow> fields_ok cp'"
proof -
  assume cp: "fields_ok cp" and d: "decode_member cp m = Inr cp'"
  obtain k v where m: "m = (k, v)" by (cases m)
  have prev: "list_all (list_all int64) (case cpVerified cp of None \<Rightarrow> [] | Some vs \<Rightarrow> vs)"
    "int64 (case cpPrefix cp of None \<Rightarrow> 0 | Some n \<Rightarrow> n)"
    using cp by (auto simp: fields_ok_def split: option.splits)
  consider (prefix) "field_match (unquote k) keyVerifiedPrefix" "v \<noteq> JNull"
    | (verified) "\<not> field_match (unquote k) keyVerifiedPrefix" "field_match (unquote k) keyVerified" "v \<noteq> JNull"
    | (plain) "\<not> field_match (unquote k) keyVerifiedPrefix \<and> \<not> field_match (unquote k) keyVerified \<or> v = JNull"
    by blast
  then show ?thesis
  proof cases
    case prefix
    with d m obtain n where "decode_int (case cpPrefix cp of None \<Rightarrow> 0 | Some n \<Rightarrow> n) v = Inr n" "cp' = cp\<lparr>cpPrefix := Some n\<rparr>"
      by (auto simp: decode_member_def rbind_Inr_iff)
    with cp keepsD [OF keeps_int prev(2)] show ?thesis by (simp add: fields_ok_def)
  next
    case verified
    with d m obtain vs where "decode_slice (decode_slice decode_int 0) [] (case cpVerified cp of None \<Rightarrow> [] | Some vs \<Rightarrow> vs) v = Inr vs"
        "cp' = cp\<lparr>cpVerified := Some vs\<rparr>"
      by (auto simp: decode_member_def rbind_Inr_iff)
    with cp keepsD [OF keeps_verified prev(1)] show ?thesis by (simp add: fields_ok_def)
  next
    case plain
    with d m have "cp' = cp\<lparr>cpPrefix := None\<rparr> \<or> cp' = cp\<lparr>cpVerified := None\<rparr> \<or> cp' = cp"
      by (simp add: decode_member_def split: if_splits)
    with cp show ?thesis by (auto simp: fields_ok_def)
  qed
qed

lemma decode_fields_ok: "fields_ok cp \<Longrightarrow> decode_fields cp ms = Inr cp' \<Longrightarrow> fields_ok cp'"
  by (induction ms arbitrary: cp) (auto simp: res_simps dest: decode_member_ok)

lemma pairs_of_offsets: "pairs_of ps = Inr rs \<Longrightarrow> list_all (list_all int64) ps \<Longrightarrow> offsets_ok rs"
  by (induction ps arbitrary: rs rule: pairs_of.induct)
    (auto simp: res_simps offsets_ok_def split: list.splits)

lemma RangesFromCheckpoint_ok:
  assumes "RangesFromCheckpoint raw = Inr rs"
  shows "canonical rs \<and> offsets_ok rs"
proof (cases "absent raw")
  case True
  with assms show ?thesis by (simp add: RangesFromCheckpoint_def offsets_ok_def)
next
  case False
  have no: "fields_ok no_fields" by (simp add: fields_ok_def no_fields_def)
  with assms False obtain cp where cp: "fields_ok cp" "ranges_of_fields cp = Inr rs"
    by (auto simp: RangesFromCheckpoint_def res_simps split: option.splits json.splits dest: decode_fields_ok)
  from cp(2) obtain ins where ins: "(case cpVerified cp of None \<Rightarrow> Inr [] | Some ps \<Rightarrow> pairs_of ps) = Inr ins"
    and can: "CanonicalRanges (case cpPrefix cp of Some p \<Rightarrow> if p > 0 then ins @ [Range 0 p] else ins | None \<Rightarrow> ins) = Inr rs"
    by (auto simp: ranges_of_fields_def res_simps)
  have "offsets_ok ins"
    using ins cp(1) pairs_of_offsets by (auto simp: fields_ok_def offsets_ok_def split: option.splits)
  then have "offsets_ok (case cpPrefix cp of Some p \<Rightarrow> if p > 0 then ins @ [Range 0 p] else ins | None \<Rightarrow> ins)"
    using cp(1) by (auto simp: offsets_ok_def fields_ok_def split: option.splits)
  with can canonical_out offsets_canonical show ?thesis by blast
qed


text \<open>Folding a part in: after \<open>AddCheckpointRange\<close> the record's checkpoint proves exactly the bytes
  it proved before and the new ones, content declares the ranges feature, and nothing else of
  the record moves.\<close>

theorem AddCheckpointRange_correct:
  assumes "AddCheckpointRange s e r = Inr r'" "int64 s" "int64 e"
    and "\<forall>m. others_of (rCheckpoint r) = Inr m \<longrightarrow> own_names (foreign m)"
  shows "\<exists>before after. CheckpointRanges r = Inr before \<and> CheckpointRanges r' = Inr after
    \<and> canonical after \<and> bytes_of after = bytes_of before \<union> {s ..< e}
    \<and> FeatureRanges \<in> set (rContent r')
    \<and> r' = r\<lparr>rCheckpoint := rCheckpoint r', rContent := rContent r'\<rparr>"
proof -
  obtain before after raw where b: "CheckpointRanges r = Inr before" and a: "AddRange before s e = Inr after"
    and w: "CheckpointWithRanges (rCheckpoint r) after = Inr raw"
    and r': "r' = r\<lparr>rCheckpoint := raw, rContent := declare_ranges (rContent r)\<rparr>"
    using assms(1) by (auto simp: AddCheckpointRange_def SetCheckpointRanges_def res_simps)
  have ob: "offsets_ok (before @ [Range s e])"
    using RangesFromCheckpoint_ok b assms(2,3) by (auto simp: CheckpointRanges_def offsets_ok_def)
  have c: "canonical after" "bytes_of after = bytes_of before \<union> {s ..< e}" "offsets_ok after"
    using a canonical_out [of "before @ [Range s e]" after] canonical_bytes [of "before @ [Range s e]" after]
      offsets_canonical [OF _ ob] by (auto simp: AddRange_def)
  obtain others where o: "others_of (rCheckpoint r) = Inr others"
    and raw: "raw = print_json (JObj (checkpoint_members after (foreign others)))"
    using w c(1) by (auto simp: CheckpointWithRanges_tree res_simps ranges.canon_ok_id simp del: print_json.simps)
  have "CheckpointRanges r' = Inr after"
    using read_checkpoint_members [OF c(1,3) good_map_foreign [OF others_of_good [OF o]]] assms(4) o
    by (simp add: CheckpointRanges_def r' raw del: print_json.simps)
  with b c r' show ?thesis by (auto simp: declare_ranges_def)
qed


section \<open>A sample checkpoint\<close>

text \<open>The checkpoint \<open>{"verified":[[0,4]]}\<close>, evaluated step by step for the witnesses.\<close>

definition sample_checkpoint :: string where
  "sample_checkpoint = ''{\"verified\":[[0,4]]}''"

lemma sample_parse:
  "parse_json sample_checkpoint = Some (JObj [(''verified'', JArr [JArr [JNum ''0'', JNum ''4'']])])"
  unfolding sample_checkpoint_def by code_simp

lemma sample_not_absent: "\<not> absent sample_checkpoint"
  unfolding sample_checkpoint_def by (rule brace_not_absent)

lemma sample_unquote: "unquote ''verified'' = keyVerified"
  using unquote_keys(2) by (simp add: keyVerified_def)

lemma sample_numbers: "ParseInt ''0'' = Some 0" "ParseInt ''4'' = Some 4" "nat_digits 0 = ''0''" "nat_digits 4 = ''4''"
    "nat_digits 6 = ''6''" "nat_digits 9 = ''9''"
  by code_simp+

lemma sample_ranges: "RangesFromCheckpoint sample_checkpoint = Inr [Range 0 4]"
  by (simp add: RangesFromCheckpoint_def sample_not_absent sample_parse decode_member_def sample_unquote
      no_fields_def decode_slice_def decode_int_def sample_numbers ranges_of_fields_def CanonicalRanges_def)

lemma sample_map: "unmarshal_map sample_checkpoint = Inr [(keyVerified, JArr [JArr [JNum ''0'', JNum ''4'']])]"
  by (simp add: unmarshal_map_def sample_parse put_members_def sample_unquote)

lemma sample_others: "others_of sample_checkpoint = Inr [(keyVerified, JArr [JArr [JNum ''0'', JNum ''4'']])]"
  by (simp add: others_of_def sample_not_absent sample_map)

lemma sample_foreign: "own_names (foreign [(keyVerified, v)])"
  by (simp add: own_names_def foreign_def gomap_delete_def)

lemma sample_write:
  "CheckpointWithRanges sample_checkpoint [Range 0 4] = Inr ''{\"verified_prefix\":4,\"verified\":[[0,4]]}''"
  "CheckpointWithRanges sample_checkpoint [Range 0 4, Range 6 9]
     = Inr ''{\"verified_prefix\":4,\"verified\":[[0,4],[6,9]]}''"
  by (simp_all add: CheckpointWithRanges_def sample_others CanonicalRanges_def Let_def gomap_delete_def
      gomap_keys_def VerifiedPrefix_def range_text_def FormatInt_def sample_numbers less_eq_rng_def
      keyVerified_def keyVerifiedPrefix_def)


lemma AddCheckpointRange_correct_witness:
  "CheckpointRanges (sample\<lparr>rCheckpoint := ''{\"verified_prefix\":4,\"verified\":[[0,4],[6,9]]}'', rContent := [FeatureRanges]\<rparr>)
     \<noteq> Inl ErrInvalid"
proof -
  let ?r = "sample\<lparr>rCheckpoint := sample_checkpoint\<rparr>"
  let ?q = "sample\<lparr>rCheckpoint := ''{\"verified_prefix\":4,\"verified\":[[0,4],[6,9]]}'', rContent := [FeatureRanges]\<rparr>"
  have add: "AddRange [Range 0 4] 6 9 = Inr [Range 0 4, Range 6 9]"
    by (simp add: AddRange_def CanonicalRanges_def less_eq_rng_def)
  have "AddCheckpointRange 6 9 ?r = Inr ?q"
    by (simp add: AddCheckpointRange_def CheckpointRanges_def sample_ranges add SetCheckpointRanges_def
        sample_write declare_ranges_def sample_def zero_record_def)
  then show ?thesis
    using AddCheckpointRange_correct [of 6 9 ?r ?q] by (auto simp: sample_others sample_foreign int64_def)
qed

section \<open>A key that differs only in case\<close>

text \<open>
  The hypothesis on foreign spellings is needed: \<open>CheckpointWithRanges\<close> keeps a key such as
  \<open>VERIFIED\<close> as somebody else's, and \<open>RangesFromCheckpoint\<close> then decodes it into the same field,
  after the set just written.
\<close>

lemma foreign_spelling_shadows:
  "RangesFromCheckpoint ''{\"verified_prefix\":4,\"verified\":[[0,4],[6,9]],\"VERIFIED\":[[0,4]]}'' = Inr [Range 0 4]"
proof -
  let ?s = "''{\"verified_prefix\":4,\"verified\":[[0,4],[6,9]],\"VERIFIED\":[[0,4]]}''"
  have p: "parse_json ?s = Some (JObj [(''verified_prefix'', JNum ''4''),
      (''verified'', JArr [JArr [JNum ''0'', JNum ''4''], JArr [JNum ''6'', JNum ''9'']]),
      (''VERIFIED'', JArr [JArr [JNum ''0'', JNum ''4'']])])"
    by code_simp
  have n: "ParseInt ''6'' = Some 6" "ParseInt ''9'' = Some 9" by code_simp+
  have a: "\<not> absent ?s"
    by (rule brace_not_absent)
  have u: "unquote ''verified_prefix'' = ''verified_prefix''" "unquote ''verified'' = ''verified''"
    "unquote ''VERIFIED'' = ''VERIFIED''"
    by (rule unquote_ascii_name, simp add: byte_def)+
  have f: "field_match ''verified_prefix'' keyVerifiedPrefix" "\<not> field_match ''verified'' keyVerifiedPrefix"
    "field_match ''verified'' keyVerified" "\<not> field_match ''VERIFIED'' keyVerifiedPrefix"
    "field_match ''VERIFIED'' keyVerified"
    unfolding field_match_def keyVerified_def keyVerifiedPrefix_def by code_simp+
  show ?thesis
    by (simp add: RangesFromCheckpoint_def a p decode_member_def u f no_fields_def decode_slice_def
        decode_int_def sample_numbers n ranges_of_fields_def CanonicalRanges_def less_eq_rng_def)
qed

end
