(* ===== verification/Immutable.thy ===== *)
theory Immutable
  imports Checkpoint
begin

text \<open>
  go/immutable.go: what a lease holder may not move, and the comparison of opaque payloads
  up to insignificant white space.
\<close>

record immutable =
  imID :: string
  imKind :: string
  imSpec :: string
  imCreatedAt :: time
  imEnvelope :: "Envelope option"

definition immutablesOf :: "Record \<Rightarrow> immutable" where
  "immutablesOf r = \<lparr>imID = rID r, imKind = rKind r, imSpec = rSpec r, imCreatedAt = rCreatedAt r,
     imEnvelope = rEnvelope r\<rparr>"

definition sameOpaque :: "string \<Rightarrow> string \<Rightarrow> bool" where
  "sameOpaque a b \<longleftrightarrow>
     (if a = b then True
      else case (Compact a, Compact b) of
        (Some ca, Some cb) \<Rightarrow> ca = cb
      | _ \<Rightarrow> False)"

definition unmoved :: "immutable \<Rightarrow> Record \<Rightarrow> unit res" where
  "unmoved i r =
     (if imID i \<noteq> rID r then Inl ErrInvalid
      else if imKind i \<noteq> rKind r then Inl ErrInvalid
      else if \<not> sameOpaque (imSpec i) (rSpec r) then Inl ErrInvalid
      else if imCreatedAt i \<noteq> rCreatedAt r then Inl ErrInvalid
      else envelopeUnmoved (imEnvelope i) (rEnvelope r))"

section \<open>What the comparison decides\<close>

lemma print_json_inject:
  assumes "wf_json v" "depth v \<le> max_nesting" "wf_json w" "depth w \<le> max_nesting" "print_json v = print_json w"
  shows "v = w"
  using parse_print [OF assms(1,2)] parse_print [OF assms(3,4)] assms(5) by (metis option.inject)

text \<open>Two payloads are the same exactly when they are the same bytes or the same tree, every
  escape and every digit of it included.\<close>

lemma sameOpaque_iff:
  "sameOpaque a b \<longleftrightarrow> a = b \<or> (\<exists>v. parse_json a = Some v \<and> parse_json b = Some v)"
proof (cases "parse_json a"; cases "parse_json b")
  fix v w assume v: "parse_json a = Some v" and w: "parse_json b = Some w"
  then have "print_json v = print_json w \<longleftrightarrow> v = w"
    using print_json_inject [of v w] parse_json_wf by blast
  with v w show ?thesis by (auto simp: sameOpaque_def Compact_def)
qed (auto simp: sameOpaque_def Compact_def)

lemma sameOpaque_refl [simp]: "sameOpaque a a"
  by (simp add: sameOpaque_def)

lemma sameOpaque_sym: "sameOpaque a b \<Longrightarrow> sameOpaque b a"
  by (auto simp: sameOpaque_iff)

lemma sameOpaque_trans: "sameOpaque a b \<Longrightarrow> sameOpaque b c \<Longrightarrow> sameOpaque a c"
  by (auto simp: sameOpaque_iff)

lemma unmoved_cases: "unmoved i r = Inr () \<or> unmoved i r = Inl ErrInvalid"
  by (simp add: unmoved_def envelopeUnmoved_def)

text \<open>The five fields a write leaves alone.\<close>

definition same_work :: "Record \<Rightarrow> Record \<Rightarrow> bool" where
  "same_work r q \<longleftrightarrow> rID r = rID q \<and> rKind r = rKind q \<and> sameOpaque (rSpec r) (rSpec q)
     \<and> rCreatedAt r = rCreatedAt q \<and> rEnvelope r = rEnvelope q"

lemma same_work_refl [simp]: "same_work r r"
  by (simp add: same_work_def)

lemma same_work_trans: "same_work r q \<Longrightarrow> same_work q p \<Longrightarrow> same_work r p"
  by (auto simp: same_work_def intro: sameOpaque_trans)

lemma unmoved_iff: "unmoved (immutablesOf r) q = Inr u \<longleftrightarrow> same_work r q"
  by (simp add: unmoved_def immutablesOf_def same_work_def)

text \<open>The guard every write passes accepts exactly the writes that leave the id, the kind, the
  creation time and the envelope as they were and the spec the same JSON tree (or the same
  bytes): white space inside the spec is not a change, one escape or digit is.\<close>

theorem unmoved_correct:
  "unmoved (immutablesOf r) q =
     (if rID r = rID q \<and> rKind r = rKind q \<and> rCreatedAt r = rCreatedAt q \<and> rEnvelope r = rEnvelope q
         \<and> (rSpec r = rSpec q \<or> (\<exists>v. parse_json (rSpec r) = Some v \<and> parse_json (rSpec q) = Some v))
      then Inr () else Inl ErrInvalid)"
  using unmoved_iff [of r q "()"] unmoved_cases [of "immutablesOf r" q]
  by (auto simp: same_work_def sameOpaque_iff)

end
