(* ===== verification/Leases.thy ===== *)
theory Leases
  imports Immutable
begin

text \<open>
  What the bindings of the store share (go/store.go): the cap a recall puts on a renewal and
  the edit that recalls a lease, with the interface of go/interface.go as a locale.

  The clock is an argument: an operation takes one reading for every call of \<open>now\<close> it makes,
  in the order it makes them.
\<close>

definition renewedUntil :: "Lease \<Rightarrow> time \<Rightarrow> time" where
  "renewedUntil l want =
     (case lRecall l of
        Some rc \<Rightarrow> if rcUntil rc < want then rcUntil rc else At want
      | None \<Rightarrow> At want)"

definition recall :: "Record \<Rightarrow> time \<Rightarrow> int \<Rightarrow> string \<Rightarrow> string \<Rightarrow> duration \<Rightarrow> Record res" where
  "recall r now epoch reason by' grace =
     (if Terminal (rState r) then Inl ErrTerminal
      else if lEpoch (rLease r) \<noteq> epoch then Inl ErrStaleEpoch
      else if \<not> Held (rLease r) now then Inl ErrLeaseExpiry
      else
        let until = At (now + grace);
            l = (rLease r)\<lparr>lRecall := Some \<lparr>rcReason = reason, rcBy = by', rcAt = At now, rcUntil = until\<rparr>\<rparr>;
            l = (if until < lExpiresAt l then l\<lparr>lExpiresAt := until\<rparr> else l)
        in Inr (r\<lparr>rLease := l, rUpdatedAt := At now\<rparr>))"

definition release_edit :: "time \<Rightarrow> Record \<Rightarrow> Record res" where
  "release_edit now r =
     (let r = r\<lparr>rLease := (rLease r)\<lparr>lExpiresAt := At now, lOwner := []\<rparr>\<rparr>
      in Inr (if rState r = StateRunning \<and> \<not> Delegated r then r\<lparr>rState := StatePending\<rparr> else r))"

text \<open>A renewal never outlives the deadline of a recall: it may stop short of it, by the
  truncation to microseconds.\<close>

lemma renewedUntil_capped:
  "lRecall l = Some rc \<Longrightarrow> renewedUntil l want \<le> rcUntil rc"
  using At_le [of want] by (auto simp: renewedUntil_def)

lemma recall_deadline:
  assumes "recall r now epoch reason by' grace = Inr q"
  shows "lExpiresAt (rLease q) \<le> At (now + grace)" "lExpiresAt (rLease q) \<le> lExpiresAt (rLease r)"
    "lEpoch (rLease q) = lEpoch (rLease r)" "lOwner (rLease q) = lOwner (rLease r)"
    "lRecall (rLease q) = Some \<lparr>rcReason = reason, rcBy = by', rcAt = At now, rcUntil = At (now + grace)\<rparr>"
  using assms by (auto simp: recall_def Let_def split: if_splits)

end
