(* ===== verification/MemoryStore.thy ===== *)
theory MemoryStore
  imports Leases "HOL-Library.Multiset"
begin

text \<open>
  go/memory.go: the store that keeps its records in a map.  The state is the map; an operation
  runs under the mutex, so it is one function from a state to a state and a result.  Records
  are values here, so the copies the code hands out (\<open>copyOf\<close>) are the records themselves.

  An operation takes the clock readings it makes as arguments, in order; \<open>Submit\<close> takes the id
  \<open>NewID\<close> would return.
\<close>

type_synonym mem = "Record gomap"

section \<open>The sorting of List\<close>

text \<open>The inner loop of \<open>sortStrings\<close>: the element at \<open>j\<close> sinks while it is below its neighbour.\<close>

fun sift :: "nat \<Rightarrow> string list \<Rightarrow> string list" where
  "sift 0 s = s"
| "sift (Suc j) s = (if s ! Suc j < s ! j then sift j (s[Suc j := s ! j, j := s ! Suc j]) else s)"

definition sortStrings :: "string list \<Rightarrow> string list" where
  "sortStrings s = fold sift [1..<length s] s"

section \<open>The operations\<close>

definition mem_Submit :: "string \<Rightarrow> time \<Rightarrow> Record \<Rightarrow> mem \<Rightarrow> mem \<times> string res" where
  "mem_Submit newid now r m =
     (let r = (if rID r = [] then r\<lparr>rID := newid\<rparr> else r) in
      if map_of m (rID r) \<noteq> None then (m, Inl ErrInvalid)
      else
        let r = describe r;
            r = (if rState r = StateOther [] then r\<lparr>rState := StatePending\<rparr> else r);
            r = r\<lparr>rCreatedAt := At now, rUpdatedAt := At now, rProgress := (rProgress r)\<lparr>pUpdatedAt := At now\<rparr>\<rparr>
        in case Validate r of
             Inl e \<Rightarrow> (m, Inl e)
           | Inr _ \<Rightarrow> (gomap_put (rID r) r m, Inr (rID r)))"

definition mem_Load :: "string \<Rightarrow> mem \<Rightarrow> Record res" where
  "mem_Load id' m = (case map_of m id' of None \<Rightarrow> Inl ErrNotFound | Some r \<Rightarrow> Inr r)"

definition mem_List :: "mem \<Rightarrow> Record list" where
  "mem_List m = map (\<lambda>id'. the (map_of m id')) (sortStrings (map fst m))"

definition mem_Claimable :: "time \<Rightarrow> Record \<Rightarrow> bool" where
  "mem_Claimable now r \<longleftrightarrow> \<not> Terminal (rState r) \<and> \<not> Held (rLease r) now"

text \<open>The sweep reads the clock again for every record: \<open>clk i\<close> is the reading at the i-th.\<close>

fun mem_sweep :: "(nat \<Rightarrow> time) \<Rightarrow> nat \<Rightarrow> Record list \<Rightarrow> Record list" where
  "mem_sweep clk i [] = []"
| "mem_sweep clk i (r # rs) =
     (if mem_Claimable (clk i) r \<and> Stranded r then r # mem_sweep clk (Suc i) rs
      else mem_sweep clk (Suc i) rs)"

definition mem_Orphans :: "(nat \<Rightarrow> time) \<Rightarrow> mem \<Rightarrow> Record list" where
  "mem_Orphans clk m = mem_sweep clk 0 (mem_List m)"

text \<open>The shape of every operation on one record: find it, edit it, put it back.\<close>

definition on_record :: "string \<Rightarrow> (Record \<Rightarrow> Record res) \<Rightarrow> mem \<Rightarrow> mem \<times> Record res" where
  "on_record id' edit m =
     (case map_of m id' of
        None \<Rightarrow> (m, Inl ErrNotFound)
      | Some r \<Rightarrow>
          (case edit r of
             Inl e \<Rightarrow> (m, Inl e)
           | Inr q \<Rightarrow> (gomap_put id' q m, Inr q)))"

definition mem_claim_edit :: "string \<Rightarrow> duration \<Rightarrow> time \<Rightarrow> Record \<Rightarrow> Record res" where
  "mem_claim_edit owner ttl now r =
     (if Terminal (rState r) then Inl ErrTerminal
      else if Held (rLease r) now \<and> (lOwner (rLease r) \<noteq> owner \<or> Recalled (rLease r)) then Inl ErrLeaseHeld
      else
        let r = r\<lparr>rLease := \<lparr>lOwner = owner, lEpoch = wrap64 (lEpoch (rLease r) + 1),
                             lExpiresAt = At (now + ttl), lRecall = None\<rparr>\<rparr>;
            r = (if rState r = StatePending \<or> rState r = StateRunning then r\<lparr>rState := StateRunning\<rparr> else r)
        in Inr (describe (r\<lparr>rUpdatedAt := At now\<rparr>)))"

definition mem_Claim :: "string \<Rightarrow> string \<Rightarrow> duration \<Rightarrow> time \<Rightarrow> mem \<Rightarrow> mem \<times> Record res" where
  "mem_Claim id' owner ttl now = on_record id' (mem_claim_edit owner ttl now)"

definition mem_renew_edit :: "int \<Rightarrow> duration \<Rightarrow> time \<Rightarrow> time \<Rightarrow> Record \<Rightarrow> Record res" where
  "mem_renew_edit epoch ttl now1 now2 r =
     (if lEpoch (rLease r) \<noteq> epoch then Inl ErrStaleEpoch
      else if \<not> Held (rLease r) now1 then Inl ErrLeaseExpiry
      else Inr (r\<lparr>rLease := (rLease r)\<lparr>lExpiresAt := renewedUntil (rLease r) (now2 + ttl)\<rparr>\<rparr>))"

definition mem_Renew :: "string \<Rightarrow> int \<Rightarrow> duration \<Rightarrow> time \<Rightarrow> time \<Rightarrow> mem \<Rightarrow> mem \<times> Record res" where
  "mem_Renew id' epoch ttl now1 now2 = on_record id' (mem_renew_edit epoch ttl now1 now2)"

definition mem_recall_edit :: "int \<Rightarrow> string \<Rightarrow> string \<Rightarrow> duration \<Rightarrow> time \<Rightarrow> Record \<Rightarrow> Record res" where
  "mem_recall_edit epoch reason by' grace now r =
     rbind (recall r now epoch reason by' grace) (\<lambda>q. Inr (describe q))"

definition mem_Recall ::
    "string \<Rightarrow> int \<Rightarrow> string \<Rightarrow> string \<Rightarrow> duration \<Rightarrow> time \<Rightarrow> mem \<Rightarrow> mem \<times> Record res" where
  "mem_Recall id' epoch reason by' grace now m =
     (if blank reason then (m, Inl ErrInvalid)
      else on_record id' (mem_recall_edit epoch reason by' grace now) m)"

text \<open>\<open>mutate\<close> is given a copy; what it returns is the working copy after its assignments.\<close>

definition mem_update_edit ::
    "int \<Rightarrow> (Record \<Rightarrow> Record res) \<Rightarrow> time \<Rightarrow> time \<Rightarrow> Record \<Rightarrow> Record res" where
  "mem_update_edit epoch mutate now1 now2 stored =
     (if Terminal (rState stored) then Inl ErrTerminal
      else if lEpoch (rLease stored) \<noteq> epoch then Inl ErrStaleEpoch
      else if \<not> Held (rLease stored) now1 then Inl ErrLeaseExpiry
      else
        rbind (mutate stored) (\<lambda>working.
        rbind (unmoved (immutablesOf stored) working) (\<lambda>_.
        let working = describe (working\<lparr>rUpdatedAt := At now2\<rparr>)
        in rbind (Validate working) (\<lambda>_. Inr working))))"

definition mem_Update ::
    "string \<Rightarrow> int \<Rightarrow> (Record \<Rightarrow> Record res) \<Rightarrow> time \<Rightarrow> time \<Rightarrow> mem \<Rightarrow> mem \<times> Record res" where
  "mem_Update id' epoch mutate now1 now2 = on_record id' (mem_update_edit epoch mutate now1 now2)"

definition mem_Release :: "string \<Rightarrow> int \<Rightarrow> time \<Rightarrow> time \<Rightarrow> time \<Rightarrow> mem \<Rightarrow> mem \<times> unit res" where
  "mem_Release id' epoch now1 now2 now3 m =
     (let (m', res) = mem_Update id' epoch (release_edit now2) now1 now3 m
      in (m', rbind res (\<lambda>_. Inr ())))"

definition mem_intent_edit :: "Want \<Rightarrow> string \<Rightarrow> time \<Rightarrow> Record \<Rightarrow> Record res" where
  "mem_intent_edit want by' now r =
     (if Terminal (rState r) then Inl ErrTerminal
      else Inr (describe (r\<lparr>rIntent := Some \<lparr>iWant = want, iBy = by', iAt = At now\<rparr>, rUpdatedAt := At now\<rparr>)))"

definition mem_SetIntent :: "string \<Rightarrow> Want \<Rightarrow> string \<Rightarrow> time \<Rightarrow> mem \<Rightarrow> mem \<times> Record res" where
  "mem_SetIntent id' want by' now m =
     (if \<not> ValidWant want then (m, Inl ErrInvalid)
      else on_record id' (mem_intent_edit want by' now) m)"

section \<open>The insertion sort\<close>

lemma sift_length [simp]: "length (sift j s) = length s"
  by (induction j s rule: sift.induct) auto

lemma sift_mset: "j < length s \<Longrightarrow> mset (sift j s) = mset s"
  by (induction j s rule: sift.induct) (auto simp: mset_swap)

lemma sift_beyond: "j < k \<Longrightarrow> sift j s ! k = s ! k"
  by (induction j s rule: sift.induct) auto

text \<open>Sinking the element at \<open>j\<close> into the sorted elements below it.\<close>

definition sorted_to :: "nat \<Rightarrow> string list \<Rightarrow> bool" where
  "sorted_to n s \<longleftrightarrow> (\<forall>i k. i < k \<and> k < n \<longrightarrow> s ! i \<le> s ! k)"

lemma sift_sorted:
  "j < length s \<Longrightarrow> (\<forall>i k. i < k \<and> k \<le> n \<and> k \<noteq> j \<and> i \<noteq> j \<longrightarrow> s ! i \<le> s ! k) \<Longrightarrow>
     (\<forall>k. j < k \<and> k \<le> n \<longrightarrow> s ! j \<le> s ! k) \<Longrightarrow> j \<le> n \<Longrightarrow> n < length s \<Longrightarrow>
     sorted_to (Suc n) (sift j s)"
proof (induction j s rule: sift.induct)
  case (1 s)
  then show ?case
    by (auto simp: sorted_to_def) (metis less_Suc_eq_le neq0_conv not_less0)
next
  case (2 j s)
  show ?case
  proof (cases "s ! Suc j < s ! j")
    case True
    let ?t = "s[Suc j := s ! j, j := s ! Suc j]"
    have t: "?t ! j = s ! Suc j" "?t ! Suc j = s ! j" "\<And>i. i \<noteq> j \<Longrightarrow> i \<noteq> Suc j \<Longrightarrow> ?t ! i = s ! i"
      using "2.prems" by simp_all
    have "sorted_to (Suc n) (sift j ?t)"
    proof (rule "2.IH" [OF True])
      show "\<forall>i k. i < k \<and> k \<le> n \<and> k \<noteq> j \<and> i \<noteq> j \<longrightarrow> ?t ! i \<le> ?t ! k"
      proof (intro allI impI)
        fix i k assume ik: "i < k \<and> k \<le> n \<and> k \<noteq> j \<and> i \<noteq> j"
        consider "k = Suc j" | "i = Suc j" | "k \<noteq> Suc j" "i \<noteq> Suc j" by blast
        then show "?t ! i \<le> ?t ! k"
        proof cases
          case 1
          then have "i < j" using ik by auto
          with 1 t "2.prems"(2) ik show ?thesis by (metis Suc_lessI less_or_eq_imp_le nat_less_le n_not_Suc_n order.strict_trans2 Suc_leD)
        next
          case 2
          then have "s ! j \<le> s ! k" using "2.prems"(2) ik by auto
          with 2 t ik show ?thesis by (metis less_not_refl)
        next
          case 3
          with t "2.prems"(2) ik show ?thesis by metis
        qed
      qed
      show "\<forall>k. j < k \<and> k \<le> n \<longrightarrow> ?t ! j \<le> ?t ! k"
      proof (intro allI impI)
        fix k assume k: "j < k \<and> k \<le> n"
        show "?t ! j \<le> ?t ! k"
        proof (cases "k = Suc j")
          case True
          then show ?thesis using t(1,2) \<open>s ! Suc j < s ! j\<close> by simp
        next
          case False
          then have "Suc j < k" using k by simp
          with "2.prems"(3) k t(1) t(3) [of k] show ?thesis by auto
        qed
      qed
    qed (use "2.prems" in auto)
    with True show ?thesis by simp
  next
    case False
    have "s ! i \<le> s ! k" if "i < k" "k < Suc n" for i k
    proof -
      consider "i = Suc j" | "k = Suc j" "i = j" | "k = Suc j" "i < j" | "i \<noteq> Suc j" "k \<noteq> Suc j"
        using \<open>i < k\<close> by linarith
      then show ?thesis
      proof cases
        case 3
        then have "s ! i \<le> s ! j" using "2.prems"(2) that by auto
        with False 3 show ?thesis by simp
      qed (use "2.prems"(2,3) that False in auto)
    qed
    with False show ?thesis by (simp add: sorted_to_def)
  qed
qed

lemma sift_step:
  assumes "sorted_to n s" "n < length s"
  shows "sorted_to (Suc n) (sift n s)"
  using assms by (intro sift_sorted) (auto simp: sorted_to_def)

lemma sort_loop:
  "n < length s \<Longrightarrow> sorted_to (Suc n) (fold sift [1..<Suc n] s) \<and> mset (fold sift [1..<Suc n] s) = mset s
     \<and> length (fold sift [1..<Suc n] s) = length s"
proof (induction n)
  case 0
  then show ?case by (simp add: sorted_to_def)
next
  case (Suc n)
  let ?t = "fold sift [1..<Suc n] s"
  have t: "sorted_to (Suc n) ?t" "mset ?t = mset s" "length ?t = length s"
    using Suc by auto
  have eq: "fold sift [1..<Suc (Suc n)] s = sift (Suc n) ?t" by simp
  have "sorted_to (Suc (Suc n)) (sift (Suc n) ?t)" "mset (sift (Suc n) ?t) = mset s" "length (sift (Suc n) ?t) = length s"
    using t Suc.prems sift_step [OF t(1)] sift_mset [of "Suc n" ?t] by (simp_all del: upt_Suc)
  then show ?case unfolding eq by blast
qed

text \<open>The in-place insertion sort that orders \<open>List\<close> computes the sorted list of the ids.\<close>

lemma sortStrings_sort: "sortStrings s = sort s"
proof (cases "s = []")
  case False
  then obtain n where n: "length s = Suc n" by (cases s) auto
  then have "sorted_to (length s) (sortStrings s)" "mset (sortStrings s) = mset s" "length (sortStrings s) = length s"
    using sort_loop [of n s] by (simp_all add: sortStrings_def del: upt_Suc)
  then show ?thesis
    by (intro properties_for_sort [symmetric]) (auto simp: sorted_iff_nth_mono_less sorted_to_def)
qed (simp add: sortStrings_def)

end
