(* ===== verification/StoreSpec.thy ===== *)
theory StoreSpec
  imports Leases
begin

text \<open>
  The contract of the store (go/interface.go) as an abstract specification: the events a
  caller can cause on one record, the step each may make (an inductive relation on records),
  the refusals, and a locale for what every binding promises.  The lease protocol (epochs
  that only increase, fencing of a stale holder, finished work that stays finished) is proved
  once, from the contract alone.
\<close>

section \<open>Events\<close>

text \<open>The operations of the interface that act on one record, with the clock readings they make.\<close>

datatype event =
    EClaim (target: string) (ev_owner: string) (ev_ttl: duration) time
  | ERenew (target: string) (ev_epoch: int) (ev_ttl: duration) time time
  | ERecall (target: string) (ev_epoch: int) string string duration time
  | ERelease (target: string) (ev_epoch: int) time time time
  | EUpdate (target: string) (ev_epoch: int) "Record \<Rightarrow> Record res" time time
  | ESetIntent (target: string) Want string time

text \<open>Everything of a record except its declaration, its last-write time, its lease and its
  checkpoint.\<close>

definition body :: "Record \<Rightarrow> Record" where
  "body r = r\<lparr>rContent := [], rCritical := [], rUpdatedAt := 0, rLease := zero_lease, rCheckpoint := []\<rparr>"

definition claimed_state :: "state \<Rightarrow> state" where
  "claimed_state s = (if s = StatePending \<or> s = StateRunning then StateRunning else s)"

definition claimed_lease :: "string \<Rightarrow> duration \<Rightarrow> time \<Rightarrow> Lease \<Rightarrow> Lease" where
  "claimed_lease owner ttl now l =
     \<lparr>lOwner = owner, lEpoch = wrap64 (lEpoch l + 1), lExpiresAt = At (now + ttl), lRecall = None\<rparr>"

text \<open>Another holder has the lease, or the caller is being asked to give it back.\<close>

definition taken :: "Lease \<Rightarrow> string \<Rightarrow> time \<Rightarrow> bool" where
  "taken l owner now \<longleftrightarrow> Held l now \<and> (lOwner l \<noteq> owner \<or> Recalled l)"

section \<open>The step each event may make\<close>

inductive lease_step :: "event \<Rightarrow> Record \<Rightarrow> Record \<Rightarrow> bool" where
  claim: "\<not> Terminal (rState r) \<Longrightarrow> \<not> taken (rLease r) owner now \<Longrightarrow>
     rLease q = claimed_lease owner ttl now (rLease r) \<Longrightarrow>
     body q = body (r\<lparr>rState := claimed_state (rState r)\<rparr>) \<Longrightarrow> rCheckpoint q = rCheckpoint r \<Longrightarrow>
     lease_step (EClaim i owner ttl now) r q"
| renew: "lEpoch (rLease r) = epoch \<Longrightarrow> Held (rLease r) now1 \<Longrightarrow>
     rLease q = (rLease r)\<lparr>lExpiresAt := renewedUntil (rLease r) (now2 + ttl)\<rparr> \<Longrightarrow>
     body q = body r \<Longrightarrow> rCheckpoint q = rCheckpoint r \<Longrightarrow>
     lease_step (ERenew i epoch ttl now1 now2) r q"
| recall: "recall r now epoch reason by' grace = Inr w \<Longrightarrow> \<not> blank reason \<Longrightarrow>
     rLease q = rLease w \<Longrightarrow> body q = body r \<Longrightarrow> rCheckpoint q = rCheckpoint r \<Longrightarrow>
     lease_step (ERecall i epoch reason by' grace now) r q"
| update: "\<not> Terminal (rState r) \<Longrightarrow> lEpoch (rLease r) = epoch \<Longrightarrow> Held (rLease r) now1 \<Longrightarrow>
     mutate r = Inr w \<Longrightarrow> same_work r w \<Longrightarrow> rLease q = rLease w \<Longrightarrow> body q = body w \<Longrightarrow>
     lease_step (EUpdate i epoch mutate now1 now2) r q"
| release: "\<not> Terminal (rState r) \<Longrightarrow> lEpoch (rLease r) = epoch \<Longrightarrow> Held (rLease r) now1 \<Longrightarrow>
     release_edit now2 r = Inr w \<Longrightarrow> rLease q = rLease w \<Longrightarrow> body q = body w \<Longrightarrow>
     lease_step (ERelease i epoch now1 now2 now3) r q"
| set_intent: "\<not> Terminal (rState r) \<Longrightarrow> ValidWant want \<Longrightarrow> rLease q = rLease r \<Longrightarrow>
     body q = body (r\<lparr>rIntent := Some \<lparr>iWant = want, iBy = by', iAt = At now\<rparr>\<rparr>) \<Longrightarrow>
     rCheckpoint q = rCheckpoint r \<Longrightarrow>
     lease_step (ESetIntent i want by' now) r q"

inductive_cases lease_stepE: "lease_step e r q"
inductive_simps lease_step_claim: "lease_step (EClaim i owner ttl now) r q"
inductive_simps lease_step_renew: "lease_step (ERenew i epoch ttl now1 now2) r q"
inductive_simps lease_step_recall: "lease_step (ERecall i epoch reason by' grace now) r q"
inductive_simps lease_step_update: "lease_step (EUpdate i epoch mutate now1 now2) r q"
inductive_simps lease_step_release: "lease_step (ERelease i epoch now1 now2 now3) r q"
inductive_simps lease_step_intent: "lease_step (ESetIntent i want by' now) r q"

lemmas lease_step_simps = lease_step_claim lease_step_renew lease_step_recall lease_step_update
  lease_step_release lease_step_intent

section \<open>The refusals\<close>

definition write_refusal :: "int \<Rightarrow> time \<Rightarrow> Record \<Rightarrow> err option" where
  "write_refusal epoch now r =
     (if Terminal (rState r) then Some ErrTerminal
      else if lEpoch (rLease r) \<noteq> epoch then Some ErrStaleEpoch
      else if \<not> Held (rLease r) now then Some ErrLeaseExpiry
      else None)"

text \<open>The error a guard answers with, given the record stored under the target, if any.\<close>

fun refusal :: "event \<Rightarrow> Record option \<Rightarrow> err option" where
  "refusal (ERecall i epoch reason by' grace now) x =
     (if blank reason then Some ErrInvalid
      else case x of None \<Rightarrow> Some ErrNotFound | Some r \<Rightarrow> write_refusal epoch now r)"
| "refusal (ESetIntent i want by' now) x =
     (if \<not> ValidWant want then Some ErrInvalid
      else case x of
        None \<Rightarrow> Some ErrNotFound
      | Some r \<Rightarrow> if Terminal (rState r) then Some ErrTerminal else None)"
| "refusal (EClaim i owner ttl now) x =
     (case x of
        None \<Rightarrow> Some ErrNotFound
      | Some r \<Rightarrow> if Terminal (rState r) then Some ErrTerminal
                  else if taken (rLease r) owner now then Some ErrLeaseHeld else None)"
| "refusal (ERenew i epoch ttl now1 now2) x =
     (case x of
        None \<Rightarrow> Some ErrNotFound
      | Some r \<Rightarrow> if lEpoch (rLease r) \<noteq> epoch then Some ErrStaleEpoch
                  else if \<not> Held (rLease r) now1 then Some ErrLeaseExpiry else None)"
| "refusal (EUpdate i epoch mutate now1 now2) x =
     (case x of None \<Rightarrow> Some ErrNotFound | Some r \<Rightarrow> write_refusal epoch now1 r)"
| "refusal (ERelease i epoch now1 now2 now3) x =
     (case x of None \<Rightarrow> Some ErrNotFound | Some r \<Rightarrow> write_refusal epoch now1 r)"

lemma step_not_refused: "lease_step e r q \<Longrightarrow> refusal e (Some r) = None"
  by (cases rule: lease_step.cases)
    (auto simp: write_refusal_def recall_def split: if_splits)

section \<open>Runs of one record\<close>

text \<open>What a binding stores need not be, byte for byte, the record the step made: \<open>reread w q\<close> says that
  \<open>q\<close> is what comes back of \<open>w\<close>.\<close>

inductive read_run :: "(Record \<Rightarrow> Record \<Rightarrow> bool) \<Rightarrow> event list \<Rightarrow> Record \<Rightarrow> Record \<Rightarrow> bool" for reread where
  nil: "read_run reread [] r r"
| cons: "lease_step e r w \<Longrightarrow> reread w p \<Longrightarrow> read_run reread es p q \<Longrightarrow> read_run reread (e # es) r q"

inductive_simps read_run_nil [simp]: "read_run reread [] r q"
inductive_simps read_run_cons [simp]: "read_run reread (e # es) r q"

abbreviation lease_run :: "event list \<Rightarrow> Record \<Rightarrow> Record \<Rightarrow> bool" where
  "lease_run \<equiv> read_run (=)"

text \<open>A closure that leaves the epoch alone; the two this package itself uses are such.\<close>

definition tame :: "event \<Rightarrow> bool" where
  "tame e \<longleftrightarrow> (case e of
     EUpdate i epoch mutate now1 now2 \<Rightarrow> \<forall>r w. mutate r = Inr w \<longrightarrow> lEpoch (rLease w) = lEpoch (rLease r)
   | _ \<Rightarrow> True)"

definition is_claim :: "event \<Rightarrow> bool" where
  "is_claim e \<longleftrightarrow> (case e of EClaim _ _ _ _ \<Rightarrow> True | _ \<Rightarrow> False)"

lemma release_edit_lease:
  "release_edit now r = Inr w \<Longrightarrow> lEpoch (rLease w) = lEpoch (rLease r) \<and> same_work r w"
  by (auto simp: release_edit_def Let_def same_work_def)

lemma step_epoch:
  "lease_step e r q \<Longrightarrow> tame e \<Longrightarrow>
     lEpoch (rLease q) = (if is_claim e then wrap64 (lEpoch (rLease r) + 1) else lEpoch (rLease r))"
  by (cases rule: lease_step.cases)
    (auto simp: tame_def is_claim_def claimed_lease_def recall_deadline(3) dest: release_edit_lease)

lemma body_simps [simp]:
  "rID (body r) = rID r" "rKind (body r) = rKind r" "rSpec (body r) = rSpec r" "rCreatedAt (body r) = rCreatedAt r"
  "rEnvelope (body r) = rEnvelope r" "rState (body r) = rState r" "rIntent (body r) = rIntent r"
  "rExtensions (body r) = rExtensions r" "rDelegation (body r) = rDelegation r" "rProgress (body r) = rProgress r"
  "rRequires (body r) = rRequires r" "rError (body r) = rError r"
  by (simp_all add: body_def)

lemma body_fields:
  assumes "body q = body r"
  shows "rID q = rID r" "rKind q = rKind r" "rSpec q = rSpec r" "rCreatedAt q = rCreatedAt r"
    "rEnvelope q = rEnvelope r" "rState q = rState r" "rIntent q = rIntent r" "rExtensions q = rExtensions r"
    "rDelegation q = rDelegation r" "rProgress q = rProgress r"
  using arg_cong [OF assms, of rID] arg_cong [OF assms, of rKind] arg_cong [OF assms, of rSpec]
    arg_cong [OF assms, of rCreatedAt] arg_cong [OF assms, of rEnvelope] arg_cong [OF assms, of rState]
    arg_cong [OF assms, of rIntent] arg_cong [OF assms, of rExtensions] arg_cong [OF assms, of rDelegation]
    arg_cong [OF assms, of rProgress]
  by simp_all

lemma body_same_work:
  assumes "body q = body r"
  shows "same_work r q"
  using body_fields [OF assms] by (simp add: same_work_def)

lemma step_same_work: "lease_step e r q \<Longrightarrow> same_work r q"
proof (erule lease_stepE)
  fix owner now ttl i
  assume "body q = body (r\<lparr>rState := claimed_state (rState r)\<rparr>)"
  from body_same_work [OF this] show "same_work r q" by (simp add: same_work_def)
next
  fix want :: Want and by' and now :: time and i :: string
  assume "body q = body (r\<lparr>rIntent := Some \<lparr>iWant = want, iBy = by', iAt = now\<rparr>\<rparr>)"
  from body_same_work [OF this] show "same_work r q" by (simp add: same_work_def)
qed (blast intro: body_same_work same_work_trans dest: release_edit_lease)+


section \<open>The protocol on one record\<close>

definition claims :: "event list \<Rightarrow> nat" where
  "claims es = length (filter is_claim es)"

lemma claims_simps [simp]:
  "claims [] = 0" "claims (e # es) = (if is_claim e then Suc (claims es) else claims es)"
  by (simp_all add: claims_def)

lemma claims_le: "claims es \<le> length es"
  by (simp add: claims_def)

lemma run_epoch:
  assumes "\<And>w q. reread w q \<Longrightarrow> lEpoch (rLease q) = lEpoch (rLease w)"
  shows "read_run reread es r q \<Longrightarrow> list_all tame es \<Longrightarrow> int64 (lEpoch (rLease r)) \<Longrightarrow>
     lEpoch (rLease r) + int (claims es) \<le> max_int64 \<Longrightarrow>
     lEpoch (rLease q) = lEpoch (rLease r) + int (claims es)"
proof (induction rule: read_run.induct)
  case (cons e r w p es q)
  have "lEpoch (rLease p) = lEpoch (rLease r) + (if is_claim e then 1 else 0)"
  proof (cases "is_claim e")
    case True
    have "wrap64 (lEpoch (rLease r) + 1) = lEpoch (rLease r) + 1"
      using cons.prems True by (intro wrap64_succ) simp_all
    with True cons show ?thesis using step_epoch [OF cons.hyps(1)] assms [OF cons.hyps(2)] by simp
  next
    case False
    with cons show ?thesis using step_epoch [OF cons.hyps(1)] assms [OF cons.hyps(2)] by simp
  qed
  moreover have "int64 (lEpoch (rLease p))"
    using calculation cons.prems by (auto simp: int64_def split: if_splits)
  ultimately show ?case
    using cons.IH cons.prems by (auto split: if_splits)
qed simp

text \<open>A relation that every step and every reading back respects holds across a run.\<close>

lemma run_preserves:
  assumes "\<And>e r w. lease_step e r w \<Longrightarrow> kept r w" "\<And>w q. reread w q \<Longrightarrow> kept w q"
    and "\<And>r. kept r r" "\<And>r q p. kept r q \<Longrightarrow> kept q p \<Longrightarrow> kept r p"
  shows "read_run reread es r q \<Longrightarrow> kept r q"
  by (induction rule: read_run.induct) (blast intro: assms)+

text \<open>What a finished record keeps.\<close>

definition finished_like :: "Record \<Rightarrow> Record \<Rightarrow> bool" where
  "finished_like r q \<longleftrightarrow> body q = body r \<and> rCheckpoint q = rCheckpoint r
     \<and> rLease q = (rLease r)\<lparr>lExpiresAt := lExpiresAt (rLease q)\<rparr>"

lemma finished_step: "lease_step e r q \<Longrightarrow> Terminal (rState r) \<Longrightarrow> finished_like r q"
  by (erule lease_stepE) (auto simp: finished_like_def recall_def)

lemma finished_run: "lease_run es r q \<Longrightarrow> Terminal (rState r) \<Longrightarrow> finished_like r q"
proof (induction rule: read_run.induct)
  case (cons e r w p es q)
  have p: "finished_like r p" using cons.hyps(1,2) cons.prems finished_step by blast
  then have "Terminal (rState p)"
    using body_fields(6) [of p r] cons.prems by (simp add: finished_like_def)
  with cons.IH have q: "finished_like p q" by simp
  from p have "rLease p = (rLease r)\<lparr>lExpiresAt := lExpiresAt (rLease p)\<rparr>" by (simp add: finished_like_def)
  moreover from q have "rLease q = (rLease p)\<lparr>lExpiresAt := lExpiresAt (rLease q)\<rparr>" by (simp add: finished_like_def)
  ultimately have "rLease q = (rLease r)\<lparr>lExpiresAt := lExpiresAt (rLease q)\<rparr>"
    by (metis Lease.surjective Lease.update_convs(3))
  with p q show ?case by (simp add: finished_like_def)
qed (simp add: finished_like_def)

text \<open>What a finished record keeps in every binding, however its texts are spelled: the outcome, and
  of the lease everything but its end.\<close>

definition outcome_of :: "Record \<Rightarrow> state \<times> string \<times> Intent option \<times> Delegation option \<times> Progress \<times> string list" where
  "outcome_of r = (rState r, rError r, rIntent r, rDelegation r, rProgress r, rRequires r)"

definition ended_like :: "Record \<Rightarrow> Record \<Rightarrow> bool" where
  "ended_like r q \<longleftrightarrow> outcome_of q = outcome_of r \<and> rLease q = (rLease r)\<lparr>lExpiresAt := lExpiresAt (rLease q)\<rparr>"

lemma ended_like_trans: "ended_like r q \<Longrightarrow> ended_like q p \<Longrightarrow> ended_like r p"
  unfolding ended_like_def by (metis Lease.surjective Lease.update_convs(3))

lemma finished_ended: "finished_like r q \<Longrightarrow> ended_like r q"
  by (auto simp: finished_like_def ended_like_def outcome_of_def dest: body_fields arg_cong [of _ _ rError] arg_cong [of _ _ rRequires])

lemma ended_run:
  assumes "\<And>w q. reread w q \<Longrightarrow> ended_like w q"
  shows "read_run reread es r q \<Longrightarrow> Terminal (rState r) \<Longrightarrow> ended_like r q"
proof (induction rule: read_run.induct)
  case (cons e r w p es q)
  have p: "ended_like r p"
    using finished_ended [OF finished_step [OF cons.hyps(1) cons.prems]] assms [OF cons.hyps(2)] by (rule ended_like_trans)
  then have "Terminal (rState p)" using cons.prems by (simp add: ended_like_def outcome_of_def)
  from ended_like_trans [OF p cons.IH [OF this]] show ?case .
qed (simp add: ended_like_def)

section \<open>The interface\<close>

text \<open>What a caller must supply: an owner that says who, a deadline that is an instant, a closure
  that writes an int64 into an int64 field.\<close>

definition proper :: "event \<Rightarrow> bool" where
  "proper e \<longleftrightarrow> (case e of
     EClaim i owner ttl now \<Rightarrow> \<not> blank owner
   | ERecall i epoch reason by' grace now \<Rightarrow> At (now + grace) \<noteq> 0
   | EUpdate i epoch mutate now1 now2 \<Rightarrow>
       \<forall>r w. mutate r = Inr w \<longrightarrow> int64 (lEpoch (rLease r)) \<longrightarrow> int64 (lEpoch (rLease w))
   | _ \<Rightarrow> True)"

fun run_all :: "(event \<Rightarrow> 's \<Rightarrow> 's \<times> Record res) \<Rightarrow> event list \<Rightarrow> 's \<Rightarrow> 's" where
  "run_all run [] s = s"
| "run_all run (e # es) s = run_all run es (fst (run e s))"

text \<open>A write presents an epoch.\<close>

definition is_write :: "event \<Rightarrow> bool" where
  "is_write e \<longleftrightarrow> (case e of
     ERenew i epoch ttl now1 now2 \<Rightarrow> True
   | ERecall i epoch reason by' grace now \<Rightarrow> \<not> blank reason
   | ERelease i epoch now1 now2 now3 \<Rightarrow> True
   | EUpdate i epoch mutate now1 now2 \<Rightarrow> True
   | _ \<Rightarrow> False)"

lemma stale_refusal:
  "is_write e \<Longrightarrow> ev_epoch e \<noteq> lEpoch (rLease r) \<Longrightarrow> refusal e (Some r) \<in> {Some ErrStaleEpoch, Some ErrTerminal}"
  by (cases e) (auto simp: is_write_def write_refusal_def)

text \<open>The contract of a binding.  \<open>look\<close> is the record stored under an id, \<open>fits\<close> says which events the
  binding can be given, \<open>reread\<close> how what it stores relates to what the step made, \<open>kept\<close> what every
  step keeps of the job itself, \<open>excuse\<close> which errors are the binding's own.\<close>

locale lease_store =
  fixes look :: "'s \<Rightarrow> string \<Rightarrow> Record option"
    and run :: "event \<Rightarrow> 's \<Rightarrow> 's \<times> Record res"
    and ok :: "'s \<Rightarrow> bool"
    and fits :: "event \<Rightarrow> bool"
    and reread :: "Record \<Rightarrow> Record \<Rightarrow> bool"
    and kept :: "Record \<Rightarrow> Record \<Rightarrow> bool"
    and excuse :: "err \<Rightarrow> bool"
  assumes keeps_ok: "ok s \<Longrightarrow> fits e \<Longrightarrow> ok (fst (run e s))"
    and look_epoch: "ok s \<Longrightarrow> look s i = Some r \<Longrightarrow> int64 (lEpoch (rLease r))"
    and refused_still: "ok s \<Longrightarrow> fits e \<Longrightarrow> run e s = (s', Inl x) \<Longrightarrow> look s' = look s"
    and accepted_step: "ok s \<Longrightarrow> fits e \<Longrightarrow> run e s = (s', Inr p) \<Longrightarrow>
      \<exists>r w q. look s (target e) = Some r \<and> lease_step e r w \<and> reread w q \<and> rLease p = rLease q
        \<and> look s' = (look s)(target e \<mapsto> q)"
    and guarded: "ok s \<Longrightarrow> fits e \<Longrightarrow> look s (target e) = Some r \<Longrightarrow> refusal e (Some r) = Some x \<Longrightarrow>
      \<exists>y. snd (run e s) = Inl y \<and> (y = x \<or> excuse y)"
    and reread_ended: "reread w q \<Longrightarrow> ended_like w q"
    and reread_lease: "reread w q \<Longrightarrow> rLease q = rLease w"
    and reread_kept: "reread w q \<Longrightarrow> kept w q"
    and work_kept: "same_work r w \<Longrightarrow> kept r w"
    and kept_trans: "kept r q \<Longrightarrow> kept q p \<Longrightarrow> kept r p"
begin

lemma run_all_keeps_ok: "ok s \<Longrightarrow> list_all fits es \<Longrightarrow> ok (run_all run es s)"
  by (induction es arbitrary: s) (simp_all add: keeps_ok)

text \<open>Every run of the store is, seen from one record, a run of the protocol.\<close>

lemma trace:
  "ok s \<Longrightarrow> list_all fits es \<Longrightarrow> look s i = Some r \<Longrightarrow>
     \<exists>fs q. look (run_all run es s) i = Some q \<and> read_run reread fs r q \<and> set fs \<subseteq> set es \<and> claims fs \<le> claims es"
proof (induction es arbitrary: s r)
  case (Cons e es)
  obtain s' res where run: "run e s = (s', res)" by fastforce
  have ok': "ok s'" using keeps_ok [OF Cons.prems(1), of e] Cons.prems(2) run by simp
  have e: "fits e" "list_all fits es" using Cons.prems(2) by simp_all
  show ?case
  proof (cases res)
    case (Inl x)
    then have "look s' i = Some r"
      using refused_still [OF Cons.prems(1) e(1)] run Cons.prems(3) by auto
    from Cons.IH [OF ok' e(2) this] obtain fs t where "look (run_all run es s') i = Some t"
      "read_run reread fs r t" "set fs \<subseteq> set es" "claims fs \<le> claims es" by blast
    with run show ?thesis by (intro exI [of _ fs] exI [of _ t]) auto
  next
    case (Inr a)
    obtain p w q where p: "look s (target e) = Some p" "lease_step e p w" "reread w q" "look s' = (look s)(target e \<mapsto> q)"
      using accepted_step [OF Cons.prems(1) e(1)] run Inr by blast
    show ?thesis
    proof (cases "target e = i")
      case True
      with p Cons.prems have "look s' i = Some q" "p = r" by auto
      from Cons.IH [OF ok' e(2) this(1)] obtain fs t where "look (run_all run es s') i = Some t"
        "read_run reread fs q t" "set fs \<subseteq> set es" "claims fs \<le> claims es" by blast
      with p \<open>p = r\<close> run show ?thesis
        by (intro exI [of _ "e # fs"] exI [of _ t]) auto
    next
      case False
      with p Cons.prems have "look s' i = Some r" by auto
      from Cons.IH [OF ok' e(2) this] obtain fs t where "look (run_all run es s') i = Some t"
      "read_run reread fs r t" "set fs \<subseteq> set es" "claims fs \<le> claims es" by blast
    with run show ?thesis by (intro exI [of _ fs] exI [of _ t]) auto
    qed
  qed
qed auto

lemma run_kept: "kept r r \<Longrightarrow> read_run reread es r q \<Longrightarrow> kept r q"
  using run_preserves [of kept reread es r q] step_same_work work_kept reread_kept kept_trans same_work_refl by metis

text \<open>Epochs only increase, by one for every claim that succeeds, and the job stays the one it was.\<close>

lemma epoch_mono:
  assumes "ok s" "list_all fits es" "list_all tame es" "look s i = Some r"
    and "lEpoch (rLease r) + int (claims es) \<le> max_int64"
  shows "\<exists>q. look (run_all run es s) i = Some q \<and> lEpoch (rLease r) \<le> lEpoch (rLease q)
    \<and> lEpoch (rLease q) \<le> lEpoch (rLease r) + int (claims es) \<and> kept r q"
proof -
  obtain fs q where q: "look (run_all run es s) i = Some q" "read_run reread fs r q" "set fs \<subseteq> set es" "claims fs \<le> claims es"
    using trace [OF assms(1,2,4)] by blast
  have "list_all tame fs" using assms(3) q(3) by (auto simp: list_all_iff)
  moreover have "lEpoch (rLease q') = lEpoch (rLease w)" if "reread w q'" for w q'
    using reread_lease [OF that] by simp
  ultimately have "lEpoch (rLease q) = lEpoch (rLease r) + int (claims fs)"
    using run_epoch [of reread fs r q] q(2) look_epoch [OF assms(1,4)] assms(5) q(4) by simp
  moreover have "kept r q" using run_kept [OF work_kept q(2)] by simp
  ultimately show ?thesis using q by auto
qed

text \<open>Two claims never give the same epoch.\<close>

lemma claims_distinct:
  assumes "ok s" "fits (EClaim i owner ttl now)" "run (EClaim i owner ttl now) s = (s1, Inr q1)"
    and "list_all fits es" "list_all tame es"
    and "fits (EClaim i owner' ttl' now')" "run (EClaim i owner' ttl' now') (run_all run es s1) = (s2, Inr q2)"
    and "lEpoch (rLease q1) + int (claims es) < max_int64"
  shows "lEpoch (rLease q1) < lEpoch (rLease q2)"
proof -
  have ok1: "ok s1" using keeps_ok [OF assms(1,2)] assms(3) by simp
  obtain t1 where l1: "look s1 i = Some t1" "rLease q1 = rLease t1" using accepted_step [OF assms(1-3)] by auto
  obtain r where r: "look (run_all run es s1) i = Some r" "lEpoch (rLease q1) \<le> lEpoch (rLease r)"
    "lEpoch (rLease r) \<le> lEpoch (rLease q1) + int (claims es)"
    using epoch_mono [OF ok1 assms(4,5) l1(1)] l1(2) assms(8) by auto
  have okr: "ok (run_all run es s1)" using run_all_keeps_ok [OF ok1 assms(4)] .
  have "lEpoch (rLease q2) = wrap64 (lEpoch (rLease r) + 1)"
    using accepted_step [OF okr assms(6,7)] r(1) by (auto simp: lease_step_claim claimed_lease_def dest!: reread_lease)
  moreover have "wrap64 (lEpoch (rLease r) + 1) = lEpoch (rLease r) + 1"
    using look_epoch [OF okr r(1)] r(3) assms(8) by (intro wrap64_succ) simp_all
  ultimately show ?thesis using r(2) by simp
qed

lemma refused_run:
  assumes "ok s" "fits e" "look s (target e) = Some r" "refusal e (Some r) \<in> Some ` xs"
  shows "\<exists>s' y. run e s = (s', Inl y) \<and> (y \<in> xs \<or> excuse y) \<and> look s' = look s"
proof -
  obtain x where x: "x \<in> xs" "refusal e (Some r) = Some x" using assms(4) by auto
  then obtain y where "snd (run e s) = Inl y" "y = x \<or> excuse y" using guarded [OF assms(1-3)] by blast
  with x refused_still [OF assms(1,2)] show ?thesis by (metis prod.collapse)
qed

text \<open>Fencing: once a job has been claimed at an epoch, no write under an older epoch lands.\<close>

lemma fencing:
  assumes "ok s" "look s i = Some q" "list_all fits es" "list_all tame es"
    and "lEpoch (rLease q) + int (claims es) \<le> max_int64"
    and "is_write w" "fits w" "target w = i" "ev_epoch w < lEpoch (rLease q)"
  shows "\<exists>s' x. run w (run_all run es s) = (s', Inl x) \<and> (x \<in> {ErrStaleEpoch, ErrTerminal} \<or> excuse x)
    \<and> look s' = look (run_all run es s)"
proof -
  obtain r where r: "look (run_all run es s) i = Some r" "lEpoch (rLease q) \<le> lEpoch (rLease r)"
    using epoch_mono [OF assms(1,3,4,2,5)] by blast
  then have "ev_epoch w \<noteq> lEpoch (rLease r)" using assms(9) by simp
  then have "refusal w (Some r) \<in> Some ` {ErrStaleEpoch, ErrTerminal}"
    using stale_refusal [OF assms(6)] by simp
  with refused_run [OF run_all_keeps_ok [OF assms(1,3)] assms(7)] r(1) assms(8) show ?thesis by blast
qed

text \<open>Finished work stays finished.\<close>

lemma stays_ended:
  assumes "ok s" "list_all fits es" "look s i = Some r" "Terminal (rState r)"
  shows "\<exists>q. look (run_all run es s) i = Some q \<and> ended_like r q \<and> kept r q"
  using trace [OF assms(1-3)] ended_run [of reread, OF reread_ended _ assms(4)] run_kept [OF work_kept] same_work_refl by metis

text \<open>While somebody holds a job nobody else can claim it.\<close>

lemma claim_excluded:
  assumes "ok s" "fits (EClaim i owner ttl now)" "look s i = Some r" "Held (rLease r) now" "owner \<noteq> lOwner (rLease r)"
  shows "\<exists>s' x. run (EClaim i owner ttl now) s = (s', Inl x) \<and> (x \<in> {ErrLeaseHeld, ErrTerminal} \<or> excuse x)
    \<and> look s' = look s"
proof -
  have "refusal (EClaim i owner ttl now) (Some r) \<in> Some ` {ErrLeaseHeld, ErrTerminal}"
    using assms by (auto simp: taken_def)
  with refused_run [OF assms(1,2), of r "{ErrLeaseHeld, ErrTerminal}"] assms(3) show ?thesis by auto
qed

end

text \<open>A binding that keeps the records themselves, refuses exactly as the interface says and has no
  errors of its own.\<close>

locale job_store =
  fixes look :: "'s \<Rightarrow> string \<Rightarrow> Record option"
    and run :: "event \<Rightarrow> 's \<Rightarrow> 's \<times> Record res"
    and ok :: "'s \<Rightarrow> bool"
  assumes run_ok: "ok s \<Longrightarrow> proper e \<Longrightarrow> ok (fst (run e s))"
    and ok_epoch: "ok s \<Longrightarrow> look s i = Some r \<Longrightarrow> int64 (lEpoch (rLease r))"
    and run_Inl: "ok s \<Longrightarrow> proper e \<Longrightarrow> run e s = (s', Inl x) \<Longrightarrow> look s' = look s"
    and run_Inr: "ok s \<Longrightarrow> proper e \<Longrightarrow> run e s = (s', Inr q) \<Longrightarrow>
      \<exists>r. look s (target e) = Some r \<and> lease_step e r q \<and> look s' = (look s)(target e \<mapsto> q)"
    and run_refuses: "ok s \<Longrightarrow> proper e \<Longrightarrow> refusal e (look s (target e)) = Some x \<Longrightarrow> snd (run e s) = Inl x"

sublocale job_store \<subseteq> lease: lease_store look run ok proper "(=)" same_work "\<lambda>_. False"
proof
  show "\<exists>r w q. look s (target e) = Some r \<and> lease_step e r w \<and> w = q \<and> rLease p = rLease q
      \<and> look s' = (look s)(target e \<mapsto> q)"
    if "ok s" "proper e" "run e s = (s', Inr p)" for s e s' p
    using run_Inr [OF that] by blast
  show "\<exists>y. snd (run e s) = Inl y \<and> (y = x \<or> False)"
    if "ok s" "proper e" "look s (target e) = Some r" "refusal e (Some r) = Some x" for s e r x
    using run_refuses [OF that(1,2)] that(3,4) by simp
qed (auto intro: run_ok ok_epoch run_Inl same_work_trans simp: ended_like_def)

context job_store
begin

lemmas run_all_ok = lease.run_all_keeps_ok
lemmas trace = lease.trace

text \<open>Here finished work keeps everything but its declaration and the end of its lease.\<close>

lemma finished:
  assumes "ok s" "list_all proper es" "look s i = Some r" "Terminal (rState r)"
  shows "\<exists>q. look (run_all run es s) i = Some q \<and> finished_like r q"
  using trace [OF assms(1-3)] finished_run assms(4) by blast

end

end
