(* ===== verification/MemoryLease.thy ===== *)
theory MemoryLease
  imports MemoryStore StoreSpec
begin

text \<open>
  The memory binding meets the contract of theory StoreSpec: its invariant, the
  interpretation of the locale, and the properties of the lease protocol for this binding.
\<close>

section \<open>Validation, part by part\<close>

lemma Validate_parts:
  "Validate r = Inr () \<longleftrightarrow>
     validate_content r = Inr () \<and> (\<forall>i. rIntent r = Some i \<longrightarrow> ValidWant (iWant i))
     \<and> \<not> blank (rID r) \<and> \<not> blank (rKind r) \<and> ValidState (rState r)
     \<and> (\<forall>e. rEnvelope r = Some e \<longrightarrow> validate_envelope e = Inr ())
     \<and> rSpec r \<noteq> [] \<and> Valid (rSpec r) \<and> TrimSpace (rSpec r) \<noteq> ''null'' \<and> refuseDuplicateNames (rSpec r) = Inr ()
     \<and> (rCheckpoint r \<noteq> [] \<longrightarrow> Valid (rCheckpoint r)) \<and> refuseDuplicateNames (rCheckpoint r) = Inr ()
     \<and> 0 \<le> pDone (rProgress r) \<and> 0 \<le> pTotal (rProgress r)
     \<and> validate_extensions (rExtensions r) = Inr () \<and> validate_step (pStep (rProgress r)) = Inr ()
     \<and> validate_delegation (rDelegation r) = Inr () \<and> validate_recall (lRecall (rLease r)) = Inr ()"
  by (auto simp: Validate_def res_simps not_less split: option.splits if_splits)

text \<open>Describing a record whose criticals are known makes its declaration pass.\<close>

definition known_critical :: "Record \<Rightarrow> bool" where
  "known_critical r \<longleftrightarrow> (\<forall>n \<in> set (rCritical r). n \<in> set neverCritical \<or> n \<in> set known)"

lemma validate_content_describe: "known_critical r \<Longrightarrow> validate_content (describe r) = Inr ()"
proof -
  assume k: "known_critical r"
  have "set (rCritical (describe r)) \<subseteq> set (rContent (describe r)) \<inter> set known"
    using k derived_known [of r]
    by (auto simp: describe_eq set_keep_critical derived_critical_def known_critical_def)
  moreover have "rContent (describe r) \<noteq> []"
    by (simp add: describe_eq derived_def)
  ultimately show ?thesis by (auto simp: validate_content_ok)
qed

lemma Validate_known: "Validate r = Inr () \<Longrightarrow> known_critical r"
  by (auto simp: Validate_parts validate_content_ok known_critical_def)

section \<open>The invariant\<close>

definition mem_ok :: "mem \<Rightarrow> bool" where
  "mem_ok m \<longleftrightarrow> gomap_wf m
     \<and> (\<forall>i r. map_of m i = Some r \<longrightarrow> rID r = i \<and> Validate r = Inr () \<and> int64 (lEpoch (rLease r)))"

definition mem_run :: "event \<Rightarrow> mem \<Rightarrow> mem \<times> Record res" where
  "mem_run e = (case e of
     EClaim i owner ttl now \<Rightarrow> mem_Claim i owner ttl now
   | ERenew i epoch ttl now1 now2 \<Rightarrow> mem_Renew i epoch ttl now1 now2
   | ERecall i epoch reason by' grace now \<Rightarrow> mem_Recall i epoch reason by' grace now
   | ERelease i epoch now1 now2 now3 \<Rightarrow> mem_Update i epoch (release_edit now2) now1 now3
   | EUpdate i epoch mutate now1 now2 \<Rightarrow> mem_Update i epoch mutate now1 now2
   | ESetIntent i want by' now \<Rightarrow> mem_SetIntent i want by' now)"

lemma mem_Release_run: "fst (mem_Release i epoch now1 now2 now3 m) = fst (mem_run (ERelease i epoch now1 now2 now3) m)"
  by (simp add: mem_Release_def mem_run_def case_prod_beta Let_def)

text \<open>The edit of each operation, and the shape they share.\<close>

lemma on_record_cases:
  assumes "on_record i edit m = (m', res)"
  obtains "map_of m i = None" "m' = m" "res = Inl ErrNotFound"
  | r x where "map_of m i = Some r" "edit r = Inl x" "m' = m" "res = Inl x"
  | r q where "map_of m i = Some r" "edit r = Inr q" "m' = gomap_put i q m" "res = Inr q"
proof (cases "map_of m i")
  case None
  with assms have "m' = m" "res = Inl ErrNotFound" by (simp_all add: on_record_def)
  with None show ?thesis by (rule that(1))
next
  case (Some r)
  show ?thesis
  proof (cases "edit r")
    case (Inl x)
    with Some assms have "m' = m" "res = Inl x" by (simp_all add: on_record_def)
    with Some Inl show ?thesis by (rule that(2))
  next
    case (Inr q)
    with Some assms have "m' = gomap_put i q m" "res = Inr q" by (simp_all add: on_record_def)
    with Some Inr show ?thesis by (rule that(3))
  qed
qed

lemma mem_ok_put:
  "mem_ok m \<Longrightarrow> rID q = i \<Longrightarrow> Validate q = Inr () \<Longrightarrow> int64 (lEpoch (rLease q)) \<Longrightarrow> mem_ok (gomap_put i q m)"
  by (auto simp: mem_ok_def gomap_wf_put map_of_gomap_put)

lemma describe_body [simp]: "body (describe r) = body r"
  by (simp add: body_def describe_eq)

definition good_edit :: "event \<Rightarrow> (Record \<Rightarrow> Record res) \<Rightarrow> bool" where
  "good_edit e edit \<longleftrightarrow>
     (\<forall>r x. refusal e (Some r) = Some x \<longrightarrow> edit r = Inl x)
   \<and> (\<forall>r q. Validate r = Inr () \<longrightarrow> int64 (lEpoch (rLease r)) \<longrightarrow> edit r = Inr q \<longrightarrow>
        lease_step e r q \<and> Validate q = Inr () \<and> int64 (lEpoch (rLease q)))"

lemma good_edit_run:
  assumes "good_edit e edit" "mem_ok m" "on_record (target e) edit m = (m', res)"
    and "refusal e None = Some ErrNotFound"
  shows "mem_ok m' \<and> (case res of
       Inl x \<Rightarrow> m' = m
     | Inr q \<Rightarrow> \<exists>r. map_of m (target e) = Some r \<and> lease_step e r q \<and> map_of m' = (map_of m)(target e \<mapsto> q))
   \<and> (\<forall>x. refusal e (map_of m (target e)) = Some x \<longrightarrow> res = Inl x)"
  using assms(3)
proof (cases rule: on_record_cases)
  case 1
  with assms(2,4) show ?thesis by simp
next
  case (2 r x)
  have "\<forall>y. refusal e (Some r) = Some y \<longrightarrow> Inl x = (Inl y :: Record res)"
    using assms(1) 2(2) unfolding good_edit_def by (metis sum.inject(1))
  with 2 assms(2) show ?thesis by simp
next
  case (3 r q)
  have r: "Validate r = Inr ()" "int64 (lEpoch (rLease r))" "rID r = target e"
    using assms(2) 3(1) unfolding mem_ok_def by blast+
  have q: "lease_step e r q" "Validate q = Inr ()" "int64 (lEpoch (rLease q))"
    using assms(1) r(1,2) 3(2) unfolding good_edit_def by blast+
  have "rID q = target e"
    using step_same_work [OF q(1)] r by (simp add: same_work_def)
  then have "mem_ok m'"
    using mem_ok_put [OF assms(2) _ q(2,3)] 3(3) by simp
  moreover have "refusal e (Some r) = None"
    using q(1) by (rule step_not_refused)
  moreover have "map_of m' = (map_of m)(target e \<mapsto> q)"
    using 3 by (simp add: map_of_gomap_put)
  ultimately show ?thesis
    using 3(1,4) q(1) by simp
qed

section \<open>Each operation makes its step\<close>

text \<open>How an edit that changes only read-mostly fields keeps a record valid.\<close>

lemma valid_describe:
  assumes "Validate r = Inr ()" "rCritical q = rCritical r" "rCheckpoint q = rCheckpoint r" "rID q = rID r"
    "rKind q = rKind r" "rEnvelope q = rEnvelope r" "rSpec q = rSpec r" "rProgress q = rProgress r"
    "rExtensions q = rExtensions r" "rDelegation q = rDelegation r"
    and "ValidState (rState q)" "\<And>i. rIntent q = Some i \<Longrightarrow> ValidWant (iWant i)"
      "validate_recall (lRecall (rLease q)) = Inr ()"
  shows "Validate (describe q) = Inr ()"
proof -
  have "known_critical q" using Validate_known [OF assms(1)] assms(2) by (simp add: known_critical_def)
  then have c: "validate_content (describe q) = Inr ()" by (rule validate_content_describe)
  have w: "\<forall>i. rIntent q = Some i \<longrightarrow> ValidWant (iWant i)" using assms(12) by blast
  show ?thesis
    using assms(1) c w assms(11,13) unfolding Validate_parts describe_keeps assms(2-10)
    by - (elim conjE, intro conjI; assumption)
qed

lemma Validate_fields:
  assumes "Validate r = Inr ()"
  shows "ValidState (rState r)" "\<And>i. rIntent r = Some i \<Longrightarrow> ValidWant (iWant i)"
    "validate_recall (lRecall (rLease r)) = Inr ()"
  using assms unfolding Validate_parts by blast+

lemma claim_good: "good_edit (EClaim i owner ttl now) (mem_claim_edit owner ttl now)"
  unfolding good_edit_def
proof (intro conjI allI impI)
  fix r q
  assume r: "Validate r = Inr ()" and e: "mem_claim_edit owner ttl now r = Inr q"
  let ?w = "r\<lparr>rLease := claimed_lease owner ttl now (rLease r), rState := claimed_state (rState r), rUpdatedAt := At now\<rparr>"
  have g: "\<not> Terminal (rState r)" "\<not> taken (rLease r) owner now"
    using e by (auto simp: mem_claim_edit_def taken_def split: if_splits)
  have q: "q = describe ?w"
    using e by (auto simp: mem_claim_edit_def Let_def claimed_lease_def claimed_state_def split: if_splits)
  show "Validate q = Inr ()"
    unfolding q using r Validate_fields [OF r]
    by (intro valid_describe [of r ?w])
      (auto simp: claimed_lease_def claimed_state_def ValidState_def validate_recall_def)
  show "lease_step (EClaim i owner ttl now) r q"
    using g by (simp add: lease_step_claim q describe_keeps) (simp add: body_def)
  show "int64 (lEpoch (rLease q))"
    by (simp add: q describe_keeps claimed_lease_def int64_wrap64)
qed (auto simp: mem_claim_edit_def taken_def split: if_splits)

lemma renew_good: "good_edit (ERenew i epoch ttl now1 now2) (mem_renew_edit epoch ttl now1 now2)"
proof -
  have "Validate (r\<lparr>rLease := (rLease r)\<lparr>lExpiresAt := t\<rparr>\<rparr>) = Validate r" for r t
    by (rule Validate_cong) (simp_all add: validate_content_def Let_def)
  then show ?thesis
    by (auto simp: good_edit_def mem_renew_edit_def lease_step_renew body_def split: if_splits)
qed

lemma recall_good:
  assumes "At (now + grace) \<noteq> 0" "\<not> blank reason"
  shows "good_edit (ERecall i epoch reason by' grace now) (mem_recall_edit epoch reason by' grace now)"
  unfolding good_edit_def
proof (intro conjI allI impI)
  fix r q
  assume r: "Validate r = Inr ()" "int64 (lEpoch (rLease r))" and e: "mem_recall_edit epoch reason by' grace now r = Inr q"
  obtain w where w: "recall r now epoch reason by' grace = Inr w" "q = describe w"
    using e by (auto simp: mem_recall_edit_def rbind_Inr_iff)
  obtain L where L: "w = r\<lparr>rLease := L, rUpdatedAt := At now\<rparr>"
    using w(1) by (auto simp: recall_def Let_def split: if_splits)
  have lease: "lRecall L = Some \<lparr>rcReason = reason, rcBy = by', rcAt = At now, rcUntil = At (now + grace)\<rparr>"
    "lEpoch L = lEpoch (rLease r)"
    using recall_deadline(3,5) [OF w(1)] by (simp_all add: L)
  show "Validate q = Inr ()"
    unfolding w(2) using r assms Validate_fields [OF r(1)]
    by (intro valid_describe [of r w]) (auto simp: L lease validate_recall_def IsZero_def)
  have "body q = body r" "rCheckpoint q = rCheckpoint r" "rLease q = rLease w"
    by (simp_all add: w(2) L describe_keeps) (simp add: body_def)
  then show "lease_step (ERecall i epoch reason by' grace now) r q"
    using w(1) assms(2) by (auto simp: lease_step_recall)
  show "int64 (lEpoch (rLease q))"
    using r(2) by (simp add: w(2) describe_keeps L lease)
next
  fix r x assume "refusal (ERecall i epoch reason by' grace now) (Some r) = Some x"
  then show "mem_recall_edit epoch reason by' grace now r = Inl x"
    using assms(2) by (auto simp: mem_recall_edit_def write_refusal_def recall_def split: if_splits)
qed

lemma update_good:
  assumes "\<forall>r w. mutate r = Inr w \<longrightarrow> int64 (lEpoch (rLease r)) \<longrightarrow> int64 (lEpoch (rLease w))"
    and "\<And>r. refusal e (Some r) = write_refusal epoch now1 r"
    and "\<And>r w q. write_refusal epoch now1 r = None \<Longrightarrow> mutate r = Inr w \<Longrightarrow> same_work r w \<Longrightarrow>
        rLease q = rLease w \<Longrightarrow> body q = body w \<Longrightarrow> lease_step e r q"
  shows "good_edit e (mem_update_edit epoch mutate now1 now2)"
  unfolding good_edit_def
proof (intro conjI allI impI)
  fix r q
  assume r: "Validate r = Inr ()" "int64 (lEpoch (rLease r))" and e: "mem_update_edit epoch mutate now1 now2 r = Inr q"
  then obtain w where w: "write_refusal epoch now1 r = None" "mutate r = Inr w" "same_work r w"
    "q = describe (w\<lparr>rUpdatedAt := At now2\<rparr>)" "Validate q = Inr ()"
    by (auto simp: mem_update_edit_def write_refusal_def unmoved_iff rbind_Inr_iff Let_def split: if_splits)
  have "body q = body w" "rLease q = rLease w"
    by (simp_all add: w(4) describe_keeps) (simp add: body_def)
  then show "lease_step e r q" "Validate q = Inr ()" "int64 (lEpoch (rLease q))"
    using assms(1,3) w r by auto
next
  fix r x assume "refusal e (Some r) = Some x"
  then show "mem_update_edit epoch mutate now1 now2 r = Inl x"
    unfolding assms(2) by (auto simp: mem_update_edit_def write_refusal_def split: if_splits)
qed

lemma intent_good:
  assumes "ValidWant want"
  shows "good_edit (ESetIntent i want by' now) (mem_intent_edit want by' now)"
  unfolding good_edit_def
proof (intro conjI allI impI)
  fix r q
  assume r: "Validate r = Inr ()" "int64 (lEpoch (rLease r))" and e: "mem_intent_edit want by' now r = Inr q"
  let ?w = "r\<lparr>rIntent := Some \<lparr>iWant = want, iBy = by', iAt = At now\<rparr>, rUpdatedAt := At now\<rparr>"
  have q: "\<not> Terminal (rState r)" "q = describe ?w"
    using e by (auto simp: mem_intent_edit_def split: if_splits)
  show "Validate q = Inr ()"
    unfolding q(2) using r(1) assms Validate_fields [OF r(1)]
    by (intro valid_describe [of r ?w]) auto
  show "lease_step (ESetIntent i want by' now) r q"
    using q(1) assms by (simp add: lease_step_intent q(2) describe_keeps) (simp add: body_def)
  show "int64 (lEpoch (rLease q))" using r(2) by (simp add: q(2) describe_keeps)
qed (use assms in \<open>auto simp: mem_intent_edit_def split: if_splits\<close>)

section \<open>The interpretation\<close>

lemma mem_run_props:
  assumes "mem_ok m" "proper e" "mem_run e m = (m', res)"
  shows "mem_ok m' \<and> (case res of
       Inl x \<Rightarrow> m' = m
     | Inr q \<Rightarrow> \<exists>r. map_of m (target e) = Some r \<and> lease_step e r q \<and> map_of m' = (map_of m)(target e \<mapsto> q))
   \<and> (\<forall>x. refusal e (map_of m (target e)) = Some x \<longrightarrow> res = Inl x)"
proof -
  have run: "mem_ok m' \<and> (case res of
       Inl x \<Rightarrow> m' = m
     | Inr q \<Rightarrow> \<exists>r. map_of m (target e) = Some r \<and> lease_step e r q \<and> map_of m' = (map_of m)(target e \<mapsto> q))
   \<and> (\<forall>x. refusal e (map_of m (target e)) = Some x \<longrightarrow> res = Inl x)"
    if "good_edit e edit" "mem_run e m = on_record (target e) edit m" "refusal e None = Some ErrNotFound" for edit
  proof -
    have "on_record (target e) edit m = (m', res)" using that(2) assms(3) by simp
    from good_edit_run [OF that(1) assms(1) this] that(3) show ?thesis by simp
  qed
  show ?thesis
  proof (cases e)
    case (EClaim i owner ttl now)
    then show ?thesis by (intro run [OF claim_good [of i owner ttl now, folded EClaim]]) (simp_all add: mem_run_def mem_Claim_def)
  next
    case (ERenew i epoch ttl now1 now2)
    then show ?thesis by (intro run [OF renew_good [of i epoch ttl now1 now2, folded ERenew]]) (simp_all add: mem_run_def mem_Renew_def)
  next
    case (ERecall i epoch reason by' grace now)
    show ?thesis
    proof (cases "blank reason")
      case True
      with assms ERecall show ?thesis by (auto simp: mem_run_def mem_Recall_def)
    next
      case False
      have "At (now + grace) \<noteq> 0" using assms(2) by (simp add: ERecall proper_def)
      with False ERecall show ?thesis
        by (intro run [OF recall_good [of now grace reason i epoch by', folded ERecall]]) (simp_all add: mem_run_def mem_Recall_def)
    qed
  next
    case (ERelease i epoch now1 now2 now3)
    have "good_edit e (mem_update_edit epoch (release_edit now2) now1 now3)"
      by (rule update_good)
        (auto simp: ERelease lease_step_release write_refusal_def dest!: release_edit_lease split: if_splits)
    then show ?thesis by (rule run) (simp_all add: ERelease mem_run_def mem_Update_def)
  next
    case (EUpdate i epoch mutate now1 now2)
    have "good_edit e (mem_update_edit epoch mutate now1 now2)"
      by (rule update_good)
        (use assms(2) in \<open>auto simp: EUpdate lease_step_update write_refusal_def proper_def split: if_splits\<close>)
    then show ?thesis by (rule run) (simp_all add: EUpdate mem_run_def mem_Update_def)
  next
    case (ESetIntent i want by' now)
    show ?thesis
    proof (cases "ValidWant want")
      case False
      with assms ESetIntent show ?thesis by (auto simp: mem_run_def mem_SetIntent_def)
    next
      case True
      then show ?thesis
        by (intro run [OF intent_good [of want i by' now, folded ESetIntent]]) (simp_all add: ESetIntent mem_run_def mem_SetIntent_def)
    qed
  qed
qed

interpretation mem: job_store map_of mem_run mem_ok
proof
  fix s e
  assume ok: "mem_ok s" and p: "proper e"
  obtain s1 res1 where run1: "mem_run e s = (s1, res1)" by fastforce
  note props = mem_run_props [OF ok p run1]
  show "mem_ok (fst (mem_run e s))" using props run1 by simp
  show "map_of s' = map_of s" if "mem_run e s = (s', Inl x)" for s' x
    using mem_run_props [OF ok p that] by simp
  show "\<exists>r. map_of s (target e) = Some r \<and> lease_step e r q \<and> map_of s' = (map_of s)(target e \<mapsto> q)"
    if "mem_run e s = (s', Inr q)" for s' q
    using mem_run_props [OF ok p that] by simp
  show "snd (mem_run e s) = Inl x" if "refusal e (map_of s (target e)) = Some x" for x
    using props run1 that by simp
qed (auto simp: mem_ok_def)

section \<open>Submitting\<close>

lemma mem_ok_empty: "mem_ok []"
  by (simp add: mem_ok_def gomap_wf_def)

text \<open>The record \<open>Submit\<close> stores: what it was given, named, declared, pending and stamped.\<close>

definition submitted :: "string \<Rightarrow> time \<Rightarrow> Record \<Rightarrow> Record" where
  "submitted i now r =
     (let q = describe r\<lparr>rID := i\<rparr>;
          q = (if rState r = StateOther [] then q\<lparr>rState := StatePending\<rparr> else q)
      in q\<lparr>rCreatedAt := At now, rUpdatedAt := At now, rProgress := (rProgress r)\<lparr>pUpdatedAt := At now\<rparr>\<rparr>)"

lemma mem_Submit_eq:
  "mem_Submit newid now r m =
     (let i = (if rID r = [] then newid else rID r); q = submitted i now r
      in if map_of m i \<noteq> None then (m, Inl ErrInvalid)
         else case Validate q of Inl e \<Rightarrow> (m, Inl e) | Inr _ \<Rightarrow> (gomap_put i q m, Inr i))"
proof -
  have d: "describe (r\<lparr>rID := i\<rparr>) = describe r\<lparr>rID := i\<rparr>" for i
    by (simp add: describe_eq derived_def derived_critical_def)
  then show ?thesis
  proof (cases "rID r = []")
    case True
    with d [of newid] show ?thesis
      by (simp add: mem_Submit_def submitted_def Let_def describe_keeps split: sum.split)
  next
    case False
    have e: "describe r\<lparr>rID := rID r\<rparr> = describe r" by (simp add: describe_eq)
    from False show ?thesis
      by (simp add: e mem_Submit_def submitted_def Let_def describe_keeps split: sum.split)
  qed
qed

lemma submitted_simps [simp]:
  "rID (submitted i now r) = i" "rLease (submitted i now r) = rLease r" "rCreatedAt (submitted i now r) = At now"
  "rUpdatedAt (submitted i now r) = At now" "rSpec (submitted i now r) = rSpec r"
  by (simp_all add: submitted_def Let_def describe_keeps)

text \<open>C35: \<open>Submit\<close> stores a new valid record under the id asked for or a fresh one, declared, pending
  when no state was given and stamped with the time, and answers that id; it never replaces a
  record, and a refusal changes nothing.  The store's invariant is kept either way.\<close>

theorem mem_Submit_correct:
  assumes "mem_ok m" "int64 (lEpoch (rLease r))"
  shows "case mem_Submit newid now r m of
      (m', Inl e) \<Rightarrow> m' = m \<and> e \<in> {ErrInvalid, ErrUnknownSchema}
    | (m', Inr i) \<Rightarrow> i = (if rID r = [] then newid else rID r) \<and> map_of m i = None
        \<and> map_of m' = (map_of m)(i \<mapsto> submitted i now r) \<and> Validate (submitted i now r) = Inr () \<and> mem_ok m'"
proof -
  have e: "Validate q \<in> {Inr (), Inl ErrInvalid, Inl ErrUnknownSchema}" for q
    by (rule Validate_cases) (auto simp: validate_content_def Let_def)
  show ?thesis
    using assms e [of "submitted (if rID r = [] then newid else rID r) now r"]
    by (auto simp: mem_Submit_eq Let_def map_of_gomap_put intro!: mem_ok_put split: sum.splits)
qed

lemma mem_Submit_correct_witness:
  "snd (mem_Submit ''j9'' 0 sample []) = Inr ''j1''"
  using mem_Submit_correct [OF mem_ok_empty, of sample "''j9''" 0]
  by (simp add: mem_Submit_eq submitted_def Let_def eval_record eval_Validate int64_def At_def)

text \<open>The store the witnesses start from: one job, submitted and then claimed.\<close>

definition m0 :: mem where
  "m0 = fst (mem_Submit ''j9'' 0 sample [])"

definition held :: mem where
  "held = fst (mem_Claim ''j1'' ''w1'' 5000 1000 m0)"

definition sample0 :: Record where
  "sample0 = submitted ''j1'' 0 sample"

lemma m0_eq: "m0 = [(''j1'', sample0)]" "Validate sample0 = Inr ()"
  by (simp_all add: m0_def sample0_def mem_Submit_eq submitted_def Let_def eval_record eval_Validate At_def)

lemma sample0_fields:
  "rID sample0 = ''j1''" "rState sample0 = StatePending" "rLease sample0 = zero_lease"
  by (simp_all add: sample0_def submitted_def Let_def describe_keeps sample_simps)

lemma mem_ok_m0: "mem_ok m0"
  using m0_eq(2) by (simp add: mem_ok_def m0_eq(1) gomap_wf_def sample0_fields zero_lease_def int64_def)

definition sample1 :: Record where
  "sample1 = describe (sample0\<lparr>rLease := \<lparr>lOwner = ''w1'', lEpoch = 1, lExpiresAt = 6000, lRecall = None\<rparr>,
     rState := StateRunning, rUpdatedAt := 1000\<rparr>)"

lemma claim_m0: "mem_Claim ''j1'' ''w1'' 5000 1000 m0 = ([(''j1'', sample1)], Inr sample1)"
  by (simp add: mem_Claim_def on_record_def m0_eq(1) mem_claim_edit_def sample0_fields Held_def zero_lease_def
      Terminal_def At_def wrap64_def sample1_def)

lemma held_eq: "held = [(''j1'', sample1)]"
  by (simp add: held_def claim_m0)

lemma sample1_fields:
  "rLease sample1 = \<lparr>lOwner = ''w1'', lEpoch = 1, lExpiresAt = 6000, lRecall = None\<rparr>" "rState sample1 = StateRunning"
  by (simp_all add: sample1_def describe_keeps)

lemma not_blank_w: "\<not> blank ''w1''" "\<not> blank ''w2''"
  by (simp_all add: blank_def TrimSpace_def IsSpace_def byte_def)

lemma mem_ok_held: "mem_ok held"
  using mem.run_ok [OF mem_ok_m0, of "EClaim ''j1'' ''w1'' 5000 1000"] not_blank_w
  by (simp add: held_def mem_run_def proper_def)

section \<open>The lease protocol\<close>

text \<open>C6: Fencing.  Once a job holds an epoch, whatever callers do next (claims, renewals, recalls,
  releases, intents and updates whose closure leaves the epoch alone, in any order and on any
  job), a write that presents an older epoch is refused, as stale or because the job finished,
  and changes nothing.\<close>

theorem mem_fencing:
  assumes "mem_ok m" "map_of m i = Some r" "list_all proper es" "list_all tame es"
    and "lEpoch (rLease r) + int (claims es) \<le> max_int64"
    and "is_write w" "proper w" "target w = i" "ev_epoch w < lEpoch (rLease r)"
  shows "\<exists>m' x. mem_run w (run_all mem_run es m) = (m', Inl x) \<and> x \<in> {ErrStaleEpoch, ErrTerminal}
    \<and> map_of m' = map_of (run_all mem_run es m)"
  using mem.lease.fencing [OF assms] by simp

lemma mem_fencing_witness:
  "\<exists>m' x. mem_run (ERenew ''j1'' 0 5000 2000 2000) (run_all mem_run [EClaim ''j1'' ''w2'' 5000 9000] held) = (m', Inl x)
     \<and> x \<in> {ErrStaleEpoch, ErrTerminal}
     \<and> map_of m' = map_of (run_all mem_run [EClaim ''j1'' ''w2'' 5000 9000] held)"
  by (rule mem_fencing [OF mem_ok_held, of "''j1''" sample1])
    (simp_all add: held_eq sample1_fields proper_def tame_def not_blank_w is_write_def)

text \<open>C9: No two claims of a job ever answer the same epoch: the epoch of a later claim is greater,
  whatever happened in between, as long as fewer than \<open>2 ^ 63\<close> claims have been made.\<close>

theorem mem_claims_distinct:
  assumes "mem_ok m" "\<not> blank owner" "mem_Claim i owner ttl now m = (m1, Inr q1)"
    and "list_all proper es" "list_all tame es"
    and "\<not> blank owner'" "mem_Claim i owner' ttl' now' (run_all mem_run es m1) = (m2, Inr q2)"
    and "lEpoch (rLease q1) + int (claims es) < max_int64"
  shows "lEpoch (rLease q1) < lEpoch (rLease q2)"
  using mem.lease.claims_distinct [of m i owner ttl now m1 q1 es owner' ttl' now' m2 q2] assms
  by (simp add: proper_def mem_run_def)

definition sample2 :: Record where
  "sample2 = describe (sample1\<lparr>rLease := \<lparr>lOwner = ''w2'', lEpoch = 2, lExpiresAt = 14000, lRecall = None\<rparr>,
     rState := StateRunning, rUpdatedAt := 9000\<rparr>)"

lemma claim_held: "mem_Claim ''j1'' ''w2'' 5000 9000 held = ([(''j1'', sample2)], Inr sample2)"
  by (simp add: mem_Claim_def on_record_def held_eq mem_claim_edit_def sample1_fields Held_def
      Terminal_def At_def wrap64_def sample2_def)

lemma mem_claims_distinct_witness: "lEpoch (rLease sample1) < lEpoch (rLease sample2)"
  using mem_claims_distinct [OF mem_ok_m0 not_blank_w(1) claim_m0, of "[]" "''w2''" 5000 9000 "[(''j1'', sample2)]" sample2]
    claim_held by (simp add: not_blank_w held_eq sample1_fields)

text \<open>While a holder's lease runs, nobody else can claim the job, and the attempt changes
  nothing.\<close>

theorem mem_claim_excluded:
  assumes "mem_ok m" "map_of m i = Some r" "Held (rLease r) now" "owner \<noteq> lOwner (rLease r)" "\<not> blank owner"
  shows "\<exists>m' x. mem_Claim i owner ttl now m = (m', Inl x) \<and> x \<in> {ErrLeaseHeld, ErrTerminal} \<and> map_of m' = map_of m"
  using mem.lease.claim_excluded [OF assms(1) _ assms(2-4), of ttl] assms(5) by (simp add: mem_run_def proper_def)

lemma mem_claim_excluded_witness:
  "\<exists>m' x. mem_Claim ''j1'' ''w2'' 5000 2000 held = (m', Inl x) \<and> x \<in> {ErrLeaseHeld, ErrTerminal}
     \<and> map_of m' = map_of held"
  by (rule mem_claim_excluded [OF mem_ok_held, of "''j1''" sample1])
    (simp_all add: held_eq sample1_fields Held_def not_blank_w)

text \<open>C17: Finished work stays finished: once a job is complete, failed or cancelled, no sequence of
  operations changes anything of it but the expiry of its lease and its declaration.\<close>

theorem mem_finished:
  assumes "mem_ok m" "list_all proper es" "map_of m i = Some r" "Terminal (rState r)"
  shows "\<exists>q. map_of (run_all mem_run es m) i = Some q \<and> finished_like r q"
  using assms by (rule mem.finished)

definition ended :: mem where
  "ended = [(''j1'', describe (sample0\<lparr>rState := StateComplete\<rparr>))]"

lemma mem_ok_ended: "mem_ok ended"
proof -
  have "Validate (describe (sample0\<lparr>rState := StateComplete\<rparr>)) = Inr ()"
    using m0_eq(2) Validate_fields [OF m0_eq(2)]
    by (intro valid_describe [of sample0]) (auto simp: ValidState_def)
  then show ?thesis
    by (simp add: mem_ok_def ended_def gomap_wf_def describe_keeps sample0_fields zero_lease_def int64_def)
qed

lemma mem_finished_witness:
  "\<exists>q. map_of (run_all mem_run [EClaim ''j1'' ''w1'' 5000 1000] ended) ''j1'' = Some q \<and> rState q = StateComplete"
  using mem_finished [OF mem_ok_ended, of "[EClaim ''j1'' ''w1'' 5000 1000]" "''j1''" "describe (sample0\<lparr>rState := StateComplete\<rparr>)"]
  by (auto simp: ended_def proper_def not_blank_w describe_keeps Terminal_def finished_like_def dest: body_fields(6))

section \<open>Every store that can be reached\<close>

inductive mem_reachable :: "mem \<Rightarrow> bool" where
  empty: "mem_reachable []"
| submit: "mem_reachable m \<Longrightarrow> int64 (lEpoch (rLease r)) \<Longrightarrow> mem_reachable (fst (mem_Submit newid now r m))"
| run: "mem_reachable m \<Longrightarrow> proper e \<Longrightarrow> mem_reachable (fst (mem_run e m))"

lemma mem_ok_Submit: "mem_ok m \<Longrightarrow> int64 (lEpoch (rLease r)) \<Longrightarrow> mem_ok (fst (mem_Submit newid now r m))"
  by (auto simp: mem_Submit_eq Let_def intro!: mem_ok_put split: sum.splits)

text \<open>C24: In every store reached from the empty one by submissions and by any of the operations, each
  key holds a record of that id which passes \<open>Validate\<close>, so that every record a \<open>Load\<close> or a
  \<open>List\<close> hands out is well formed.\<close>

theorem mem_reachable_valid:
  assumes "mem_reachable m"
  shows "distinct (map fst m) \<and> (\<forall>i r. mem_Load i m = Inr r \<longrightarrow> rID r = i \<and> Validate r = Inr () \<and> well_formed r)"
proof -
  have "mem_ok m"
    using assms by induction (auto intro: mem_ok_empty mem_ok_Submit mem.run_ok)
  then show ?thesis
    using Validate_well_formed by (auto simp: mem_ok_def gomap_wf_def mem_Load_def split: option.splits)
qed

lemma mem_reachable_valid_witness: "mem_Load ''j1'' held = Inr sample1 \<and> well_formed sample1"
proof -
  have "mem_reachable (fst (mem_run (EClaim ''j1'' ''w1'' 5000 1000) (fst (mem_Submit ''j9'' 0 sample []))))"
    by (intro mem_reachable.intros) (simp_all add: proper_def not_blank_w sample_simps int64_def)
  then have "mem_reachable held" by (simp add: held_def mem_run_def m0_def)
  from mem_reachable_valid [OF this] show ?thesis
    by (simp add: mem_Load_def held_eq)
qed

section \<open>Listing and the sweep\<close>

lemma mem_sweep_filter: "mem_sweep (\<lambda>_. now) i rs = filter (\<lambda>r. mem_Claimable now r \<and> Stranded r) rs"
  by (induction "\<lambda>_ :: nat. now" i rs rule: mem_sweep.induct) auto

text \<open>\<open>List\<close> hands out every stored record once, in ascending order of ids, and a sweep at one
  instant finds, in that order, exactly the records nobody holds that have not finished and are
  not paused or handed over.\<close>

theorem mem_Orphans_correct:
  assumes "mem_ok m"
  shows "map rID (mem_List m) = sort (map fst m) \<and> distinct (mem_List m) \<and> set (mem_List m) = ran (map_of m)
    \<and> mem_Orphans (\<lambda>_. now) m = filter (\<lambda>r. \<not> Terminal (rState r) \<and> \<not> Held (rLease r) now \<and> Stranded r) (mem_List m)"
proof -
  have wf: "distinct (map fst m)" using assms by (simp add: mem_ok_def gomap_wf_def)
  have id': "rID (the (map_of m i)) = i" if i: "i \<in> fst ` set m" for i
  proof -
    obtain r where "map_of m i = Some r" using i by (cases "map_of m i") (auto simp: map_of_eq_None_iff)
    with assms show ?thesis by (auto simp: mem_ok_def)
  qed
  have ids: "map rID (mem_List m) = sort (map fst m)"
    unfolding mem_List_def sortStrings_sort map_map using id'
    by (intro map_idI) auto
  then have "distinct (map rID (mem_List m))" using wf by simp
  then have d: "distinct (mem_List m)" by (simp add: distinct_map)
  have s: "set (mem_List m) = ran (map_of m)"
    unfolding mem_List_def sortStrings_sort ran_def
    by (auto simp: image_iff) (metis map_of_eq_Some_iff wf option.sel fst_conv image_eqI)+
  have "mem_Orphans (\<lambda>_. now) m = filter (\<lambda>r. \<not> Terminal (rState r) \<and> \<not> Held (rLease r) now \<and> Stranded r) (mem_List m)"
    unfolding mem_Orphans_def mem_sweep_filter by (simp add: mem_Claimable_def)
  with ids d s show ?thesis by blast
qed

lemma mem_Orphans_correct_witness: "mem_List held = [sample1] \<and> mem_Orphans (\<lambda>_. 6000) held = [sample1]"
proof -
  have "mem_List held = [sample1]"
    by (simp add: mem_List_def sortStrings_sort held_eq)
  with mem_Orphans_correct [OF mem_ok_held, of 6000] show ?thesis
    by (simp add: sample1_fields Held_def Terminal_def Stranded_def)
qed

end
