(* ===== verification/Handle.thy ===== *)
theory Handle
  imports MemoryLease
begin

text \<open>
  go/handle.go: a handle asks for a job to be cancelled, paused or resumed.  The handle holds no
  lock across its calls on the store, so the model takes what other callers do between them as
  lists of events.  The store is an argument (\<open>load\<close> and \<open>run\<close>), as the interface is in the
  source; \<open>owner\<close> is who the handle says it is.
\<close>

definition cancelLease :: duration where
  "cancelLease = 15 * 1000000000"

definition cancel_edit :: "Record \<Rightarrow> Record res" where
  "cancel_edit r = Inr (r\<lparr>rState := StateCancelled\<rparr>)"

text \<open>The readings of the clock: the intent's, the claim's, the two of the update.\<close>

record ask_clock =
  atIntent :: time
  atClaim :: time
  atGuard :: time
  atWrite :: time

definition ask ::
    "('s \<Rightarrow> string \<Rightarrow> Record res) \<Rightarrow> (event \<Rightarrow> 's \<Rightarrow> 's \<times> Record res) \<Rightarrow> string \<Rightarrow> string \<Rightarrow> Want \<Rightarrow> ask_clock
      \<Rightarrow> event list \<Rightarrow> event list \<Rightarrow> event list \<Rightarrow> 's \<Rightarrow> 's \<times> unit res" where
  "ask load run i owner want c gap1 gap2 gap3 s =
     (case load s i of
        Inl e \<Rightarrow> (s, Inl e)
      | Inr r \<Rightarrow>
          if Terminal (rState r) then
            (if want = WantCancel \<and> rState r = StateCancelled then (s, Inr ()) else (s, Inl ErrTerminal))
          else (case run (ESetIntent i want owner (atIntent c)) (run_all run gap1 s) of
              (s, Inl e) \<Rightarrow> (s, Inl e)
            | (s, Inr _) \<Rightarrow>
                if want \<noteq> WantCancel then (s, Inr ())
                else (case run (EClaim i owner cancelLease (atClaim c)) (run_all run gap2 s) of
                    (s, Inl _) \<Rightarrow> (s, Inr ())
                  | (s, Inr claimed) \<Rightarrow>
                      (case run (EUpdate i (lEpoch (rLease claimed)) cancel_edit (atGuard c) (atWrite c))
                              (run_all run gap3 s) of
                         (s, res) \<Rightarrow> (s, rbind res (\<lambda>_. Inr ()))))))"

definition Cancel where
  "Cancel load run i owner = ask load run i owner WantCancel"

definition Pause where
  "Pause load run i owner = ask load run i owner WantPause"

definition Resume where
  "Resume load run i owner = ask load run i owner WantRun"

section \<open>What each call leaves in the memory binding\<close>

abbreviation mem_look :: "mem \<Rightarrow> string \<Rightarrow> Record res" where
  "mem_look m i \<equiv> mem_Load i m"

lemma mem_look_Some: "map_of m i = Some r \<Longrightarrow> mem_look m i = Inr r"
  by (simp add: mem_Load_def)

definition asked :: "Want \<Rightarrow> string \<Rightarrow> time \<Rightarrow> Record \<Rightarrow> Record" where
  "asked want owner now r = describe (r\<lparr>rIntent := Some \<lparr>iWant = want, iBy = owner, iAt = At now\<rparr>, rUpdatedAt := At now\<rparr>)"

definition taken_over :: "string \<Rightarrow> duration \<Rightarrow> time \<Rightarrow> Record \<Rightarrow> Record" where
  "taken_over owner ttl now r = describe (r\<lparr>rLease := claimed_lease owner ttl now (rLease r),
     rState := claimed_state (rState r), rUpdatedAt := At now\<rparr>)"

definition given_up :: "time \<Rightarrow> Record \<Rightarrow> Record" where
  "given_up now r = describe (r\<lparr>rState := StateCancelled, rUpdatedAt := At now\<rparr>)"

lemma run_intent:
  "map_of m i = Some r \<Longrightarrow> \<not> Terminal (rState r) \<Longrightarrow> ValidWant want \<Longrightarrow>
     mem_run (ESetIntent i want owner now) m = (gomap_put i (asked want owner now r) m, Inr (asked want owner now r))"
  by (simp add: mem_run_def mem_SetIntent_def on_record_def mem_intent_edit_def asked_def)

lemma run_claim:
  "map_of m i = Some r \<Longrightarrow> \<not> Terminal (rState r) \<Longrightarrow>
     mem_run (EClaim i owner ttl now) m =
       (if taken (rLease r) owner now then (m, Inl ErrLeaseHeld)
        else (gomap_put i (taken_over owner ttl now r) m, Inr (taken_over owner ttl now r)))"
  by (auto simp: mem_run_def mem_Claim_def on_record_def mem_claim_edit_def taken_def taken_over_def
      claimed_lease_def claimed_state_def Let_def)

lemma asked_fields [simp]:
  "rState (asked want owner now r) = rState r" "rLease (asked want owner now r) = rLease r"
  "rIntent (asked want owner now r) = Some \<lparr>iWant = want, iBy = owner, iAt = At now\<rparr>"
  by (simp_all add: asked_def describe_keeps)

lemma taken_over_fields [simp]:
  "rState (taken_over owner ttl now r) = claimed_state (rState r)" "rIntent (taken_over owner ttl now r) = rIntent r"
  "rLease (taken_over owner ttl now r) = claimed_lease owner ttl now (rLease r)"
  by (simp_all add: taken_over_def describe_keeps)

lemma given_up_fields [simp]:
  "rState (given_up now r) = StateCancelled" "rIntent (given_up now r) = rIntent r" "rLease (given_up now r) = rLease r"
  by (simp_all add: given_up_def describe_keeps)

lemma given_up_valid: "Validate r = Inr () \<Longrightarrow> Validate (given_up now r) = Inr ()"
  unfolding given_up_def using Validate_fields [of r]
  by (intro valid_describe [of r]) (auto simp: ValidState_def)

lemma run_give_up:
  assumes "mem_ok m" "map_of m i = Some r" "\<not> Terminal (rState r)" "Held (rLease r) now1"
  shows "mem_run (EUpdate i (lEpoch (rLease r)) cancel_edit now1 now2) m =
    (gomap_put i (given_up now2 r) m, Inr (given_up now2 r))"
proof -
  have "unmoved (immutablesOf r) (r\<lparr>rState := StateCancelled\<rparr>) = Inr ()"
    by (simp add: unmoved_iff same_work_def)
  moreover have "Validate (given_up now2 r) = Inr ()"
    using assms(1,2) by (auto simp: mem_ok_def intro: given_up_valid)
  ultimately show ?thesis
    using assms by (simp add: mem_run_def mem_Update_def on_record_def mem_update_edit_def cancel_edit_def given_up_def)
qed

lemma claimed_not_terminal: "\<not> Terminal s \<Longrightarrow> \<not> Terminal (claimed_state s)"
  by (simp add: claimed_state_def Terminal_def)

lemma mem_ok_run: "mem_ok m \<Longrightarrow> proper e \<Longrightarrow> mem_run e m = (m', res) \<Longrightarrow> mem_ok m'"
  using mem.run_ok [of m e] by simp


definition noon :: ask_clock where
  "noon = \<lparr>atIntent = 1000, atClaim = 2000, atGuard = 3000, atWrite = 4000\<rparr>"


text \<open>\<open>Pause\<close> keeps an unfinished job from being swept, unless it is marked running, until
  \<open>Resume\<close> makes it eligible again; neither touches its state, its lease or any other job.\<close>

theorem Pause_Resume_correct:
  assumes "mem_ok m" "map_of m i = Some r" "\<not> Terminal (rState r)"
  shows "\<exists>m1 m2 p q. Pause mem_look mem_run i owner c [] [] [] m = (m1, Inr ())
    \<and> Resume mem_look mem_run i owner c' [] [] [] m1 = (m2, Inr ()) \<and> mem_ok m1 \<and> mem_ok m2
    \<and> map_of m1 = (map_of m)(i \<mapsto> p) \<and> map_of m2 = (map_of m)(i \<mapsto> q)
    \<and> rState p = rState r \<and> rLease p = rLease r \<and> rState q = rState r \<and> rLease q = rLease r
    \<and> Paused p \<and> \<not> Paused q \<and> (Stranded p \<longleftrightarrow> rState r = StateRunning) \<and> (Stranded q \<longleftrightarrow> rState r \<noteq> StateTransferred)"
proof -
  let ?p = "asked WantPause owner (atIntent c) r"
  let ?q = "asked WantRun owner (atIntent c') ?p"
  have p: "mem_run (ESetIntent i WantPause owner (atIntent c)) m = (gomap_put i ?p m, Inr ?p)"
    using assms(2,3) by (intro run_intent) (simp_all add: ValidWant_def)
  have l: "map_of (gomap_put i ?p m) i = Some ?p" by (simp add: map_of_gomap_put)
  have q: "mem_run (ESetIntent i WantRun owner (atIntent c')) (gomap_put i ?p m) = (gomap_put i ?q (gomap_put i ?p m), Inr ?q)"
    using l assms(3) by (intro run_intent) (simp_all add: ValidWant_def)
  have ok1: "mem_ok (gomap_put i ?p m)" by (rule mem_ok_run [OF assms(1) _ p]) (simp add: proper_def)
  have ok2: "mem_ok (gomap_put i ?q (gomap_put i ?p m))" by (rule mem_ok_run [OF ok1 _ q]) (simp add: proper_def)
  show ?thesis
    by (rule exI [of _ "gomap_put i ?p m"], rule exI [of _ "gomap_put i ?q (gomap_put i ?p m)"], rule exI [of _ ?p], rule exI [of _ ?q])
      (use assms(2,3) p q ok1 ok2 l in \<open>auto simp: Pause_def Resume_def ask_def mem_look_Some map_of_gomap_put
         Wants_def Paused_def Stranded_def\<close>)
qed

lemma Pause_Resume_correct_witness:
  "\<exists>m1 p. Pause mem_look mem_run ''j1'' ''w1'' noon [] [] [] m0 = (m1, Inr ()) \<and> map_of m1 ''j1'' = Some p \<and> \<not> Stranded p"
  using Pause_Resume_correct [OF mem_ok_m0, of "''j1''" sample0 "''w1''" noon noon]
  by (auto simp: m0_eq(1) sample0_fields Terminal_def)

section \<open>With others in between\<close>

text \<open>A run of the store leaves a job stored.\<close>

lemma run_all_keeps:
  assumes "mem_ok m" "list_all proper es" "map_of m i = Some r"
  obtains q where "mem_ok (run_all mem_run es m)" "map_of (run_all mem_run es m) i = Some q"
  using mem.run_all_ok [OF assms(1,2)] mem.trace [OF assms] by blast

lemma run_cancel_edit:
  assumes "mem_ok m" "map_of m i = Some r"
  shows "mem_run (EUpdate i epoch cancel_edit now1 now2) m =
    (case write_refusal epoch now1 r of
       Some x \<Rightarrow> (m, Inl x)
     | None \<Rightarrow> (gomap_put i (given_up now2 r) m, Inr (given_up now2 r)))"
  using run_give_up [OF assms] assms(2)
  by (auto simp: write_refusal_def mem_run_def mem_Update_def on_record_def mem_update_edit_def)



end
