(* ===== verification/Decision.thy ===== *)
theory Decision
  imports JsonText
begin

text \<open>
  go/abstraction/job/acceptance/decision.go: what retained evidence proves about a request.  A
  request names itself (\<open>RequestIdentity\<close>); its owner either accepted it once, with a receipt
  that names the operation, or sealed it against acceptance, or cannot say.  The vocabulary
  \<open>AcceptanceOutcome\<close>, a \<open>uint32\<close> in the source, is a datatype whose last constructor holds every
  other number, the zero value included.
\<close>

section \<open>The values\<close>

record RequestIdentity =
  riKey :: string
  riHistoryEpoch :: string
  riAttempt :: int

record Submission =
  suIdentity :: RequestIdentity
  suKind :: string
  suSpec :: string
  suRequired :: "string list"
  suLabel :: string

record Receipt =
  reIdentity :: RequestIdentity
  reOwner :: string
  reOperation :: string
  reGuarantees :: "string list"
  reRetentionMs :: int

datatype AcceptanceOutcome =
    OutcomeAccepted
  | OutcomeDefinitelyNotAccepted
  | OutcomeUnknown
  | OutcomeKeyConflict
  | OutcomeForbidden
  | OutcomeInvalid
  | OutcomeUnavailable
  | OutcomeOther nat

record AcceptanceResult =
  arOutcome :: AcceptanceOutcome
  arReceipt :: "Receipt option"
  arReason :: string

record Evidence =
  evScope :: string
  evIdentity :: RequestIdentity
  evArguments :: "Submission option"
  evReceipt :: "Receipt option"
  evAvailable :: bool
  evExpired :: bool
  evSealed :: bool
  evUndecided :: bool

record AttemptEvidence =
  aePrevious :: string
  aeState :: string
  aeLatest :: "Submission option"

definition outcome :: "AcceptanceOutcome \<Rightarrow> string \<Rightarrow> AcceptanceResult" where
  "outcome word reason = \<lparr>arOutcome = word, arReceipt = None, arReason = reason\<rparr>"

text \<open>The zero value: no refusal.\<close>

definition no_result :: AcceptanceResult where
  "no_result = outcome (OutcomeOther 0) []"

section \<open>The rules\<close>

definition validIdentity :: "RequestIdentity \<Rightarrow> bool" where
  "validIdentity v \<longleftrightarrow> riKey v \<noteq> [] \<and> riHistoryEpoch v \<noteq> [] \<and> 0 \<le> riAttempt v"

fun adjacent_ok :: "string list \<Rightarrow> bool" where
  "adjacent_ok [] = True"
| "adjacent_ok [s] = (s \<noteq> [])"
| "adjacent_ok (s # t # ss) = (s \<noteq> [] \<and> s \<noteq> t \<and> adjacent_ok (t # ss))"

definition guaranteeSet :: "string list \<Rightarrow> string list res" where
  "guaranteeSet v =
     (let out = sort v in
      if adjacent_ok out then Inr out else Inl (ErrPlain ''empty or duplicate guarantee''))"

definition sameArguments :: "Submission \<Rightarrow> Submission \<Rightarrow> bool" where
  "sameArguments a b =
     (case (guaranteeSet (suRequired a), guaranteeSet (suRequired b)) of
        (Inr x, Inr y) \<Rightarrow> suKind a = suKind b \<and> suSpec a = suSpec b \<and> x = y
      | _ \<Rightarrow> False)"

definition MaxLabelBytes :: nat where
  "MaxLabelBytes = 256"

definition label_rune :: "nat \<Rightarrow> bool" where
  "label_rune r \<longleftrightarrow> \<not> (r < 0x20 \<or> r = 0x7F \<or> r = 0x2028 \<or> r = 0x2029)"

definition NormalizeLabel :: "string \<Rightarrow> string res" where
  "NormalizeLabel label =
     (if \<not> ValidString label then Inl (ErrPlain ''label is not valid UTF-8'')
      else
        let label = TrimSpace label in
        if MaxLabelBytes < length label then Inl (ErrPlain ''label too long'')
        else if \<not> list_all (\<lambda>(r, _). label_rune r) (runes label)
        then Inl (ErrPlain ''label must be one line of printable text'')
        else Inr label)"

definition ValidateSubmission :: "Submission \<Rightarrow> unit res" where
  "ValidateSubmission v =
     (if \<not> validIdentity (suIdentity v) \<or> suKind v = [] then Inl (ErrPlain ''identity and kind required'')
      else rbind (NormalizeLabel (suLabel v)) (\<lambda>_. rbind (guaranteeSet (suRequired v)) (\<lambda>_. Inr ())))"

definition AttemptEligibility :: "RequestIdentity \<Rightarrow> Submission option \<Rightarrow> AttemptEvidence \<Rightarrow> AcceptanceResult" where
  "AttemptEligibility id' submitted e =
     (if riAttempt id' < 0 then outcome OutcomeInvalid ''attempt must be nonnegative''
      else if riAttempt id' = 0 then no_result
      else
        let arguments =
          (case submitted of
             None \<Rightarrow> no_result
           | Some s \<Rightarrow>
               (case aeLatest e of
                  None \<Rightarrow>
                    if aePrevious e = ''accepted'' then outcome OutcomeUnknown ''previous attempt arguments unavailable''
                    else no_result
                | Some a \<Rightarrow>
                    if \<not> sameArguments s a then outcome OutcomeKeyConflict ''retry arguments differ from the accepted attempt''
                    else no_result))
        in
        if aePrevious e = ''absent'' then outcome OutcomeInvalid ''previous attempt absent''
        else if aePrevious e = ''sealed'' then arguments
        else if aePrevious e = ''accepted'' then
          (if aeState e = ''failed'' then arguments
           else if aeState e = [] then outcome OutcomeUnknown ''previous attempt state unavailable''
           else if aeState e \<in> set [''pending'', ''running'', ''transferred'', ''complete'', ''cancelled'']
           then outcome OutcomeInvalid ''previous attempt has not failed terminally''
           else outcome OutcomeUnknown ''contradictory previous attempt state'')
        else outcome OutcomeUnknown ''contradictory previous attempt evidence'')"

definition plain_refusal :: "AcceptanceOutcome \<Rightarrow> bool" where
  "plain_refusal w \<longleftrightarrow> w \<in> set [OutcomeDefinitelyNotAccepted, OutcomeUnknown, OutcomeKeyConflict,
     OutcomeForbidden, OutcomeInvalid, OutcomeUnavailable]"

definition ValidateResult :: "AcceptanceResult \<Rightarrow> RequestIdentity \<Rightarrow> string \<Rightarrow> unit res" where
  "ValidateResult v id' owner =
     (if \<not> validIdentity id' \<or> owner = [] then Inl (ErrPlain ''identity and owner required'')
      else if arOutcome v \<noteq> OutcomeAccepted then
        (if arReceipt v \<noteq> None then Inl (ErrPlain ''receipt on nonaccepted outcome'')
         else if plain_refusal (arOutcome v) then Inr ()
         else Inl (ErrPlain ''unknown acceptance outcome''))
      else case arReceipt v of
        None \<Rightarrow> Inl (ErrPlain ''invalid or mismatched acceptance receipt'')
      | Some r \<Rightarrow>
          if reIdentity r \<noteq> id' \<or> reOwner r \<noteq> owner \<or> reOperation r = [] \<or> reRetentionMs r \<le> 0
          then Inl (ErrPlain ''invalid or mismatched acceptance receipt'')
          else rbind (guaranteeSet (reGuarantees r)) (\<lambda>_. Inr ()))"

text \<open>The part of \<open>ReconcileEvidence\<close> that answers from a retained receipt.\<close>

definition reconcile_receipt ::
    "string \<Rightarrow> RequestIdentity \<Rightarrow> Submission option \<Rightarrow> Evidence \<Rightarrow> Receipt \<Rightarrow> AcceptanceResult" where
  "reconcile_receipt owner id' submitted e r =
     (let v = \<lparr>arOutcome = OutcomeAccepted, arReceipt = Some r, arReason = ''original acceptance''\<rparr> in
      if evSealed e then outcome OutcomeUnknown ''contradictory owner evidence''
      else if ValidateResult v id' owner \<noteq> Inr () then outcome OutcomeUnknown ''invalid owner receipt''
      else case evArguments e of
        Some a \<Rightarrow>
          if suIdentity a \<noteq> id' \<or> ValidateSubmission a \<noteq> Inr () then outcome OutcomeUnknown ''invalid retained arguments''
          else if \<not> list_all (contains (reGuarantees r)) (suRequired a)
          then outcome OutcomeUnknown ''receipt weakens required guarantees''
          else (case submitted of
              None \<Rightarrow> v
            | Some s \<Rightarrow>
                if \<not> sameArguments s a then outcome OutcomeKeyConflict ''identity reused with different arguments'' else v)
      | None \<Rightarrow>
          (case submitted of None \<Rightarrow> v | Some s \<Rightarrow> outcome OutcomeUnknown ''argument evidence unavailable''))"

definition ReconcileEvidence ::
    "string \<Rightarrow> string \<Rightarrow> RequestIdentity \<Rightarrow> Submission option \<Rightarrow> Evidence \<Rightarrow> AcceptanceResult" where
  "ReconcileEvidence scope owner id' submitted e =
     (if scope = [] \<or> scope \<noteq> evScope e then outcome OutcomeForbidden ''authenticated scope unavailable or not authorized''
      else if evUndecided e
      then outcome OutcomeUnavailable ''policy decision unavailable; the same identity may be presented again''
      else if \<not> validIdentity id' \<or> owner = [] then outcome OutcomeInvalid ''identity and owner required''
      else if (case submitted of None \<Rightarrow> False | Some s \<Rightarrow> ValidateSubmission s \<noteq> Inr () \<or> suIdentity s \<noteq> id')
      then outcome OutcomeInvalid ''invalid submission''
      else if evIdentity e \<noteq> id' \<or> \<not> evAvailable e \<or> evExpired e
      then outcome OutcomeUnknown ''history unavailable or expired''
      else case evReceipt e of
        Some r \<Rightarrow> reconcile_receipt owner id' submitted e r
      | None \<Rightarrow>
          if evSealed e then outcome OutcomeDefinitelyNotAccepted ''identity sealed against acceptance''
          else outcome OutcomeUnknown ''no authoritative sealed acceptance history'')"

definition CanResolveFresh :: "AcceptanceResult \<Rightarrow> bool" where
  "CanResolveFresh v \<longleftrightarrow> arOutcome v = OutcomeDefinitelyNotAccepted \<and> arReceipt v = None"

section \<open>Guarantee sets and arguments\<close>

lemma adjacent_ok_iff: "sorted ss \<Longrightarrow> adjacent_ok ss \<longleftrightarrow> distinct ss \<and> [] \<notin> set ss"
proof (induction ss rule: adjacent_ok.induct)
  case (3 s t ss)
  show ?case
  proof (cases "s = t")
    case False
    have "s \<notin> set (t # ss)"
      using 3(2) False by (auto simp: order_antisym)
    with 3 False show ?thesis by auto
  qed simp
qed auto

definition guarantee_set :: "string list \<Rightarrow> bool" where
  "guarantee_set v \<longleftrightarrow> distinct v \<and> [] \<notin> set v"

lemma guaranteeSet_eq: "guaranteeSet v = (if guarantee_set v then Inr (sort v) else Inl (ErrPlain ''empty or duplicate guarantee''))"
  by (simp add: guaranteeSet_def adjacent_ok_iff guarantee_set_def)

lemma guaranteeSet_ok [simp]: "rbind (guaranteeSet v) (\<lambda>_. Inr u) = Inr w \<longleftrightarrow> guarantee_set v \<and> u = w"
  by (simp add: guaranteeSet_eq)

lemma sort_eq_iff: "distinct v \<Longrightarrow> distinct w \<Longrightarrow> sort v = sort w \<longleftrightarrow> set v = set w"
  for v w :: "string list"
  by (metis set_sort sorted_distinct_set_unique distinct_sort sorted_sort)

lemma sameArguments_iff:
  "sameArguments a b \<longleftrightarrow> guarantee_set (suRequired a) \<and> guarantee_set (suRequired b) \<and> suKind a = suKind b
     \<and> suSpec a = suSpec b \<and> set (suRequired a) = set (suRequired b)"
  by (auto simp: sameArguments_def guaranteeSet_eq guarantee_set_def sort_eq_iff)

lemma NormalizeLabel_Nil: "NormalizeLabel [] = Inr []"
  by (simp add: NormalizeLabel_def)

section \<open>What evidence proves\<close>

text \<open>The caller may read the evidence, and it is about this request.\<close>

definition entitled :: "string \<Rightarrow> string \<Rightarrow> RequestIdentity \<Rightarrow> Submission option \<Rightarrow> Evidence \<Rightarrow> bool" where
  "entitled scope owner id' submitted e \<longleftrightarrow>
     scope \<noteq> [] \<and> scope = evScope e \<and> \<not> evUndecided e \<and> validIdentity id' \<and> owner \<noteq> []
   \<and> (\<forall>s. submitted = Some s \<longrightarrow> ValidateSubmission s = Inr () \<and> suIdentity s = id')
   \<and> evIdentity e = id' \<and> evAvailable e \<and> \<not> evExpired e"

definition proven_receipt :: "string \<Rightarrow> RequestIdentity \<Rightarrow> Submission option \<Rightarrow> Evidence \<Rightarrow> Receipt \<Rightarrow> bool" where
  "proven_receipt owner id' submitted e r \<longleftrightarrow>
     \<not> evSealed e \<and> reIdentity r = id' \<and> reOwner r = owner \<and> reOperation r \<noteq> [] \<and> 0 < reRetentionMs r
   \<and> guarantee_set (reGuarantees r)
   \<and> (\<forall>a. evArguments e = Some a \<longrightarrow> suIdentity a = id' \<and> ValidateSubmission a = Inr ()
        \<and> set (suRequired a) \<subseteq> set (reGuarantees r))
   \<and> (\<forall>s. submitted = Some s \<longrightarrow> (\<exists>a. evArguments e = Some a \<and> sameArguments s a))"

lemma outcome_simps [simp]: "arOutcome (outcome w m) = w" "arReceipt (outcome w m) = None"
  by (simp_all add: outcome_def)

definition negative :: "AcceptanceResult \<Rightarrow> bool" where
  "negative v \<longleftrightarrow> arReceipt v = None \<and> arOutcome v \<in> {OutcomeForbidden, OutcomeUnavailable, OutcomeInvalid, OutcomeUnknown, OutcomeKeyConflict}"

lemma negative_outcome [simp]:
  "negative (outcome w m) \<longleftrightarrow> w \<in> {OutcomeForbidden, OutcomeUnavailable, OutcomeInvalid, OutcomeUnknown, OutcomeKeyConflict}"
  by (simp add: negative_def)

lemma negative_checks:
  assumes "negative v"
  shows "arOutcome v \<noteq> OutcomeAccepted" "arReceipt v = None" "\<not> CanResolveFresh v"
    "validIdentity id' \<Longrightarrow> owner \<noteq> [] \<Longrightarrow> ValidateResult v id' owner = Inr ()"
  using assms by (auto simp: negative_def CanResolveFresh_def ValidateResult_def plain_refusal_def)

lemma ReconcileEvidence_entitled:
  assumes "entitled scope owner id' submitted e"
  shows "ReconcileEvidence scope owner id' submitted e =
    (case evReceipt e of
       Some r \<Rightarrow> reconcile_receipt owner id' submitted e r
     | None \<Rightarrow>
         if evSealed e then outcome OutcomeDefinitelyNotAccepted ''identity sealed against acceptance''
         else outcome OutcomeUnknown ''no authoritative sealed acceptance history'')"
  using assms by (cases submitted; cases "evReceipt e") (auto simp: ReconcileEvidence_def entitled_def)

lemma ReconcileEvidence_not_entitled:
  "\<not> entitled scope owner id' submitted e \<Longrightarrow> negative (ReconcileEvidence scope owner id' submitted e)"
  by (cases submitted) (auto simp: ReconcileEvidence_def entitled_def)

lemma reconcile_receipt_proven:
  "validIdentity id' \<Longrightarrow> owner \<noteq> [] \<Longrightarrow> proven_receipt owner id' submitted e r \<Longrightarrow>
     reconcile_receipt owner id' submitted e r = \<lparr>arOutcome = OutcomeAccepted, arReceipt = Some r, arReason = ''original acceptance''\<rparr>"
  by (cases submitted; cases "evArguments e")
    (auto simp: reconcile_receipt_def proven_receipt_def ValidateResult_def list_all_iff Let_def)

lemma reconcile_receipt_unproven:
  "validIdentity id' \<Longrightarrow> owner \<noteq> [] \<Longrightarrow> \<not> proven_receipt owner id' submitted e r \<Longrightarrow>
     negative (reconcile_receipt owner id' submitted e r)"
  by (cases submitted; cases "evArguments e")
    (auto simp: reconcile_receipt_def proven_receipt_def ValidateResult_def list_all_iff Let_def)

lemma proven_checks:
  assumes "validIdentity id'" "owner \<noteq> []" "proven_receipt owner id' submitted e r"
  shows "ValidateResult \<lparr>arOutcome = OutcomeAccepted, arReceipt = Some r, arReason = m\<rparr> id' owner = Inr ()"
  using assms by (simp add: ValidateResult_def proven_receipt_def)


definition ri0 :: RequestIdentity where
  "ri0 = \<lparr>riKey = ''k'', riHistoryEpoch = ''h'', riAttempt = 0\<rparr>"

definition su0 :: Submission where
  "su0 = \<lparr>suIdentity = ri0, suKind = ''download'', suSpec = ''{}'', suRequired = [], suLabel = []\<rparr>"

definition re0 :: Receipt where
  "re0 = \<lparr>reIdentity = ri0, reOwner = ''o'', reOperation = ''op1'', reGuarantees = [], reRetentionMs = 1\<rparr>"

definition ev0 :: Evidence where
  "ev0 = \<lparr>evScope = ''s'', evIdentity = ri0, evArguments = Some su0, evReceipt = Some re0, evAvailable = True,
     evExpired = False, evSealed = False, evUndecided = False\<rparr>"

lemma su0_valid: "ValidateSubmission su0 = Inr ()"
  by (simp add: ValidateSubmission_def su0_def ri0_def validIdentity_def NormalizeLabel_Nil guaranteeSet_eq guarantee_set_def)


section \<open>Attempts\<close>



section \<open>Labels\<close>

text \<open>A slice of the runes of a valid text is the runes of the slice.\<close>

definition good_rune :: "nat \<times> string \<Rightarrow> bool" where
  "good_rune = (\<lambda>(r, w). \<exists>s n. s \<noteq> [] \<and> decode_rune s = (r, n) \<and> \<not> (r = RuneError \<and> n \<le> 1) \<and> w = take n s \<and> w \<noteq> [])"

lemma runes_good: "ValidString s \<Longrightarrow> x \<in> set (runes s) \<Longrightarrow> good_rune x"
proof -
  assume v: "ValidString s" and x: "x \<in> set (runes s)"
  obtain r w where rw: "x = (r, w)" by (cases x)
  obtain s' n where d: "s' \<noteq> []" "decode_rune s' = (r, n)" "w = take n s'"
    using runes_decode [of r w s] x rw by blast
  have "n \<le> length s'" using decode_rune_width [OF d(1)] d(2) by simp
  then have "length w = n" using d(3) by simp
  moreover have "\<not> (r = RuneError \<and> length w \<le> 1)" using v x rw by (auto simp: ValidString_def list_all_iff)
  moreover have "w \<noteq> []" using runes_nonempty_bytes x rw by blast
  ultimately show ?thesis using d rw by (auto simp: good_rune_def)
qed

lemma runes_slice: "\<forall>x \<in> set xs. good_rune x \<Longrightarrow> runes (concat (map snd xs)) = xs"
proof (induction xs)
  case (Cons x xs)
  obtain r w where x: "x = (r, w)" by (cases x)
  obtain s n where d: "s \<noteq> []" "decode_rune s = (r, n)" "\<not> (r = RuneError \<and> n \<le> 1)" "w = take n s" "w \<noteq> []"
    using Cons.prems x by (auto simp: good_rune_def)
  have n: "length w = n" using decode_rune_width [OF d(1)] d(2,4) by simp
  have "decode_rune (w @ concat (map snd xs)) = (r, n)"
    unfolding d(4) by (rule decode_rune_prefix [OF d(1-3)])
  with Cons d(5) n show ?case
    by (simp add: x runes.simps [of "w @ concat (map snd xs)"])
qed simp

definition trim_runes :: "(nat \<times> string) list \<Rightarrow> (nat \<times> string) list" where
  "trim_runes xs = rev (dropWhile (\<lambda>(r, _). IsSpace r) (rev (dropWhile (\<lambda>(r, _). IsSpace r) xs)))"

lemma TrimSpace_trim: "TrimSpace s = concat (map snd (trim_runes (runes s)))"
  by (simp add: TrimSpace_def trim_runes_def Let_def)

lemma set_trim_runes: "set (trim_runes xs) \<subseteq> set xs"
  by (auto simp: trim_runes_def dest!: set_dropWhileD)

lemma runes_TrimSpace: "ValidString s \<Longrightarrow> runes (TrimSpace s) = trim_runes (runes s)"
  unfolding TrimSpace_trim using runes_good set_trim_runes by (intro runes_slice) blast

lemma dropWhile_dropWhile_rev:
  "dropWhile P (rev (dropWhile P (rev (dropWhile P xs)))) = rev (dropWhile P (rev (dropWhile P xs)))"
proof (cases "dropWhile P xs")
  case (Cons y ys)
  then have y: "\<not> P y" by (metis dropWhile_eq_Cons_conv)
  then have "\<exists>zs. rev (dropWhile P (rev (y # ys))) = y # zs"
    by (simp add: dropWhile_append3 dropWhile_append) (metis (no_types, lifting) append_Nil2 dropWhile_append2 dropWhile_append3 dropWhile_eq_Nil_conv rev.simps(2) rev_append rev_rev_ident)
  with y Cons show ?thesis by auto
next
  case Nil
  then show ?thesis by (simp only: Nil) simp
qed

lemma trim_runes_idem: "trim_runes (trim_runes xs) = trim_runes xs"
  by (simp add: trim_runes_def dropWhile_dropWhile_rev)

text \<open>A label that was normalised is at most 256 bytes of valid UTF-8 in one line, and normalising it
  again changes nothing, so the label stored at acceptance passes the check every recovery makes.\<close>

theorem NormalizeLabel_correct:
  assumes "NormalizeLabel s = Inr t"
  shows "NormalizeLabel t = Inr t \<and> TrimSpace t = t \<and> ValidString t \<and> length t \<le> 256
    \<and> (\<forall>(r, w) \<in> set (runes t). 0x20 \<le> r \<and> r \<noteq> 0x7F \<and> r \<noteq> 0x2028 \<and> r \<noteq> 0x2029)"
proof -
  have v: "ValidString s" and t: "t = TrimSpace s" and l: "length t \<le> MaxLabelBytes"
    and r: "list_all (\<lambda>(r, _). label_rune r) (runes t)"
    using assms by (auto simp: NormalizeLabel_def Let_def split: if_splits)
  have rt: "runes t = trim_runes (runes s)" using v t by (simp add: runes_TrimSpace)
  have vt: "ValidString t"
    using v set_trim_runes [of "runes s"] by (auto simp: ValidString_def rt list_all_iff)
  have tt: "TrimSpace t = t"
    unfolding TrimSpace_trim [of t] rt trim_runes_idem using t by (simp add: TrimSpace_trim)
  have "NormalizeLabel t = Inr t"
    using vt tt l r by (simp add: NormalizeLabel_def)
  with vt tt l r show ?thesis
    by (auto simp: MaxLabelBytes_def list_all_iff label_rune_def)
qed

lemma NormalizeLabel_correct_witness: "NormalizeLabel ''a b'' = Inr ''a b''"
proof -
  have "NormalizeLabel '' a b '' = Inr ''a b''"
    by (simp add: NormalizeLabel_def TrimSpace_def IsSpace_def byte_def MaxLabelBytes_def label_rune_def)
  from NormalizeLabel_correct [OF this] show ?thesis by blast
qed

end
