(* ===== verification/Journal.thy ===== *)
theory Journal
  imports Decision Checkpoint Immutable
begin

text \<open>
  What the acceptance provider keeps (go/acceptanceprovider): the journal of one request
  (provider.go, journal_codec.go), who submitted it (subject.go), the owner's configuration
  (compatibility.go), the guarantees and the preparation of work, and the check every reading
  of a journal makes (\<open>decodeJournal\<close>).

  The executor is an interface with optional halves: a record of functions, an absent half is
  \<open>None\<close>.  Code that is not in the repository is a parameter: the executor's functions, the
  digest (\<open>suSha\<close>, SHA-256 in hexadecimal) and the path rules of the operating system
  (\<open>suAbs\<close>, \<open>suClean\<close>).  A journal is a value here; the JSON it is written in carries every
  string through the replacement of malformed UTF-8, which \<open>journal_wire\<close> writes out.
\<close>

section \<open>Subjects and bindings (subject.go)\<close>

record AuthenticatedSubject =
  asKind :: string
  asAccount :: string
  asExecutable :: string
  asProgram :: string

text \<open>A binding may carry the native peer it was derived from; only its presence is read here.\<close>

record Binding =
  bdScope :: string
  bdSubject :: "AuthenticatedSubject option"
  bdOrigin :: string
  bdEvidence :: string
  bdPeer :: bool

definition no_binding :: Binding where
  "no_binding = \<lparr>bdScope = [], bdSubject = None, bdOrigin = [], bdEvidence = [], bdPeer = False\<rparr>"

record surroundings =
  suSha :: "string \<Rightarrow> string"
  suAbs :: "string \<Rightarrow> bool"
  suClean :: "string \<Rightarrow> string"

definition MaxCallerScopeBytes :: nat where "MaxCallerScopeBytes = 4096"
definition MaxSpecBytes :: nat where "MaxSpecBytes = 1024 * 1024"

text \<open>\<open>json.Marshal\<close> of a \<open>[]string\<close>.\<close>

definition json_strings :: "string list \<Rightarrow> string" where
  "json_strings xs = ''['' @ join '','' (map (quote True) xs) @ '']''"

definition LocalSubjectScope :: "surroundings \<Rightarrow> string \<Rightarrow> string \<Rightarrow> string \<Rightarrow> string res" where
  "LocalSubjectScope su kind account executable =
     (if (kind \<noteq> ''windows'' \<and> kind \<noteq> ''posix'') \<or> account = [] \<or> executable = [] \<or> \<not> suAbs su executable
      then Inl (ErrPlain ''proven account and absolute executable required'')
      else Inr (''owner-program@1:'' @ suSha su (json_strings [''owner-program@1'', kind, account, suClean su executable])))"

text \<open>\<open>hex.DecodeString\<close>.\<close>

fun hex_decode :: "string \<Rightarrow> nat list option" where
  "hex_decode [] = Some []"
| "hex_decode [c] = None"
| "hex_decode (c # d # s) =
     (if is_hex c \<and> is_hex d then map_option (\<lambda>bs. (hex_value c * 16 + hex_value d) # bs) (hex_decode s) else None)"

definition local_or_remote :: "string \<Rightarrow> bool" where
  "local_or_remote w \<longleftrightarrow> w = ''local'' \<or> w = ''remote''"

definition valid_binding :: "surroundings \<Rightarrow> Binding \<Rightarrow> bool" where
  "valid_binding su b \<longleftrightarrow>
     \<not> (bdScope b = [] \<or> MaxCallerScopeBytes < length (bdScope b) \<or> \<not> ValidString (bdScope b))
   \<and> \<not> (bdPeer b \<and> bdOrigin b \<noteq> ''local'')
   \<and> (case bdSubject b of
        None \<Rightarrow> \<not> (bdOrigin b \<noteq> [] \<or> bdEvidence b \<noteq> [])
      | Some s \<Rightarrow>
          \<not> ((asKind s \<noteq> ''windows'' \<and> asKind s \<noteq> ''posix'') \<or> asAccount s = [] \<or> asProgram s = []
             \<or> \<not> ValidString (asAccount s) \<or> \<not> ValidString (asProgram s) \<or> 1024 < length (asAccount s)
             \<or> 4096 < length (asProgram s) \<or> \<not> local_or_remote (bdOrigin b))
        \<and> (if bdOrigin b = ''local'' then
             bdEvidence b = []
             \<and> \<not> (asExecutable s = [] \<or> \<not> suAbs su (asExecutable s) \<or> suClean su (asExecutable s) \<noteq> asExecutable s)
             \<and> LocalSubjectScope su (asKind s) (asAccount s) (asExecutable s) = Inr (bdScope b)
           else
             asExecutable s = []
             \<and> (case hex_decode (bdEvidence b) of
                  None \<Rightarrow> False
                | Some key \<Rightarrow> length key = 32 \<and> \<not> list_all (\<lambda>x. x = 0) key)))"

section \<open>The configuration and the storage features (compatibility.go)\<close>

record configuration =
  cfVersion :: int
  cfOwner :: string
  cfEpoch :: string
  cfRetentionMs :: int
  cfExecution :: string
  cfFeatures :: "string list"

definition MinimumRetentionMs :: int where "MinimumRetentionMs = 24 * 60 * 60 * 1000"

definition StorageFeatureAttempts :: string where "StorageFeatureAttempts = ''abstraction.job/journal-attempts@1''"
definition StorageFeatureResultLost :: string where "StorageFeatureResultLost = ''abstraction.job/journal-result-lost@1''"
definition StorageFeatureLabels :: string where "StorageFeatureLabels = ''abstraction.job/journal-labels@1''"
definition StorageFeatureSubjects :: string where "StorageFeatureSubjects = ''abstraction.job/journal-subjects@1''"

definition SupportedStorageFeatures :: "string list" where
  "SupportedStorageFeatures =
     [StorageFeatureAttempts, StorageFeatureResultLost, StorageFeatureLabels, StorageFeatureSubjects]"

section \<open>The executor and the guarantees (provider.go)\<close>

type_synonym preparation = "string \<Rightarrow> string \<Rightarrow> string list \<Rightarrow> (string \<times> string list) res"

record executor =
  exProfile :: string
  exPrepare :: "string \<Rightarrow> string \<Rightarrow> string \<Rightarrow> string res"
  exGuaranteed :: "(string list \<times> (string \<Rightarrow> preparation)) option"
  exRecoverable :: "string list option"
  exScoped :: "(string \<Rightarrow> string \<Rightarrow> preparation) option"
  exSubjectScoped :: "(Binding \<Rightarrow> string \<Rightarrow> preparation) option"
  exLegacy :: "(string \<Rightarrow> preparation) option"
  exAdmission :: "(string \<Rightarrow> string \<Rightarrow> string \<Rightarrow> string list \<Rightarrow> AcceptanceOutcome \<times> string) option"
  exSubjectAdmission :: "(Binding \<Rightarrow> string \<Rightarrow> string \<Rightarrow> string list \<Rightarrow> AcceptanceOutcome \<times> string) option"
  exLabel :: "(string \<Rightarrow> string \<Rightarrow> string) option"
  exRightsRefused :: "(Record \<Rightarrow> bool) option"

definition GuaranteeCallerExit :: string where "GuaranteeCallerExit = ''abstraction.job/caller-exit@1''"
definition GuaranteeServiceRestart :: string where "GuaranteeServiceRestart = ''abstraction.job/service-restart@1''"
definition GuaranteeReconciliation :: string where "GuaranteeReconciliation = ''abstraction.job/reconciliation@1''"

definition Guarantees :: "string list" where
  "Guarantees = [GuaranteeCallerExit, GuaranteeServiceRestart, GuaranteeReconciliation]"

fun appendGuarantees :: "string list \<Rightarrow> string list \<Rightarrow> string list" where
  "appendGuarantees values [] = values"
| "appendGuarantees values (g # gs) =
     (if g \<noteq> [] \<and> length g \<le> 256 \<and> ValidString g \<and> \<not> contains values g then appendGuarantees (values @ [g]) gs
      else appendGuarantees values gs)"

definition SupportedGuarantees :: "executor option \<Rightarrow> string list" where
  "SupportedGuarantees ex =
     (case ex of
        None \<Rightarrow> Guarantees
      | Some e \<Rightarrow> (case exGuaranteed e of None \<Rightarrow> Guarantees | Some (gs, _) \<Rightarrow> appendGuarantees Guarantees gs))"

definition recoverableGuarantees :: "executor option \<Rightarrow> string list" where
  "recoverableGuarantees ex =
     (let values = SupportedGuarantees ex in
      case ex of
        None \<Rightarrow> values
      | Some e \<Rightarrow> (case exRecoverable e of None \<Rightarrow> values | Some gs \<Rightarrow> appendGuarantees values gs))"

fun accept_more :: "string list \<Rightarrow> string list \<Rightarrow> string list \<Rightarrow> string list res" where
  "accept_more supported values [] = Inr values"
| "accept_more supported values (g # required) =
     (if \<not> contains supported g then Inl (ErrPlain (''unsupported guarantee: '' @ g))
      else accept_more supported (if contains values g then values else values @ [g]) required)"

definition acceptedFrom :: "string list \<Rightarrow> string list \<Rightarrow> string list res" where
  "acceptedFrom supported required = accept_more supported Guarantees required"

section \<open>The preparation of work (provider.go)\<close>

definition extra :: "Submission \<Rightarrow> string list" where
  "extra s = filter (\<lambda>g. \<not> contains Guarantees g) (suRequired s)"

definition checked_requires :: "(string \<times> string list) res \<Rightarrow> (string \<times> string list) res" where
  "checked_requires p =
     rbind p (\<lambda>(work, requires).
     if 64 < length requires then Inl (ErrPlain ''too many execution requirements'')
     else if \<not> list_all (\<lambda>g. \<not> (g = [] \<or> 256 < length g \<or> \<not> ValidString g)) requires
     then Inl (ErrPlain ''invalid execution requirement'')
     else Inr (work, requires))"

definition prepare :: "executor option \<Rightarrow> string \<Rightarrow> string \<Rightarrow> Submission \<Rightarrow> (string \<times> string list) res" where
  "prepare ex scope id' s =
     (case ex of
        None \<Rightarrow> if extra s \<noteq> [] then Inl (ErrPlain ''execution guarantees unavailable'') else Inr ([], [])
      | Some e \<Rightarrow>
          (case exScoped e of
             Some f \<Rightarrow> checked_requires (f scope id' (suKind s) (suSpec s) (extra s))
           | None \<Rightarrow>
               if extra s \<noteq> [] then
                 (case exGuaranteed e of
                    None \<Rightarrow> Inl (ErrPlain ''execution guarantees unavailable'')
                  | Some (_, f) \<Rightarrow> checked_requires (f id' (suKind s) (suSpec s) (extra s)))
               else rbind (exPrepare e id' (suKind s) (suSpec s)) (\<lambda>work. Inr (work, []))))"

definition prepareBinding :: "executor option \<Rightarrow> Binding \<Rightarrow> string \<Rightarrow> Submission \<Rightarrow> (string \<times> string list) res" where
  "prepareBinding ex b id' s =
     (case (bdSubject b, ex) of
        (Some _, Some e) \<Rightarrow>
          (case exSubjectScoped e of
             None \<Rightarrow> prepare ex (bdScope b) id' s
           | Some f \<Rightarrow> checked_requires (f b id' (suKind s) (suSpec s) (extra s)))
      | _ \<Rightarrow> prepare ex (bdScope b) id' s)"

definition legacyMigrationOrigin :: string where
  "legacyMigrationOrigin = ''abstraction.job/legacy-migration@1''"

definition prepareOrigin :: "executor option \<Rightarrow> string \<Rightarrow> string \<Rightarrow> Submission \<Rightarrow> string \<Rightarrow> (string \<times> string list) res" where
  "prepareOrigin ex scope id' s origin =
     (if origin = [] then prepare ex scope id' s
      else if origin \<noteq> legacyMigrationOrigin then Inl (ErrPlain ''unknown work origin'')
      else case ex of
        None \<Rightarrow> Inr ([], [])
      | Some e \<Rightarrow>
          (case exLegacy e of
             None \<Rightarrow> Inl (ErrPlain ''executor cannot accept migrated legacy work'')
           | Some f \<Rightarrow> checked_requires (f id' (suKind s) (suSpec s) (extra s))))"

section \<open>The journal\<close>

record journal =
  jVersion :: int
  jScope :: string
  jSubject :: "AuthenticatedSubject option"
  jSubjectOrigin :: string
  jSubjectEvidence :: string
  jIdentity :: RequestIdentity
  jPhase :: string
  jArguments :: "Submission option"
  jReceipt :: "Receipt option"
  jReason :: string
  jWorkSpec :: string
  jWorkRequires :: "string list"
  jOrigin :: string
  jResultLost :: bool
  jLabel :: string
  jLabelDerived :: bool

definition workSpec :: "journal \<Rightarrow> string" where
  "workSpec j = (if jVersion j = 2 then jWorkSpec j
     else case jArguments j of None \<Rightarrow> [] | Some s \<Rightarrow> suSpec s)"

definition prepareJournal :: "executor option \<Rightarrow> journal \<Rightarrow> Receipt \<Rightarrow> Submission \<Rightarrow> (string \<times> string list) res" where
  "prepareJournal ex j r s =
     (case jSubject j of
        Some subject \<Rightarrow>
          if jOrigin j \<noteq> [] then Inl (ErrPlain ''subject on migrated work'')
          else prepareBinding ex \<lparr>bdScope = jScope j, bdSubject = Some subject, bdOrigin = jSubjectOrigin j,
                 bdEvidence = jSubjectEvidence j, bdPeer = False\<rparr> (reOperation r) s
      | None \<Rightarrow> prepareOrigin ex (jScope j) (reOperation r) s (jOrigin j))"

text \<open>What a string is after a journey through JSON: malformed UTF-8 becomes U+FFFD.\<close>

definition wire :: "string \<Rightarrow> string" where
  "wire s = unquote (quote_body True s)"

definition wire_identity :: "RequestIdentity \<Rightarrow> RequestIdentity" where
  "wire_identity i = \<lparr>riKey = wire (riKey i), riHistoryEpoch = wire (riHistoryEpoch i), riAttempt = riAttempt i\<rparr>"

definition wire_submission :: "Submission \<Rightarrow> Submission" where
  "wire_submission s = \<lparr>suIdentity = wire_identity (suIdentity s), suKind = wire (suKind s), suSpec = suSpec s,
     suRequired = map wire (suRequired s), suLabel = []\<rparr>"

definition wire_receipt :: "Receipt \<Rightarrow> Receipt" where
  "wire_receipt r = \<lparr>reIdentity = wire_identity (reIdentity r), reOwner = wire (reOwner r),
     reOperation = wire (reOperation r), reGuarantees = map wire (reGuarantees r), reRetentionMs = reRetentionMs r\<rparr>"

definition wire_subject :: "AuthenticatedSubject \<Rightarrow> AuthenticatedSubject" where
  "wire_subject a = \<lparr>asKind = wire (asKind a), asAccount = wire (asAccount a), asExecutable = wire (asExecutable a),
     asProgram = wire (asProgram a)\<rparr>"

text \<open>\<open>UnmarshalJSON\<close> of \<open>MarshalJSON\<close>: the journal a reader gets back.  The arguments carry no
  label.\<close>

definition journal_wire :: "journal \<Rightarrow> journal" where
  "journal_wire j = \<lparr>jVersion = jVersion j, jScope = wire (jScope j), jSubject = map_option wire_subject (jSubject j),
     jSubjectOrigin = wire (jSubjectOrigin j), jSubjectEvidence = wire (jSubjectEvidence j),
     jIdentity = wire_identity (jIdentity j), jPhase = wire (jPhase j),
     jArguments = map_option wire_submission (jArguments j), jReceipt = map_option wire_receipt (jReceipt j),
     jReason = wire (jReason j), jWorkSpec = jWorkSpec j, jWorkRequires = map wire (jWorkRequires j),
     jOrigin = wire (jOrigin j), jResultLost = jResultLost j, jLabel = wire (jLabel j), jLabelDerived = jLabelDerived j\<rparr>"

text \<open>\<open>validateSpec\<close>: the record a submission would become must encode.\<close>

definition validation_record :: "time \<Rightarrow> Submission \<Rightarrow> Record" where
  "validation_record now s = zero_record\<lparr>rID := ''validation'', rKind := suKind s, rSpec := suSpec s,
     rState := StatePending, rCreatedAt := At now, rUpdatedAt := At now,
     rProgress := zero_progress\<lparr>pUpdatedAt := At now\<rparr>\<rparr>"

definition validateSpec :: "time \<Rightarrow> Submission \<Rightarrow> unit res" where
  "validateSpec now s =
     rbind (ValidateSubmission s) (\<lambda>_.
     if 1024 < length (riKey (suIdentity s)) \<or> 1024 < length (riHistoryEpoch (suIdentity s)) \<or> 256 < length (suKind s)
        \<or> 64 < length (suRequired s) \<or> MaxSpecBytes < length (suSpec s)
     then Inl (ErrPlain ''submission limit exceeded'')
     else if \<not> list_all (\<lambda>g. length g \<le> 256) (suRequired s) then Inl (ErrPlain ''guarantee limit exceeded'')
     else rbind (canonicalise (validation_record now s)) Validate)"

definition operation_char :: "char \<Rightarrow> bool" where
  "operation_char c \<longleftrightarrow> between 48 c 57 \<or> between 97 c 122 \<or> c = CHR ''-''"

definition validOperationID :: "string \<Rightarrow> bool" where
  "validOperationID id' \<longleftrightarrow> id' \<noteq> [] \<and> length id' \<le> 128 \<and> list_all operation_char id'"

definition evidence_of :: "journal \<Rightarrow> bool \<Rightarrow> Evidence" where
  "evidence_of j sealed = \<lparr>evScope = jScope j, evIdentity = jIdentity j, evArguments = jArguments j,
     evReceipt = jReceipt j, evAvailable = True, evExpired = False, evSealed = sealed, evUndecided = False\<rparr>"

definition bad_journal :: "'a res" where
  "bad_journal = Inl (ErrPlain ''invalid recovery journal'')"

text \<open>\<open>decodeJournal\<close> after the bytes have been read: \<open>marked\<close> are the features the provider has
  recorded since it opened.\<close>

definition check_accepted ::
    "executor option \<Rightarrow> configuration \<Rightarrow> time \<Rightarrow> journal \<Rightarrow> Submission \<Rightarrow> Receipt \<Rightarrow> journal res" where
  "check_accepted ex cf now j s r =
     (if 128 < length (reOperation r) \<or> \<not> list_all operation_char (reOperation r) then bad_journal
      else if arOutcome (ReconcileEvidence (jScope j) (cfOwner cf) (jIdentity j) None (evidence_of j False)) \<noteq> OutcomeAccepted
              \<or> reRetentionMs r \<noteq> cfRetentionMs cf then bad_journal
      else case acceptedFrom (recoverableGuarantees ex) (suRequired s) of
        Inl _ \<Rightarrow> bad_journal
      | Inr expected \<Rightarrow>
          if length (reGuarantees r) \<noteq> length expected \<or> \<not> list_all (contains expected) (reGuarantees r) then bad_journal
          else rbind (validateSpec now s) (\<lambda>_.
            case ex of
              Some _ \<Rightarrow>
                (case prepareJournal ex j r s of
                   Inl _ \<Rightarrow> bad_journal
                 | Inr (work, requires) \<Rightarrow>
                     if work \<noteq> jWorkSpec j \<or> requires \<noteq> jWorkRequires j then bad_journal else Inr j)
            | None \<Rightarrow> if jWorkSpec j \<noteq> [] \<or> jWorkRequires j \<noteq> [] then bad_journal else Inr j))"

definition check_journal ::
    "surroundings \<Rightarrow> executor option \<Rightarrow> configuration \<Rightarrow> string list \<Rightarrow> time \<Rightarrow> journal \<Rightarrow> journal res" where
  "check_journal su ex cf marked now j =
     (if jVersion j \<noteq> cfVersion cf \<or> jScope j = [] \<or> MaxCallerScopeBytes < length (jScope j)
         \<or> riAttempt (jIdentity j) < 0 \<or> riKey (jIdentity j) = [] \<or> 1024 < length (riKey (jIdentity j))
         \<or> riHistoryEpoch (jIdentity j) \<noteq> cfEpoch cf \<or> 1024 < length (jReason j) then bad_journal
      else if jOrigin j \<noteq> [] \<and> jOrigin j \<noteq> legacyMigrationOrigin then bad_journal
      else if (jSubject j \<noteq> None \<or> jSubjectOrigin j \<noteq> [] \<or> jSubjectEvidence j \<noteq> [])
              \<and> (\<not> (contains marked StorageFeatureSubjects \<or> contains (cfFeatures cf) StorageFeatureSubjects)
                 \<or> \<not> valid_binding su \<lparr>bdScope = jScope j, bdSubject = jSubject j, bdOrigin = jSubjectOrigin j,
                      bdEvidence = jSubjectEvidence j, bdPeer = False\<rparr>
                 \<or> jSubject j = None) then bad_journal
      else if NormalizeLabel (jLabel j) \<noteq> Inr (jLabel j) \<or> (jLabelDerived j \<and> jLabel j = []) then bad_journal
      else if jPhase j = ''sealed'' then
        (if jArguments j \<noteq> None \<or> jReceipt j \<noteq> None \<or> jWorkSpec j \<noteq> [] \<or> jWorkRequires j \<noteq> [] \<or> jOrigin j \<noteq> []
            \<or> jResultLost j \<or> jLabel j \<noteq> [] then bad_journal
         else Inr j)
      else if jPhase j \<noteq> ''prepared'' \<and> jPhase j \<noteq> ''published'' then bad_journal
      else case (jArguments j, jReceipt j) of
        (Some s, Some r) \<Rightarrow> check_accepted ex cf now j s r
      | _ \<Rightarrow> bad_journal)"

end
