(* ===== verification/Provider.thy ===== *)
theory Provider
  imports Journal StoreSpec
begin

text \<open>
  The acceptance provider (go/acceptanceprovider/provider.go, rerun.go and part of
  compatibility.go and standing.go): how a request becomes exactly one operation.

  The state is what the provider keeps on disk (the owner's header, the journals by the name of
  their file, the job store) and in memory (its configuration, the features it has recorded, the
  index of operations).  Each \<open>cas.Change\<close> is one step: it either writes the new journal or
  leaves everything as it was.  The points the source names \<open>crashPoint\<close> may fail
  (\<open>stFault\<close>): the call then ends there, with what has been written still written, which is
  also what a process that dies there leaves.  The job store is an argument, by the functions of
  its interface; a fresh id and the clock are arguments of the operations.
\<close>

section \<open>The state\<close>

record 's site =
  stSu :: surroundings
  stExecutor :: "executor option"
  stStanding :: "(string \<Rightarrow> AuthenticatedSubject \<Rightarrow> string \<Rightarrow> string res) option"
  stLoad :: "'s \<Rightarrow> string \<Rightarrow> Record res"
  stSubmit :: "string \<Rightarrow> time \<Rightarrow> Record \<Rightarrow> 's \<Rightarrow> 's \<times> string res"
  stRun :: "event \<Rightarrow> 's \<Rightarrow> 's \<times> Record res"
  stFault :: "string \<Rightarrow> bool"

record journalSubject =
  jsScope :: string
  jsSubject :: "AuthenticatedSubject option"
  jsOrigin :: string
  jsEvidence :: string
  jsPath :: string
  jsKind :: string

record 's provider =
  pConfig :: configuration
  pMarked :: "string list"
  pHeader :: "configuration option"
  pJournals :: "journal gomap"
  pSubjects :: "journalSubject gomap"
  pStore :: 's

definition failed :: "string \<Rightarrow> 'a res" where
  "failed why = Inl (ErrPlain why)"

section \<open>Journals on disk\<close>

definition requestPath :: "surroundings \<Rightarrow> string \<Rightarrow> RequestIdentity \<Rightarrow> string" where
  "requestPath su scope id' =
     suSha su (json_strings ([scope, ''abstraction.job/acceptance@1'', riHistoryEpoch id', riKey id']
       @ (if riAttempt id' \<noteq> 0 then [FormatInt (riAttempt id')] else []))) @ ''.json''"

definition decodeJournal :: "'s site \<Rightarrow> 's provider \<Rightarrow> time \<Rightarrow> journal option \<Rightarrow> journal res" where
  "decodeJournal st p now d =
     (case d of
        None \<Rightarrow> failed ''invalid recovery record size''
      | Some j \<Rightarrow> check_journal (stSu st) (stExecutor st) (pConfig p) (pMarked p) now j)"

definition write_journal :: "string \<Rightarrow> journal \<Rightarrow> 's provider \<Rightarrow> 's provider" where
  "write_journal path j p = p\<lparr>pJournals := gomap_put path (journal_wire j) (pJournals p)\<rparr>"

definition readJournal :: "'s site \<Rightarrow> 's provider \<Rightarrow> time \<Rightarrow> string \<Rightarrow> RequestIdentity \<Rightarrow> journal option res" where
  "readJournal st p now scope id' =
     (case map_of (pJournals p) (requestPath (stSu st) scope id') of
        None \<Rightarrow> Inr None
      | Some d \<Rightarrow>
          rbind (decodeJournal st p now (Some d)) (\<lambda>j.
          if jScope j \<noteq> scope \<or> jIdentity j \<noteq> id' then failed ''journal identity mismatch'' else Inr (Some j)))"

definition indexJournal :: "string \<Rightarrow> journal \<Rightarrow> 's provider \<Rightarrow> 's provider res" where
  "indexJournal path j p =
     (case jReceipt j of
        None \<Rightarrow> Inr p
      | Some r \<Rightarrow>
          if (case map_of (pSubjects p) (reOperation r) of None \<Rightarrow> False | Some prior \<Rightarrow> jsPath prior \<noteq> path)
          then failed ''duplicate operation association''
          else Inr (p\<lparr>pSubjects := gomap_put (reOperation r)
             \<lparr>jsScope = jScope j, jsSubject = jSubject j, jsOrigin = jSubjectOrigin j, jsEvidence = jSubjectEvidence j,
              jsPath = path, jsKind = (case jArguments j of None \<Rightarrow> [] | Some s \<Rightarrow> suKind s)\<rparr> (pSubjects p)\<rparr>))"

section \<open>The owner's header\<close>

text \<open>\<open>validateConfigurationFeatures\<close> on what has been read.\<close>

fun features_ok :: "string list \<Rightarrow> string list \<Rightarrow> string list \<Rightarrow> bool" where
  "features_ok supported before [] = True"
| "features_ok supported before (f # fs) =
     (contains supported f \<and> \<not> contains before f \<and> features_ok supported (before @ [f]) fs)"

definition validate_header ::
    "string \<Rightarrow> int \<Rightarrow> string \<Rightarrow> bool \<Rightarrow> string list \<Rightarrow> configuration \<Rightarrow> configuration res" where
  "validate_header owner ver profile managed supported c =
     (if \<not> features_ok supported [] (cfFeatures c) then failed ''incompatible storage''
      else if cfVersion c \<noteq> ver \<or> cfExecution c \<noteq> profile \<or> (\<not> managed \<and> cfOwner c \<noteq> owner) \<or> cfOwner c = []
              \<or> 1024 < length (cfOwner c) \<or> \<not> ValidString (cfOwner c) \<or> cfEpoch c = []
              \<or> cfRetentionMs c \<noteq> MinimumRetentionMs
      then failed ''incompatible storage''
      else Inr c)"

definition ensureFeature :: "string \<Rightarrow> 's provider \<Rightarrow> 's provider \<times> unit res" where
  "ensureFeature feature p =
     (if contains (pMarked p) feature then (p, Inr ())
      else case pHeader p of
        None \<Rightarrow> (p, failed ''owner configuration missing'')
      | Some cur \<Rightarrow>
          (case validate_header (cfOwner (pConfig p)) (cfVersion (pConfig p)) (cfExecution (pConfig p)) True
                  SupportedStorageFeatures cur of
             Inl e \<Rightarrow> (p, Inl e)
           | Inr c \<Rightarrow>
               if cfOwner c \<noteq> cfOwner (pConfig p) \<or> cfEpoch c \<noteq> cfEpoch (pConfig p)
               then (p, failed ''owner changed while open'')
               else
                 let c = (if contains (cfFeatures c) feature then c else c\<lparr>cfFeatures := cfFeatures c @ [feature]\<rparr>)
                 in (p\<lparr>pHeader := Some c, pMarked := feature # pMarked p\<rparr>, Inr ())))"

section \<open>From a journal to its one record\<close>

definition operation_record :: "journal \<Rightarrow> Submission \<Rightarrow> Receipt \<Rightarrow> Record" where
  "operation_record j s r = zero_record\<lparr>rID := reOperation r, rKind := suKind s, rSpec := workSpec j,
     rRequires := jWorkRequires j\<rparr>"

definition validateOperationRecord :: "journal \<Rightarrow> Submission \<Rightarrow> Receipt \<Rightarrow> Record \<Rightarrow> bool" where
  "validateOperationRecord j s r q \<longleftrightarrow>
     Compact (rSpec q) \<noteq> None \<and> Compact (workSpec j) \<noteq> None \<and> rID q = reOperation r \<and> rKind q = suKind s
   \<and> Compact (rSpec q) = Compact (workSpec j) \<and> rRequires q = jWorkRequires j"

text \<open>The record of a journal, inserted if the journal was never published.\<close>

definition load_or_submit ::
    "'s site \<Rightarrow> time \<Rightarrow> journal \<Rightarrow> Submission \<Rightarrow> Receipt \<Rightarrow> 's \<Rightarrow> 's \<times> Record res" where
  "load_or_submit st now j s r store =
     (case stLoad st store (reOperation r) of
        Inr q \<Rightarrow> (store, Inr q)
      | Inl e \<Rightarrow>
          if e = ErrNotFound \<and> jPhase j = ''prepared'' then
            (case stSubmit st [] now (operation_record j s r) store of
               (store', Inl e) \<Rightarrow> (store', Inl e)
             | (store', Inr _) \<Rightarrow>
                 (store', if stFault st ''after-job'' then failed ''after-job'' else stLoad st store' (reOperation r)))
          else (store, Inl e))"

definition materialize :: "'s site \<Rightarrow> time \<Rightarrow> string \<Rightarrow> 's provider \<Rightarrow> 's provider \<times> unit res" where
  "materialize st now path p =
     (case decodeJournal st p now (map_of (pJournals p) path) of
        Inl e \<Rightarrow> (p, Inl e)
      | Inr j \<Rightarrow>
          if jPhase j = ''sealed'' then (p, Inr ())
          else (case (jArguments j, jReceipt j) of
              (Some s, Some r) \<Rightarrow>
                (case load_or_submit st now j s r (pStore p) of
                   (store, Inl e) \<Rightarrow> (p\<lparr>pStore := store\<rparr>, Inl e)
                 | (store, Inr q) \<Rightarrow>
                     let p = p\<lparr>pStore := store\<rparr> in
                     if \<not> validateOperationRecord j s r q then (p, failed ''operation does not match admission'')
                     else if jPhase j = ''published'' then (p, Inr ())
                     else (write_journal path (j\<lparr>jPhase := ''published''\<rparr>) p, Inr ()))
            | _ \<Rightarrow> (p, bad_journal)))"

section \<open>Evidence of earlier attempts\<close>

definition state_text :: "state \<Rightarrow> string" where
  "state_text s = (case s of
     StatePending \<Rightarrow> ''pending'' | StateRunning \<Rightarrow> ''running'' | StateTransferred \<Rightarrow> ''transferred''
   | StateComplete \<Rightarrow> ''complete'' | StateFailed \<Rightarrow> ''failed'' | StateCancelled \<Rightarrow> ''cancelled''
   | StateOther w \<Rightarrow> w)"

text \<open>The walk back over sealed attempts; \<open>n\<close> is the attempt of \<open>j\<close>.  The outer \<open>None\<close> is a
  journal that cannot be read.\<close>

fun latest_accepted ::
    "(nat \<Rightarrow> journal option res) \<Rightarrow> nat \<Rightarrow> journal \<Rightarrow> Submission option option" where
  "latest_accepted rd 0 j = Some (if jPhase j \<noteq> ''sealed'' then jArguments j else None)"
| "latest_accepted rd (Suc n) j =
     (if jPhase j \<noteq> ''sealed'' then Some (jArguments j)
      else case rd n of
        Inl _ \<Rightarrow> None
      | Inr None \<Rightarrow> Some None
      | Inr (Some w) \<Rightarrow> latest_accepted rd n w)"

definition contradictory :: AttemptEvidence where
  "contradictory = \<lparr>aePrevious = ''contradictory'', aeState = [], aeLatest = None\<rparr>"

definition attemptEvidence ::
    "'s site \<Rightarrow> time \<Rightarrow> string \<Rightarrow> RequestIdentity \<Rightarrow> 's provider \<Rightarrow> 's provider \<times> AttemptEvidence" where
  "attemptEvidence st now scope id' p =
     (let previous = id'\<lparr>riAttempt := riAttempt id' - 1\<rparr> in
      case readJournal st p now scope previous of
        Inl _ \<Rightarrow> (p, contradictory)
      | Inr None \<Rightarrow> (p, \<lparr>aePrevious = ''absent'', aeState = [], aeLatest = None\<rparr>)
      | Inr (Some j) \<Rightarrow>
          (let sealed = (jPhase j = ''sealed'');
               (p, state) =
                 (if sealed then (p, [])
                  else case materialize st now (requestPath (stSu st) scope previous) p of
                    (p, Inl _) \<Rightarrow> (p, [])
                  | (p, Inr _) \<Rightarrow>
                      (p, case jReceipt j of
                            None \<Rightarrow> []
                          | Some r \<Rightarrow>
                              (case stLoad st (pStore p) (reOperation r) of Inl _ \<Rightarrow> [] | Inr q \<Rightarrow> state_text (rState q))));
               state = (if \<not> sealed \<and> jResultLost j then state_text StateFailed else state)
           in case latest_accepted (\<lambda>n. readJournal st p now scope (id'\<lparr>riAttempt := int n\<rparr>))
                     (nat (riAttempt previous)) j of
                None \<Rightarrow> (p, contradictory)
              | Some a \<Rightarrow>
                  (p, \<lparr>aePrevious = (if sealed then ''sealed'' else ''accepted''), aeState = state, aeLatest = a\<rparr>)))"

section \<open>Admission\<close>

definition admission :: "'s site \<Rightarrow> Binding \<Rightarrow> Submission \<Rightarrow> AcceptanceResult option" where
  "admission st b s =
     (case stExecutor st of
        None \<Rightarrow> None
      | Some e \<Rightarrow>
          (case exAdmission e of
             None \<Rightarrow> None
           | Some check \<Rightarrow>
               (case acceptedFrom (SupportedGuarantees (stExecutor st)) (suRequired s) of
                  Inl _ \<Rightarrow> None
                | Inr _ \<Rightarrow>
                    let (word, reason) =
                      (case (bdSubject b, exSubjectAdmission e) of
                         (Some _, Some f) \<Rightarrow> f b (suKind s) (suSpec s) (extra s)
                       | _ \<Rightarrow> check (bdScope b) (suKind s) (suSpec s) (extra s));
                      reason = (if reason = [] \<or> 1024 < length reason \<or> \<not> ValidString reason
                                then ''the executor refused this submission'' else reason)
                    in if word \<notin> set [OutcomeInvalid, OutcomeForbidden, OutcomeUnavailable] then None
                       else Some (outcome word reason))))"

definition checkAdmission ::
    "'s site \<Rightarrow> time \<Rightarrow> Binding \<Rightarrow> RequestIdentity \<Rightarrow> Submission \<Rightarrow> 's provider \<Rightarrow> AcceptanceResult option" where
  "checkAdmission st now b id' s p =
     (if readJournal st p now (bdScope b) id' \<noteq> Inr None then None else admission st b s)"

definition label_of :: "executor option \<Rightarrow> Submission \<Rightarrow> string \<times> bool" where
  "label_of ex s =
     (case NormalizeLabel (suLabel s) of
        Inr (c # text) \<Rightarrow> (c # text, False)
      | _ \<Rightarrow>
          (case ex of
             None \<Rightarrow> ([], False)
           | Some e \<Rightarrow>
               (case exLabel e of
                  None \<Rightarrow> ([], False)
                | Some derive \<Rightarrow>
                    (case NormalizeLabel (derive (suKind s) (suSpec s)) of
                       Inr (c # text) \<Rightarrow> (c # text, True)
                     | _ \<Rightarrow> ([], False)))))"

text \<open>The journal a new identity gets: sealed, or prepared with the operation \<open>newop\<close>.\<close>

definition sealed_journal :: "configuration \<Rightarrow> string \<Rightarrow> RequestIdentity \<Rightarrow> string \<Rightarrow> journal" where
  "sealed_journal cf scope id' reason =
     \<lparr>jVersion = cfVersion cf, jScope = scope, jSubject = None, jSubjectOrigin = [], jSubjectEvidence = [],
      jIdentity = id', jPhase = ''sealed'', jArguments = None, jReceipt = None, jReason = reason, jWorkSpec = [],
      jWorkRequires = [], jOrigin = [], jResultLost = False, jLabel = [], jLabelDerived = False\<rparr>"

definition new_work :: "'s site \<Rightarrow> Binding \<Rightarrow> string \<Rightarrow> Submission \<Rightarrow> (string \<times> string list) res" where
  "new_work st b newop s =
     (case stExecutor st of
        None \<Rightarrow> Inr ([], [])
      | Some _ \<Rightarrow>
          rbind (prepareBinding (stExecutor st) b newop s) (\<lambda>(work, requires).
          if MaxSpecBytes < length work \<or> \<not> Valid work then failed ''configured executor refused this work''
          else Inr (work, requires)))"

definition new_journal ::
    "'s site \<Rightarrow> configuration \<Rightarrow> Binding \<Rightarrow> RequestIdentity \<Rightarrow> Submission option \<Rightarrow> string \<times> bool \<Rightarrow> string \<Rightarrow> journal" where
  "new_journal st cf b id' submitted lbl newop =
     (let sealed = sealed_journal cf (bdScope b) id' in
      case submitted of
        None \<Rightarrow> sealed ''identity sealed before acceptance''
      | Some s \<Rightarrow>
          (case acceptedFrom (SupportedGuarantees (stExecutor st)) (suRequired s) of
             Inl e \<Rightarrow> sealed (case e of ErrPlain why \<Rightarrow> why | _ \<Rightarrow> [])
           | Inr accepted \<Rightarrow>
               (case new_work st b newop s of
                  Inl _ \<Rightarrow> sealed ''configured executor refused this work''
                | Inr (work, requires) \<Rightarrow>
                    (sealed ''identity sealed before acceptance'')\<lparr>jPhase := ''prepared'', jWorkSpec := work, jWorkRequires := requires,
                      jSubject := bdSubject b,
                      jSubjectOrigin := (if bdSubject b = None then [] else bdOrigin b),
                      jSubjectEvidence := (if bdSubject b = None then [] else bdEvidence b),
                      jArguments := Some s, jLabel := fst lbl, jLabelDerived := snd lbl,
                      jReceipt := Some \<lparr>reIdentity = id', reOwner = cfOwner cf, reOperation = newop,
                        reGuarantees = accepted, reRetentionMs = cfRetentionMs cf\<rparr>\<rparr>)))"

section \<open>Rights (standing.go, rerun.go)\<close>

definition standingErrorPrefix :: string where
  "standingErrorPrefix = ''standing: ''"

text \<open>The refusal a record failed for, if it failed for a refused rule.\<close>

definition standingFailure :: "Record \<Rightarrow> string option" where
  "standingFailure q =
     (if rState q \<noteq> StateFailed \<or> take (length standingErrorPrefix) (rError q) \<noteq> standingErrorPrefix then None
      else Some (drop (length standingErrorPrefix) (rError q)))"

definition refusedByRights :: "executor option \<Rightarrow> Record \<Rightarrow> bool" where
  "refusedByRights ex q =
     (if rState q \<noteq> StateFailed then False
      else if standingFailure q \<noteq> None then True
      else case ex of
        None \<Rightarrow> False
      | Some e \<Rightarrow> (case exRightsRefused e of None \<Rightarrow> False | Some f \<Rightarrow> f q))"

definition policy_unavailable :: AcceptanceResult where
  "policy_unavailable =
     outcome OutcomeUnavailable ''policy decision unavailable; the same identity may be presented again''"

text \<open>What stands in the way of running refused work again: the rule, the executor's admission, or its
  preparation.  \<open>None\<close> is nothing, with the work of the new operation.\<close>

definition rerun_work ::
    "'s site \<Rightarrow> Binding \<Rightarrow> string \<Rightarrow> journal \<Rightarrow> Submission \<Rightarrow> AcceptanceResult + (string \<times> string list)" where
  "rerun_work st b newop j s =
     (let rule =
        (case (stStanding st, jSubject j) of
           (Some decide, Some subject) \<Rightarrow>
             (case decide ''resubmit'' subject (case jArguments j of None \<Rightarrow> [] | Some a \<Rightarrow> suKind a) of
                Inl _ \<Rightarrow> Some policy_unavailable
              | Inr word \<Rightarrow> if word \<noteq> [] then Some (outcome OutcomeForbidden word) else None)
         | _ \<Rightarrow> None)
      in case rule of
        Some v \<Rightarrow> Inl v
      | None \<Rightarrow>
          (case admission st b s of
             Some v \<Rightarrow> Inl v
           | None \<Rightarrow>
               (case new_work st b newop s of
                  Inl _ \<Rightarrow> Inl (outcome OutcomeInvalid ''configured executor refused this work'')
                | Inr w \<Rightarrow> Inr w)))"

definition evidence_unavailable :: AcceptanceResult where
  "evidence_unavailable = outcome OutcomeUnknown ''owner recovery evidence unavailable''"

text \<open>The transaction that names the new operation, if the journal still names the old one.\<close>

definition rerun_journal :: "executor option \<Rightarrow> string \<Rightarrow> string \<Rightarrow> string \<times> string list \<Rightarrow> journal \<Rightarrow> journal option" where
  "rerun_journal ex newop old w current =
     (case jReceipt current of
        None \<Rightarrow> None
      | Some r \<Rightarrow>
          if jPhase current \<noteq> ''published'' \<or> reOperation r \<noteq> old then None
          else Some (current\<lparr>jPhase := ''prepared'', jReceipt := Some (r\<lparr>reOperation := newop\<rparr>),
            jWorkSpec := (if ex = None then jWorkSpec current else fst w),
            jWorkRequires := (if ex = None then jWorkRequires current else snd w),
            jResultLost := False\<rparr>))"

definition rerun_commit ::
    "'s site \<Rightarrow> time \<Rightarrow> string \<Rightarrow> string \<Rightarrow> string \<Rightarrow> string \<times> string list \<Rightarrow> 's provider
      \<Rightarrow> 's provider \<times> (AcceptanceResult + journal)" where
  "rerun_commit st now newop path old w p =
     (case decodeJournal st p now (map_of (pJournals p) path) of
        Inl _ \<Rightarrow> (p, Inl evidence_unavailable)
      | Inr current \<Rightarrow>
          let next' = rerun_journal (stExecutor st) newop old w current;
              p = (case next' of None \<Rightarrow> p | Some n \<Rightarrow> write_journal path n p);
              n = (case next' of None \<Rightarrow> current | Some n \<Rightarrow> n)
          in case indexJournal path n p of
               Inl _ \<Rightarrow> (p, Inl evidence_unavailable)
             | Inr p \<Rightarrow> (p, Inr n))"

definition rerunRefused ::
    "'s site \<Rightarrow> time \<Rightarrow> string \<Rightarrow> Binding \<Rightarrow> string \<Rightarrow> journal \<Rightarrow> Receipt \<Rightarrow> Submission \<Rightarrow> 's provider
      \<Rightarrow> 's provider \<times> (AcceptanceResult + journal)" where
  "rerunRefused st now newop b path j r s p =
     (if jOrigin j \<noteq> [] then (p, Inr j)
      else case stLoad st (pStore p) (reOperation r) of
        Inl _ \<Rightarrow> (p, Inr j)
      | Inr q \<Rightarrow>
          if \<not> refusedByRights (stExecutor st) q then (p, Inr j)
          else case rerun_work st b newop j s of
            Inl v \<Rightarrow> (p, Inl v)
          | Inr w \<Rightarrow> rerun_commit st now newop path (reOperation r) w p)"

section \<open>Resolving a request\<close>

text \<open>The features a new journal needs are recorded first; the second result is the refusal, if any.\<close>

definition need_feature :: "bool \<Rightarrow> string \<Rightarrow> 's provider \<Rightarrow> 's provider \<times> AcceptanceResult option" where
  "need_feature need feature p =
     (if \<not> need then (p, None)
      else case ensureFeature feature p of
        (p, Inl _) \<Rightarrow> (p, Some (outcome OutcomeUnknown ''owner storage feature unavailable''))
      | (p, Inr _) \<Rightarrow> (p, None))"

definition reply_lost :: AcceptanceResult where
  "reply_lost = outcome OutcomeUnknown ''acceptance reply unavailable''"

text \<open>The first half: everything before the journal is written.  \<open>Inl\<close> is an answer without effect on
  the journals, \<open>Inr\<close> the eligibility to decide by if there is no journal yet.\<close>

definition resolve_before ::
    "'s site \<Rightarrow> time \<Rightarrow> Binding \<Rightarrow> RequestIdentity \<Rightarrow> Submission option \<Rightarrow> string \<times> bool \<Rightarrow> 's provider
      \<Rightarrow> 's provider \<times> (AcceptanceResult + AcceptanceResult)" where
  "resolve_before st now b id' submitted lbl p =
     (let (p, eligibility) =
        (if 0 < riAttempt id' then
           (case attemptEvidence st now (bdScope b) id' p of (p, e) \<Rightarrow> (p, AttemptEligibility id' submitted e))
         else (p, no_result));
          eligible = (arOutcome eligibility = OutcomeOther 0);
          (p, no) = need_feature (0 < riAttempt id' \<and> eligible) StorageFeatureAttempts p
      in case no of
        Some v \<Rightarrow> (p, Inl v)
      | None \<Rightarrow>
          if 0 < riAttempt id' \<and> eligible \<and> stFault st ''after-storage-feature'' then (p, Inl reply_lost)
          else
            let (p, no) = need_feature (fst lbl \<noteq> []) StorageFeatureLabels p in
            case no of
              Some v \<Rightarrow> (p, Inl v)
            | None \<Rightarrow>
                (case (if submitted \<noteq> None \<and> (riAttempt id' = 0 \<or> eligible)
                       then checkAdmission st now b id' (the submitted) p else None) of
                   Some v \<Rightarrow> (p, Inl v)
                 | None \<Rightarrow>
                     let (p, no) = need_feature (submitted \<noteq> None \<and> bdSubject b \<noteq> None) StorageFeatureSubjects p in
                     case no of Some v \<Rightarrow> (p, Inl v) | None \<Rightarrow> (p, Inr eligibility)))"

text \<open>The transaction on the journal: the journal there, or a new one.\<close>

definition resolve_journal ::
    "'s site \<Rightarrow> time \<Rightarrow> string \<Rightarrow> Binding \<Rightarrow> RequestIdentity \<Rightarrow> Submission option \<Rightarrow> string \<times> bool
      \<Rightarrow> AcceptanceResult \<Rightarrow> 's provider \<Rightarrow> 's provider \<times> (AcceptanceResult + journal)" where
  "resolve_journal st now newop b id' submitted lbl eligibility p =
     (let path = requestPath (stSu st) (bdScope b) id' in
      case map_of (pJournals p) path of
        Some cur \<Rightarrow>
          (case decodeJournal st p now (Some cur) of
             Inl _ \<Rightarrow> (p, Inl evidence_unavailable)
           | Inr j \<Rightarrow> (p, Inr j))
      | None \<Rightarrow>
          if arOutcome eligibility \<noteq> OutcomeOther 0 then (p, Inl eligibility)
          else
            let j = new_journal st (pConfig p) b id' submitted lbl newop
            in (write_journal path j p, Inr j))"

definition is_accepted :: "AcceptanceResult \<Rightarrow> bool" where
  "is_accepted v \<longleftrightarrow> arOutcome v = OutcomeAccepted"

text \<open>What follows the transaction: the answer the evidence proves, and the record it promises.\<close>

definition resolve_answer ::
    "'s site \<Rightarrow> time \<Rightarrow> Binding \<Rightarrow> RequestIdentity \<Rightarrow> Submission option \<Rightarrow> journal \<Rightarrow> 's provider
      \<Rightarrow> 's provider \<times> AcceptanceResult" where
  "resolve_answer st now b id' submitted j p =
     (let path = requestPath (stSu st) (bdScope b) id';
          v = ReconcileEvidence (bdScope b) (cfOwner (pConfig p)) id' submitted (evidence_of j (jPhase j = ''sealed''));
          v = (if jPhase j = ''sealed'' then v\<lparr>arReason := jReason j\<rparr> else v)
      in if \<not> is_accepted v then (p, v)
         else if stFault st ''after-journal'' then (p, reply_lost)
         else case materialize st now path p of
           (p, Inl _) \<Rightarrow> (p, outcome OutcomeUnknown ''accepted operation recovery unavailable'')
         | (p, Inr _) \<Rightarrow> (p, if stFault st ''before-reply'' then reply_lost else v))"

definition resolve_after ::
    "'s site \<Rightarrow> time \<Rightarrow> string \<Rightarrow> Binding \<Rightarrow> RequestIdentity \<Rightarrow> Submission option \<Rightarrow> journal \<Rightarrow> 's provider
      \<Rightarrow> 's provider \<times> AcceptanceResult" where
  "resolve_after st now newop b id' submitted j p =
     (let path = requestPath (stSu st) (bdScope b) id' in
      if jScope j \<noteq> bdScope b \<or> jIdentity j \<noteq> id' then (p, outcome OutcomeUnknown ''owner evidence mismatch'')
      else case indexJournal path j p of
        Inl _ \<Rightarrow> (p, evidence_unavailable)
      | Inr p \<Rightarrow>
          (case (submitted, jReceipt j, jArguments j) of
             (Some s, Some r, Some _) \<Rightarrow>
               if jPhase j = ''published''
                  \<and> is_accepted (ReconcileEvidence (bdScope b) (cfOwner (pConfig p)) id' submitted (evidence_of j False))
               then (case rerunRefused st now newop b path j r s p of
                   (p, Inl v) \<Rightarrow> (p, v)
                 | (p, Inr next) \<Rightarrow> resolve_answer st now b id' submitted next p)
               else resolve_answer st now b id' submitted j p
           | _ \<Rightarrow> resolve_answer st now b id' submitted j p))"

definition resolve ::
    "'s site \<Rightarrow> time \<Rightarrow> string \<Rightarrow> string \<Rightarrow> Binding \<Rightarrow> RequestIdentity \<Rightarrow> Submission option \<Rightarrow> string \<times> bool
      \<Rightarrow> 's provider \<Rightarrow> 's provider \<times> AcceptanceResult" where
  "resolve st now newop rerunop b id' submitted lbl p =
     (if riKey id' = [] \<or> 1024 < length (riKey id') \<or> riHistoryEpoch id' = [] \<or> riAttempt id' < 0
      then (p, outcome OutcomeInvalid ''request identity required'')
      else if riHistoryEpoch id' \<noteq> cfEpoch (pConfig p) then (p, outcome OutcomeUnknown ''history epoch unavailable'')
      else case resolve_before st now b id' submitted lbl p of
        (p, Inl v) \<Rightarrow> (p, v)
      | (p, Inr eligibility) \<Rightarrow>
          (case resolve_journal st now newop b id' submitted lbl eligibility p of
             (p, Inl v) \<Rightarrow> (p, v)
           | (p, Inr j) \<Rightarrow> resolve_after st now rerunop b id' submitted j p))"

section \<open>The methods of a bound caller\<close>

text \<open>\<open>BindBinding\<close>: a binding that is not valid is no binding.\<close>

definition bind_caller :: "'s site \<Rightarrow> Binding \<Rightarrow> Binding" where
  "bind_caller st b = (if valid_binding (stSu st) b then b else no_binding)"

definition Submit ::
    "'s site \<Rightarrow> time \<Rightarrow> string \<Rightarrow> string \<Rightarrow> Binding \<Rightarrow> Submission \<Rightarrow> 's provider \<Rightarrow> 's provider \<times> AcceptanceResult" where
  "Submit st now newop rerunop b s p =
     (if bdScope b = [] then (p, outcome OutcomeForbidden ''caller not authorized'')
      else if validateSpec now s \<noteq> Inr () then (p, outcome OutcomeInvalid ''invalid or oversized job submission'')
      else resolve st now newop rerunop b (suIdentity s) (Some (s\<lparr>suLabel := []\<rparr>)) (label_of (stExecutor st) s) p)"

definition Reconcile ::
    "'s site \<Rightarrow> time \<Rightarrow> string \<Rightarrow> string \<Rightarrow> Binding \<Rightarrow> RequestIdentity \<Rightarrow> 's provider \<Rightarrow> 's provider \<times> AcceptanceResult" where
  "Reconcile st now newop rerunop b id' p =
     (if bdScope b = [] then (p, outcome OutcomeForbidden ''caller not authorized'')
      else resolve st now newop rerunop b id' None ([], False) p)"

datatype CancellationOutcome =
    CancellationRequested | CancellationAlreadyTerminal | CancellationUnknown | CancellationForbidden
  | CancellationUnsupported | CancellationUnavailable

definition CancelWork ::
    "'s site \<Rightarrow> time \<Rightarrow> string \<Rightarrow> string \<Rightarrow> Binding \<Rightarrow> RequestIdentity \<Rightarrow> 's provider \<Rightarrow> 's provider \<times> CancellationOutcome" where
  "CancelWork st now newop rerunop b id' p =
     (if bdScope b = [] then (p, CancellationForbidden)
      else case Reconcile st now newop rerunop b id' p of
        (p, v) \<Rightarrow>
          (case (is_accepted v, arReceipt v) of
             (True, Some r) \<Rightarrow>
               (case stRun st (ESetIntent (reOperation r) WantCancel (bdScope b) now) (pStore p) of
                  (store, Inr _) \<Rightarrow> (p\<lparr>pStore := store\<rparr>, CancellationRequested)
                | (store, Inl e) \<Rightarrow>
                    (p\<lparr>pStore := store\<rparr>, if e = ErrTerminal then CancellationAlreadyTerminal else CancellationUnknown))
           | _ \<Rightarrow> (p, CancellationUnknown)))"

end
