(* ===== verification/Operations.thy ===== *)
theory Operations
  imports Provider
begin

text \<open>
  Observing accepted work (go/acceptanceprovider/operations.go) and who an operation belongs to
  (provider.go): what a bound caller may see of its own operations, the bytes of a result, and
  the record of a lost result.  The executor's optional halves that only observe are a record of
  functions of their own.  A failure to record a loss goes to an error reporter in the source; it
  changes no answer and is dropped here.
\<close>

section \<open>The vocabulary (acceptance/rec.go)\<close>

datatype ObservationOutcome =
    Observed | ObservationUnknown | ObservationForbidden | ObservationInvalid
  | ObservationDefinitelyNotAccepted | ObservationUnavailable

datatype WorkState =
    WorkStatePending | WorkStateRunning | WorkStateTransferred | WorkStateComplete | WorkStateFailed
  | WorkStateCancelled | WorkStateNone

datatype FailureClass = FailureRetryable | FailurePermanent | FailureUnknown

datatype ResultOutcome =
    ResultData | ResultNotReady | ResultUnavailable | ResultUnsupported | ResultUnknown | ResultForbidden
  | ResultInvalid | ResultNone

record WorkFailure =
  wfClass :: FailureClass
  wfMessage :: string
  wfCause :: string

record OperationSnapshot =
  snReceipt :: Receipt
  snState :: WorkState
  snDone :: int
  snTotal :: int
  snCancellationRequested :: bool
  snFailure :: "WorkFailure option"
  snLabel :: string
  snLabelDerived :: bool
  snWaiting :: string

record ResultChunk =
  rcReceipt :: Receipt
  rcOffset :: int
  rcTotal :: int
  rcData :: string
  rcEOF :: bool

section \<open>What the executor is asked\<close>

datatype read_error = ReadRange | ReadLost | ReadOther

record observer =
  obReader :: "(Record \<Rightarrow> int \<Rightarrow> int \<Rightarrow> read_error + string \<times> int) option"
  obRetention :: "int option"
  obFailure :: "(Record \<Rightarrow> WorkFailure option) option"
  obWaiting :: "(Record \<Rightarrow> string) option"

definition MaxResultBytes :: int where "MaxResultBytes = 65536"

definition resultRetention :: "observer \<Rightarrow> int" where
  "resultRetention ob =
     (case obReader ob of
        None \<Rightarrow> 0
      | Some _ \<Rightarrow> (case obRetention ob of Some ms \<Rightarrow> if 0 < ms then ms else 0 | None \<Rightarrow> 0))"

definition waiting_char :: "char \<Rightarrow> bool" where
  "waiting_char c \<longleftrightarrow> between 97 c 122 \<or> between 48 c 57 \<or> c \<in> set ''_-.:''"

definition waitingWord :: "string \<Rightarrow> bool" where
  "waitingWord w = (if w = [] \<or> 64 < length w then False else list_all waiting_char w)"

section \<open>One operation, observed\<close>

text \<open>\<open>Inr\<close> is the outcome \<open>observed\<close>, with the journal and the record.\<close>

definition operation ::
    "'s site \<Rightarrow> time \<Rightarrow> string \<Rightarrow> RequestIdentity \<Rightarrow> 's provider \<Rightarrow> 's provider \<times> (ObservationOutcome + journal \<times> Record)" where
  "operation st now scope i p =
     (if scope = [] then (p, Inl ObservationForbidden)
      else if riKey i = [] \<or> riHistoryEpoch i = [] \<or> 1024 < length (riKey i) \<or> 1024 < length (riHistoryEpoch i)
              \<or> \<not> ValidString (riKey i) \<or> \<not> ValidString (riHistoryEpoch i)
      then (p, Inl ObservationInvalid)
      else if riHistoryEpoch i \<noteq> cfEpoch (pConfig p) then (p, Inl ObservationUnknown)
      else
        let path = requestPath (stSu st) scope i in
        case decodeJournal st p now (map_of (pJournals p) path) of
          Inl _ \<Rightarrow> (p, Inl ObservationUnknown)
        | Inr j \<Rightarrow>
            if jScope j \<noteq> scope \<or> jIdentity j \<noteq> i then (p, Inl ObservationUnknown)
            else if jPhase j = ''sealed'' then (p, Inl ObservationDefinitelyNotAccepted)
            else
              (case (if jPhase j \<noteq> ''published'' then materialize st now path p else (p, Inr ())) of
                 (p, Inl _) \<Rightarrow> (p, Inl ObservationUnknown)
               | (p, Inr _) \<Rightarrow>
                   (case (jReceipt j, jArguments j) of
                      (Some r, Some s) \<Rightarrow>
                        (case stLoad st (pStore p) (reOperation r) of
                           Inl _ \<Rightarrow> (p, Inl ObservationUnknown)
                         | Inr q \<Rightarrow>
                             if \<not> validateOperationRecord j s r q then (p, Inl ObservationUnknown)
                             else (p, Inr (j, q)))
                    | _ \<Rightarrow> (p, Inl ObservationUnknown))))"

definition publicWorkState :: "state \<Rightarrow> WorkState" where
  "publicWorkState s = (case s of
     StatePending \<Rightarrow> WorkStatePending | StateRunning \<Rightarrow> WorkStateRunning | StateTransferred \<Rightarrow> WorkStateTransferred
   | StateComplete \<Rightarrow> WorkStateComplete | StateFailed \<Rightarrow> WorkStateFailed | StateCancelled \<Rightarrow> WorkStateCancelled
   | StateOther _ \<Rightarrow> WorkStateNone)"

definition cancel_wanted :: "Record \<Rightarrow> bool" where
  "cancel_wanted q \<longleftrightarrow> (case rIntent q of None \<Rightarrow> False | Some i \<Rightarrow> iWant i = WantCancel)"

definition snapshot_failure :: "observer \<Rightarrow> Record \<Rightarrow> WorkFailure option" where
  "snapshot_failure ob q =
     (case standingFailure q of
        Some refused \<Rightarrow> Some \<lparr>wfClass = FailurePermanent, wfMessage = refused, wfCause = ''other''\<rparr>
      | None \<Rightarrow>
          (case obFailure ob of
             Some report \<Rightarrow> report q
           | None \<Rightarrow>
               if rError q \<noteq> [] \<or> rState q = StateFailed
               then Some \<lparr>wfClass = FailureUnknown, wfMessage = ''operation reported a failure'', wfCause = []\<rparr>
               else None))"

definition operationSnapshot :: "observer \<Rightarrow> journal \<Rightarrow> Receipt \<Rightarrow> Record \<Rightarrow> bool \<Rightarrow> OperationSnapshot" where
  "operationSnapshot ob j r q lost =
     (let sn = \<lparr>snReceipt = r, snState = publicWorkState (rState q), snDone = pDone (rProgress q),
                snTotal = pTotal (rProgress q), snCancellationRequested = cancel_wanted q, snFailure = None,
                snLabel = jLabel j, snLabelDerived = jLabelDerived j, snWaiting = []\<rparr> in
      if lost then sn\<lparr>snState := WorkStateFailed,
        snFailure := Some \<lparr>wfClass = FailurePermanent, wfMessage = ''operation result lost'', wfCause = ''result_lost''\<rparr>\<rparr>
      else
        let word = (case obWaiting ob of None \<Rightarrow> [] | Some f \<Rightarrow> if Terminal (rState q) then [] else f q);
            sn = (if waitingWord word then sn\<lparr>snWaiting := word\<rparr> else sn)
        in sn\<lparr>snFailure := snapshot_failure ob q\<rparr>)"

definition resultLost :: "'s site \<Rightarrow> 's provider \<Rightarrow> time \<Rightarrow> string \<Rightarrow> RequestIdentity \<Rightarrow> bool" where
  "resultLost st p now scope i =
     (case readJournal st p now scope i of Inr (Some j) \<Rightarrow> jResultLost j | _ \<Rightarrow> False)"

definition ObserveWork ::
    "'s site \<Rightarrow> observer \<Rightarrow> time \<Rightarrow> string \<Rightarrow> RequestIdentity \<Rightarrow> 's provider
      \<Rightarrow> 's provider \<times> (ObservationOutcome + OperationSnapshot)" where
  "ObserveWork st ob now scope i p =
     (case operation st now scope i p of
        (p, Inl w) \<Rightarrow> (p, Inl w)
      | (p, Inr (j, q)) \<Rightarrow>
          (p, case jReceipt j of
                None \<Rightarrow> Inl ObservationUnknown
              | Some r \<Rightarrow> Inr (operationSnapshot ob j r q (resultLost st p now scope i))))"

section \<open>Result bytes\<close>

definition recordResultLost ::
    "'s site \<Rightarrow> time \<Rightarrow> string \<Rightarrow> RequestIdentity \<Rightarrow> 's provider \<Rightarrow> 's provider \<times> unit res" where
  "recordResultLost st now scope i p =
     (case ensureFeature StorageFeatureResultLost p of
        (p, Inl e) \<Rightarrow> (p, Inl e)
      | (p, Inr _) \<Rightarrow>
          let path = requestPath (stSu st) scope i in
          (case decodeJournal st p now (map_of (pJournals p) path) of
             Inl e \<Rightarrow> (p, Inl e)
           | Inr j \<Rightarrow>
               if jPhase j \<noteq> ''published'' \<or> jScope j \<noteq> scope \<or> jIdentity j \<noteq> i \<or> jResultLost j then (p, Inr ())
               else (write_journal path (j\<lparr>jResultLost := True\<rparr>) p, Inr ())))"

definition resultOutcome :: "ObservationOutcome \<Rightarrow> ResultOutcome" where
  "resultOutcome w = (case w of
     ObservationForbidden \<Rightarrow> ResultForbidden | ObservationInvalid \<Rightarrow> ResultInvalid
   | ObservationUnavailable \<Rightarrow> ResultUnavailable | ObservationUnknown \<Rightarrow> ResultUnknown
   | ObservationDefinitelyNotAccepted \<Rightarrow> ResultUnknown | Observed \<Rightarrow> ResultNone)"

text \<open>What \<open>ReadResult\<close> makes of the reader's answer.\<close>

definition bad_chunk :: "int \<Rightarrow> int \<Rightarrow> string \<Rightarrow> int \<Rightarrow> bool" where
  "bad_chunk offset maxBytes data whole \<longleftrightarrow>
     whole < 0 \<or> whole < offset \<or> maxBytes < int (length data) \<or> whole - offset < int (length data)
   \<or> (data = [] \<and> offset < whole)"

definition ReadResult ::
    "'s site \<Rightarrow> observer \<Rightarrow> time \<Rightarrow> string \<Rightarrow> RequestIdentity \<Rightarrow> int \<Rightarrow> int \<Rightarrow> 's provider
      \<Rightarrow> 's provider \<times> (ResultOutcome + ResultChunk)" where
  "ReadResult st ob now scope i offset maxBytes p =
     (if scope = [] then (p, Inl ResultForbidden)
      else if offset < 0 \<or> maxBytes < 1 \<or> MaxResultBytes < maxBytes then (p, Inl ResultInvalid)
      else case operation st now scope i p of
        (p, Inl w) \<Rightarrow> (p, Inl (resultOutcome w))
      | (p, Inr (j, q)) \<Rightarrow>
          (case obReader ob of
             None \<Rightarrow> (p, Inl ResultUnsupported)
           | Some read \<Rightarrow>
               if rState q = StateFailed \<or> rState q = StateCancelled then (p, Inl ResultUnavailable)
               else if rState q \<noteq> StateComplete then (p, Inl ResultNotReady)
               else if resultLost st p now scope i then (p, Inl ResultUnavailable)
               else (case read q offset maxBytes of
                  Inl ReadRange \<Rightarrow> (p, Inl ResultInvalid)
                | Inl ReadLost \<Rightarrow> (fst (recordResultLost st now scope i p), Inl ResultUnavailable)
                | Inl ReadOther \<Rightarrow> (p, Inl ResultUnavailable)
                | Inr (data, whole) \<Rightarrow>
                    if bad_chunk offset maxBytes data whole then (p, Inl ResultUnavailable)
                    else (p, case jReceipt j of
                            None \<Rightarrow> Inl ResultUnknown
                          | Some r \<Rightarrow> Inr \<lparr>rcReceipt = r, rcOffset = offset, rcTotal = whole, rcData = data,
                              rcEOF = (offset + int (length data) = whole)\<rparr>))))"

section \<open>Whose operation it is (provider.go)\<close>

definition ErrOperationScope :: err where
  "ErrOperationScope = ErrPlain ''operation scope mismatch''"

text \<open>The answer is \<open>found\<close> with the subject, if any, or an error.\<close>

definition SubjectForOperation ::
    "'s site \<Rightarrow> time \<Rightarrow> 's provider \<Rightarrow> string \<Rightarrow> string \<Rightarrow> bool \<times> AuthenticatedSubject option res" where
  "SubjectForOperation st now p op scope =
     (case map_of (pSubjects p) op of
        None \<Rightarrow> (False, Inr None)
      | Some e \<Rightarrow>
          if jsScope e \<noteq> scope then (True, Inl ErrOperationScope)
          else (case jsSubject e of
             None \<Rightarrow> (True, Inr None)
           | Some subject \<Rightarrow>
               (True,
                case decodeJournal st p now (map_of (pJournals p) (jsPath e)) of
                  Inl _ \<Rightarrow> failed ''operation subject evidence unavailable''
                | Inr j \<Rightarrow>
                    if map_option reOperation (jReceipt j) \<noteq> Some op \<or> jScope j \<noteq> scope \<or> jSubject j \<noteq> Some subject
                       \<or> jSubjectOrigin j \<noteq> jsOrigin e \<or> jSubjectEvidence j \<noteq> jsEvidence e
                    then failed ''operation subject evidence unavailable''
                    else Inr (Some subject))))"

definition OperationOwnedBy :: "'s site \<Rightarrow> time \<Rightarrow> 's provider \<Rightarrow> string \<Rightarrow> string \<Rightarrow> bool res" where
  "OperationOwnedBy st now p op scope =
     (if \<not> validOperationID op then Inr False
      else case SubjectForOperation st now p op scope of
        (found, res) \<Rightarrow>
          if res = Inl ErrOperationScope \<or> \<not> found then Inr False
          else (case res of Inl e \<Rightarrow> Inl e | Inr _ \<Rightarrow> Inr True))"

text \<open>\<open>OperationEnded\<close>: ended, found, or an error.\<close>

definition OperationEnded :: "'s site \<Rightarrow> 's provider \<Rightarrow> string \<Rightarrow> bool \<times> bool \<times> err option" where
  "OperationEnded st p op =
     (if \<not> validOperationID op then (False, False, None)
      else case stLoad st (pStore p) op of
        Inl e \<Rightarrow> if e = ErrNotFound then (False, False, None) else (False, True, Some e)
      | Inr q \<Rightarrow> (Terminal (rState q), True, None))"

end
