(* ===== verification/ProviderSafety.thy ===== *)
theory ProviderSafety
  imports Operations MemoryLease
begin

text \<open>
  What the provider promises about a request, whatever calls are made on it and wherever they
  fail: the abstract specification is the \<open>fate\<close> of a request, which moves from unseen to sealed
  or to admitted and never back.
\<close>

section \<open>Strings that survive JSON\<close>

lemma wire_valid: "ValidString s \<Longrightarrow> wire s = s"
  by (simp add: wire_def unquote_quote_body)

lemma ValidString_wire [simp]: "ValidString (wire s)"
  by (simp add: wire_def ValidString_unquote)

lemma wire_idem [simp]: "wire (wire s) = wire s"
  by (simp add: wire_valid)

lemma map_wire_idem [simp]: "map wire (map wire ss) = map wire ss"
  by simp

lemma ascii_valid: "list_all (\<lambda>c. byte c < 0x80) s \<Longrightarrow> ValidString s"
  by (induction s) auto

lemma wire_phases [simp]: "wire ''sealed'' = ''sealed''" "wire ''prepared'' = ''prepared''" "wire ''published'' = ''published''"
  "wire [] = []"
  by (rule wire_valid, simp add: byte_def)+

lemma wire_identity_idem [simp]: "wire_identity (wire_identity i) = wire_identity i"
  by (simp add: wire_identity_def)

lemma wire_submission_idem [simp]: "wire_submission (wire_submission s) = wire_submission s"
  by (simp add: wire_submission_def)

lemma wire_receipt_idem [simp]: "wire_receipt (wire_receipt r) = wire_receipt r"
  by (simp add: wire_receipt_def)

lemma wire_subject_idem [simp]: "wire_subject (wire_subject a) = wire_subject a"
  by (simp add: wire_subject_def)

lemma journal_wire_idem [simp]: "journal_wire (journal_wire j) = journal_wire j"
  by (simp add: journal_wire_def option.map_comp comp_def)

text \<open>A journal that was read from the disk is one that JSON leaves alone.\<close>

definition wired :: "'s provider \<Rightarrow> bool" where
  "wired p \<longleftrightarrow> (\<forall>path j. map_of (pJournals p) path = Some j \<longrightarrow> journal_wire j = j)"

lemma wired_parts:
  assumes "journal_wire j = j"
  shows "wire (jPhase j) = jPhase j" "map_option wire_receipt (jReceipt j) = jReceipt j"
    "map_option wire_submission (jArguments j) = jArguments j"
  using arg_cong [OF assms, of jPhase] arg_cong [OF assms, of jReceipt] arg_cong [OF assms, of jArguments]
  by (simp_all add: journal_wire_def)

section \<open>The fate of a request\<close>

datatype fate = Unseen | Sealed | Admitted "Receipt option" "Submission option"

fun fate_of :: "journal option \<Rightarrow> fate" where
  "fate_of None = Unseen"
| "fate_of (Some j) =
     (if jPhase j = ''sealed'' then Sealed
      else Admitted (jReceipt j) (jArguments j))"

abbreviation fate_at :: "'s provider \<Rightarrow> string \<Rightarrow> fate" where
  "fate_at p path \<equiv> fate_of (map_of (pJournals p) path)"

inductive fate_step :: "(string \<Rightarrow> string \<Rightarrow> bool) \<Rightarrow> fate \<Rightarrow> fate \<Rightarrow> bool" for again where
  stay: "fate_step again f f"
| new: "fate_step again Unseen f"
| again: "again (reOperation r) op \<Longrightarrow> fate_step again (Admitted (Some r) a) (Admitted (Some (r\<lparr>reOperation := op\<rparr>)) a)"

inductive_simps fate_step_Sealed [simp]: "fate_step again Sealed f"
inductive_simps fate_step_Admitted: "fate_step again (Admitted r a) f"

lemma fate_step_mono: "fate_step again f g \<Longrightarrow> (\<And>a b. again a b \<Longrightarrow> again' a b) \<Longrightarrow> fate_step again' f g"
  by (induction rule: fate_step.induct) (simp_all add: fate_step.intros)

lemma fate_step_trans0:
  "fate_step (\<lambda>_ _. False) f g \<Longrightarrow> fate_step again g h \<Longrightarrow> fate_step again f h"
  "fate_step again f g \<Longrightarrow> fate_step (\<lambda>_ _. False) g h \<Longrightarrow> fate_step again f h"
  by (auto elim!: fate_step.cases intro: fate_step.intros)

text \<open>One call: the configuration stays, and every request moves by a step of its fate.\<close>

definition moves :: "(string \<Rightarrow> string \<Rightarrow> bool) \<Rightarrow> 's provider \<Rightarrow> 's provider \<Rightarrow> bool" where
  "moves again p p' \<longleftrightarrow> pConfig p' = pConfig p \<and> (wired p \<longrightarrow> wired p' \<and> (\<forall>path. fate_step again (fate_at p path) (fate_at p' path)))"

abbreviation still :: "'s provider \<Rightarrow> 's provider \<Rightarrow> bool" where
  "still \<equiv> moves (\<lambda>_ _. False)"

lemma still_same: "pJournals p' = pJournals p \<Longrightarrow> pConfig p' = pConfig p \<Longrightarrow> moves again p p'"
  by (simp add: moves_def wired_def fate_step.stay)

lemma still_refl [simp]: "moves again p p"
  by (rule still_same) simp_all

lemma moves_trans:
  "still p q \<Longrightarrow> moves again q r \<Longrightarrow> moves again p r"
  "moves again p q \<Longrightarrow> still q r \<Longrightarrow> moves again p r"
  by (auto simp: moves_def intro: fate_step_trans0)

lemma moves_mono: "moves again p q \<Longrightarrow> (\<And>a b. again a b \<Longrightarrow> again' a b) \<Longrightarrow> moves again' p q"
  unfolding moves_def by (auto intro: fate_step_mono)

lemma write_journal_simps [simp]:
  "pConfig (write_journal path j p) = pConfig p" "pStore (write_journal path j p) = pStore p"
  "map_of (pJournals (write_journal path j p)) = (map_of (pJournals p))(path \<mapsto> journal_wire j)"
  by (simp_all add: write_journal_def map_of_gomap_put)

lemma moves_write:
  assumes "wired p \<Longrightarrow> fate_step again (fate_at p path) (fate_of (Some (journal_wire j)))"
  shows "moves again p (write_journal path j p)"
  using assms by (auto simp: moves_def wired_def intro: fate_step.stay)

lemma check_journal_id: "check_journal su ex cf marked now j = Inr q \<Longrightarrow> q = j"
  by (auto simp: check_journal_def check_accepted_def bad_journal_def res_simps split: if_splits option.splits sum.splits prod.splits)

lemma decodeJournal_Inr: "decodeJournal st p now d = Inr j \<Longrightarrow> d = Some j"
  by (auto simp: decodeJournal_def failed_def dest: check_journal_id split: option.splits)

section \<open>What each part of a call does\<close>

lemma phase_published_fate:
  assumes "journal_wire j = j" "jPhase j \<noteq> ''sealed''"
  shows "fate_of (Some (journal_wire (j\<lparr>jPhase := ''published''\<rparr>))) = fate_of (Some j)"
proof -
  have "journal_wire (j\<lparr>jPhase := ''published''\<rparr>) = (journal_wire j)\<lparr>jPhase := ''published''\<rparr>"
    by (simp add: journal_wire_def)
  with assms show ?thesis by simp
qed

lemma materialize_still: "materialize st now path p = (p', res) \<Longrightarrow> still p p'"
  unfolding materialize_def
  by (auto simp: Let_def bad_journal_def failed_def intro: still_same dest!: decodeJournal_Inr
      split: sum.splits prod.splits option.splits if_splits)
    (rule moves_trans(1) [OF still_same moves_write]; simp add: wired_def phase_published_fate fate_step.stay del: fate_of.simps)

lemma indexJournal_still: "indexJournal path j p = Inr p' \<Longrightarrow> still p p' \<and> pJournals p' = pJournals p \<and> pStore p' = pStore p"
  by (auto simp: indexJournal_def failed_def intro: still_same split: option.splits if_splits)

lemma ensureFeature_still: "ensureFeature f p = (p', res) \<Longrightarrow> still p p' \<and> pJournals p' = pJournals p \<and> pStore p' = pStore p"
  by (auto simp: ensureFeature_def failed_def Let_def intro: still_same split: option.splits if_splits sum.splits)

lemma need_feature_still: "need_feature c f p = (p', no) \<Longrightarrow> still p p' \<and> pJournals p' = pJournals p \<and> pStore p' = pStore p"
  using ensureFeature_still [of f p] by (auto simp: need_feature_def split: if_splits prod.splits sum.splits)

lemma attemptEvidence_still: "attemptEvidence st now scope id' p = (p', e) \<Longrightarrow> still p p'"
  by (auto simp: attemptEvidence_def Let_def contradictory_def dest!: materialize_still split: sum.splits option.splits prod.splits if_splits)

lemma resolve_before_still:
  assumes "resolve_before st now b id' req lbl p = (p', res)"
  shows "still p p'"
proof -
  obtain p1 el where 1: "(if 0 < riAttempt id' then
      (case attemptEvidence st now (bdScope b) id' p of (p, e) \<Rightarrow> (p, AttemptEligibility id' req e))
      else (p, no_result)) = (p1, el)" by fastforce
  have s1: "still p p1"
    using 1 by (auto dest!: attemptEvidence_still split: if_splits prod.splits)
  obtain p2 no2 where 2: "need_feature (0 < riAttempt id' \<and> arOutcome el = OutcomeOther 0) StorageFeatureAttempts p1 = (p2, no2)"
    by fastforce
  obtain p3 no3 where 3: "need_feature (fst lbl \<noteq> []) StorageFeatureLabels p2 = (p3, no3)" by fastforce
  obtain p4 no4 where 4: "need_feature (req \<noteq> None \<and> bdSubject b \<noteq> None) StorageFeatureSubjects p3 = (p4, no4)" by fastforce
  have "p' \<in> {p2, p3, p4}"
    using assms unfolding resolve_before_def 1 Let_def 2 prod.case 3 4
    by (auto split: option.splits if_splits)
  with s1 need_feature_still [OF 2] need_feature_still [OF 3] need_feature_still [OF 4] show ?thesis
    by (auto intro: moves_trans)
qed

lemma resolve_journal_still: "resolve_journal st now newop b id' req lbl el p = (p', res) \<Longrightarrow> still p p'"
  by (auto simp: resolve_journal_def Let_def evidence_unavailable_def intro!: moves_write fate_step.new
      split: option.splits sum.splits if_splits)

text \<open>A rerun replaces the operation only when its record failed for a refused right.\<close>

definition refused_in :: "'s site \<Rightarrow> 's \<Rightarrow> string \<Rightarrow> string \<Rightarrow> bool" where
  "refused_in st store op op' \<longleftrightarrow> (\<exists>q. stLoad st store op = Inr q \<and> refusedByRights (stExecutor st) q)"

lemma rerun_journal_Some:
  assumes "rerun_journal ex newop old w current = Some n"
  obtains r where "jReceipt current = Some r" "reOperation r = old" "jPhase current = ''published''"
    "jPhase n = ''prepared''" "jReceipt n = Some (r\<lparr>reOperation := newop\<rparr>)" "jArguments n = jArguments current"
  using assms by (auto simp: rerun_journal_def split: option.splits if_splits)

lemma rerun_fate:
  assumes "rerun_journal ex newop old w current = Some n" "journal_wire current = current" "\<And>op. again old op"
  shows "fate_step again (fate_of (Some current)) (fate_of (Some (journal_wire n)))"
proof -
  obtain r where r: "jReceipt current = Some r" "reOperation r = old" "jPhase current = ''published''"
    "jPhase n = ''prepared''" "jReceipt n = Some (r\<lparr>reOperation := newop\<rparr>)" "jArguments n = jArguments current"
    using rerun_journal_Some [OF assms(1)] .
  note w = wired_parts [OF assms(2)]
  have "wire_receipt r = r" using w(2) r(1) by simp
  then have "wire_receipt (r\<lparr>reOperation := newop\<rparr>) = r\<lparr>reOperation := wire newop\<rparr>"
    by (simp add: wire_receipt_def) (metis Receipt.simps(1) Receipt.surjective Receipt.update_convs(3))
  then have "fate_of (Some (journal_wire n)) = Admitted (Some (r\<lparr>reOperation := wire newop\<rparr>)) (jArguments current)"
    using r w(3) by (simp add: journal_wire_def)
  moreover have "fate_of (Some current) = Admitted (Some r) (jArguments current)" using r by simp
  ultimately show ?thesis
    using fate_step.again [of again r "wire newop" "jArguments current"] assms(3) r(2) by simp
qed

lemma rerun_commit_cases:
  assumes "rerun_commit st now newop path old w p = (p', res)"
  obtains "p' = p" "res = Inl evidence_unavailable"
  | current p1 n where "map_of (pJournals p) path = Some current" "decodeJournal st p now (Some current) = Inr current"
      "rerun_journal (stExecutor st) newop old w current = Some n" "p1 = write_journal path n p"
      "(indexJournal path n p1 = Inr p' \<and> res = Inr n) \<or> (p' = p1 \<and> res = Inl evidence_unavailable)"
  | current where "map_of (pJournals p) path = Some current" "decodeJournal st p now (Some current) = Inr current"
      "rerun_journal (stExecutor st) newop old w current = None"
      "(indexJournal path current p = Inr p' \<and> res = Inr current) \<or> (p' = p \<and> res = Inl evidence_unavailable)"
proof (cases "decodeJournal st p now (map_of (pJournals p) path)")
  case (Inl e)
  with assms that(1) show ?thesis by (simp add: rerun_commit_def)
next
  case (Inr current)
  have cur: "map_of (pJournals p) path = Some current" using Inr by (rule decodeJournal_Inr)
  note dec = Inr [unfolded cur]
  show ?thesis
  proof (cases "rerun_journal (stExecutor st) newop old w current")
    case None
    have "(indexJournal path current p = Inr p' \<and> res = Inr current) \<or> (p' = p \<and> res = Inl evidence_unavailable)"
      using assms cur dec None by (auto simp: rerun_commit_def Let_def split: sum.splits)
    with cur dec None show ?thesis by (rule that(3))
  next
    case (Some n)
    have "(indexJournal path n (write_journal path n p) = Inr p' \<and> res = Inr n)
      \<or> (p' = write_journal path n p \<and> res = Inl evidence_unavailable)"
      using assms cur dec Some by (auto simp: rerun_commit_def Let_def split: sum.splits)
    with cur dec Some refl show ?thesis by (rule that(2))
  qed
qed

lemma rerun_commit_moves:
  assumes "rerun_commit st now newop path old w p = (p', res)" "\<And>op'. again old op'"
  shows "moves again p p'"
  using assms(1)
proof (cases rule: rerun_commit_cases)
  case (2 current p1 n)
  have "moves again p p1"
    unfolding 2(4)
  proof (rule moves_write)
    assume "wired p"
    then have "journal_wire current = current" using 2(1) by (simp add: wired_def)
    from rerun_fate [where again = again, OF 2(3) this] assms(2) 2(1)
    show "fate_step again (fate_at p path) (fate_of (Some (journal_wire n)))" by simp
  qed
  with 2(5) show ?thesis by (auto dest: indexJournal_still intro: moves_trans(2))
next
  case (3 current)
  then show ?thesis by (auto dest: indexJournal_still intro: moves_mono)
qed simp

lemma rerunRefused_moves:
  assumes "rerunRefused st now newop b path j r s p = (p', res)"
  shows "moves (refused_in st (pStore p)) p p'"
  using assms
  by (auto simp: rerunRefused_def refused_in_def intro!: rerun_commit_moves split: if_splits sum.splits)

lemma resolve_answer_still: "resolve_answer st now b id' req j p = (p', v) \<Longrightarrow> still p p'"
  by (auto simp: resolve_answer_def Let_def dest!: materialize_still split: if_splits prod.splits sum.splits)

lemma resolve_after_moves:
  assumes "resolve_after st now newop b id' req j p = (p', v)"
  shows "moves (refused_in st (pStore p)) p p'"
proof -
  let ?path = "requestPath (stSu st) (bdScope b) id'"
  show ?thesis
  proof (cases "indexJournal ?path j p")
    case (Inl e)
    with assms show ?thesis by (auto simp: resolve_after_def Let_def split: if_splits)
  next
    case (Inr q)
    note i = indexJournal_still [OF Inr]
    have "moves (refused_in st (pStore q)) q p'" if "p' \<noteq> p"
    proof -
      have "(\<exists>j v. resolve_answer st now b id' req j q = (p', v)) \<or>
        (\<exists>r s q2. rerunRefused st now newop b ?path j r s q = (q2, Inl v) \<and> p' = q2) \<or>
        (\<exists>r s q2 next' v. rerunRefused st now newop b ?path j r s q = (q2, Inr next') \<and>
           resolve_answer st now b id' req next' q2 = (p', v))"
        using assms Inr that
        by (auto simp: resolve_after_def Let_def split: if_splits option.splits prod.splits sum.splits)
      then show ?thesis
        by (auto dest!: resolve_answer_still rerunRefused_moves intro: moves_mono moves_trans(2))
    qed
    with i show ?thesis by (cases "p' = p") (auto intro: moves_trans(1))
  qed
qed

section \<open>Histories\<close>

text \<open>What can happen to a provider: a call by anybody, failing at any of its points; work on the
  job store by the executor or by anybody else who may write there; a recovery of one journal; the
  loss of everything held in memory.  No identifier handed out is among \<open>avoid\<close>.\<close>

inductive serves :: "'s site \<Rightarrow> string set \<Rightarrow> 's provider \<Rightarrow> 's provider \<Rightarrow> bool" for st avoid where
  submit: "wire newop \<notin> avoid \<Longrightarrow> wire rerunop \<notin> avoid \<Longrightarrow>
     serves st avoid p (fst (Submit (st\<lparr>stFault := f\<rparr>) now newop rerunop (bind_caller st b) s p))"
| reconcile: "wire newop \<notin> avoid \<Longrightarrow> wire rerunop \<notin> avoid \<Longrightarrow>
     serves st avoid p (fst (Reconcile (st\<lparr>stFault := f\<rparr>) now newop rerunop (bind_caller st b) i p))"
| cancel: "wire newop \<notin> avoid \<Longrightarrow> wire rerunop \<notin> avoid \<Longrightarrow>
     serves st avoid p (fst (CancelWork (st\<lparr>stFault := f\<rparr>) now newop rerunop (bind_caller st b) i p))"
| observe: "serves st avoid p (fst (operation (st\<lparr>stFault := f\<rparr>) now scope i p))"
| read: "serves st avoid p (fst (ReadResult (st\<lparr>stFault := f\<rparr>) ob now scope i offset maxBytes p))"
| work: "serves st avoid p (p\<lparr>pStore := store\<rparr>)"
| recover: "serves st avoid p (fst (materialize (st\<lparr>stFault := f\<rparr>) now path p))"
| restart: "serves st avoid p (p\<lparr>pMarked := [], pSubjects := []\<rparr>)"

lemma resolve_moves:
  assumes "resolve st now newop rerunop b i req lbl p = (p', v)"
  obtains q where "still p q" "moves (refused_in st (pStore q)) q p'"
proof -
  consider "p' = p"
    | x where "resolve_before st now b i req lbl p = (p', Inl x)"
    | el p1 x where "resolve_before st now b i req lbl p = (p1, Inr el)"
        "resolve_journal st now newop b i req lbl el p1 = (p', Inl x)"
    | el p1 p2 j where "resolve_before st now b i req lbl p = (p1, Inr el)"
        "resolve_journal st now newop b i req lbl el p1 = (p2, Inr j)"
        "resolve_after st now rerunop b i req j p2 = (p', v)"
    using assms by (auto simp: resolve_def split: if_splits prod.splits sum.splits)
  then show ?thesis
  proof cases
    case 1
    with that [of p] show ?thesis by simp
  next
    case 2
    with that [of p'] show ?thesis by (auto dest: resolve_before_still)
  next
    case 3
    with that [of p'] show ?thesis
      using moves_trans(1) [OF resolve_before_still resolve_journal_still] by (metis still_refl)
  next
    case 4
    with that [of p2] show ?thesis
      using moves_trans(1) [OF resolve_before_still resolve_journal_still] resolve_after_moves by metis
  qed
qed

text \<open>The loosest reading of a move: an operation may be replaced.\<close>

abbreviation loosely :: "'s provider \<Rightarrow> 's provider \<Rightarrow> bool" where
  "loosely \<equiv> moves (\<lambda>_ _. True)"

lemma resolve_loosely: "loosely p (fst (resolve st now newop rerunop b i req lbl p))"
proof -
  obtain p' v where r: "resolve st now newop rerunop b i req lbl p = (p', v)" by fastforce
  obtain q where "still p q" "moves (refused_in st (pStore q)) q p'" using resolve_moves [OF r] .
  then show ?thesis unfolding r fst_conv by (blast intro: moves_trans(1) moves_mono)
qed

lemma Submit_loosely: "loosely p (fst (Submit st now newop rerunop b s p))"
  by (simp add: Submit_def resolve_loosely)

lemma Reconcile_loosely: "loosely p (fst (Reconcile st now newop rerunop b i p))"
  by (simp add: Reconcile_def resolve_loosely)

lemma CancelWork_loosely: "loosely p (fst (CancelWork st now newop rerunop b i p))"
proof (cases "bdScope b = []")
  case False
  obtain q v where r: "Reconcile st now newop rerunop b i p = (q, v)" by fastforce
  have "loosely p q" using Reconcile_loosely [of p st now newop rerunop b i] r by simp
  moreover have "\<exists>store. fst (CancelWork st now newop rerunop b i p) = q\<lparr>pStore := store\<rparr> \<or>
      fst (CancelWork st now newop rerunop b i p) = q"
    using False r by (auto simp: CancelWork_def split: prod.splits sum.splits option.splits bool.splits)
  moreover have "still q (q\<lparr>pStore := store\<rparr>)" for store
    by (rule still_same) simp_all
  ultimately show ?thesis
    using moves_trans(2) by fastforce
qed (simp add: CancelWork_def)

lemma operation_still: "operation st now scope i p = (p', res) \<Longrightarrow> still p p'"
  by (auto simp: operation_def Let_def dest!: materialize_still split: if_splits sum.splits prod.splits option.splits)

lemma recordResultLost_cases:
  assumes "recordResultLost st now scope i p = (p', res)"
  obtains q where "still p q" "pJournals q = pJournals p" "p' = q"
  | q j where "still p q" "pJournals q = pJournals p" "map_of (pJournals q) (requestPath (stSu st) scope i) = Some j"
      "p' = write_journal (requestPath (stSu st) scope i) (j\<lparr>jResultLost := True\<rparr>) q"
proof -
  let ?path = "requestPath (stSu st) scope i"
  obtain q res' where e: "ensureFeature StorageFeatureResultLost p = (q, res')" by fastforce
  have q: "still p q" "pJournals q = pJournals p" using ensureFeature_still [OF e] by simp_all
  show ?thesis
  proof (cases "decodeJournal st q now (map_of (pJournals q) ?path)")
    case (Inl x)
    with assms e that(1) [OF q] show ?thesis by (cases res') (simp_all add: recordResultLost_def)
  next
    case (Inr j)
    have "p' = q \<or> p' = write_journal ?path (j\<lparr>jResultLost := True\<rparr>) q"
      using assms e Inr by (cases res') (auto simp: recordResultLost_def Let_def split: if_splits)
    with decodeJournal_Inr [OF Inr] that q show ?thesis by blast
  qed
qed

lemma recordResultLost_still: "recordResultLost st now scope i p = (p', res) \<Longrightarrow> still p p'"
proof (erule recordResultLost_cases)
  let ?path = "requestPath (stSu st) scope i"
  fix q j
  assume q: "still p q" and 2: "map_of (pJournals q) ?path = Some j" "p' = write_journal ?path (j\<lparr>jResultLost := True\<rparr>) q"
  have "journal_wire (j\<lparr>jResultLost := True\<rparr>) = (journal_wire j)\<lparr>jResultLost := True\<rparr>"
    by (simp add: journal_wire_def)
  then have "still q p'" unfolding 2(2)
    by (intro moves_write) (use 2(1) in \<open>auto simp: wired_def intro: fate_step.stay\<close>)
  with q show "still p p'" by (rule moves_trans(1))
qed simp

lemma ReadResult_cases:
  assumes "ReadResult st ob now scope i offset maxBytes p = (p', v)"
  obtains "p' = p" | res where "operation st now scope i p = (p', res)"
  | q res res' where "operation st now scope i p = (q, res)" "recordResultLost st now scope i q = (p', res')"
proof -
  obtain q res where o: "operation st now scope i p = (q, res)" by fastforce
  have "p' = p \<or> p' = q \<or> p' = fst (recordResultLost st now scope i q)"
  proof (cases res)
    case (Inl w)
    with assms o show ?thesis by (auto simp: ReadResult_def split: if_splits)
  next
    case (Inr jq)
    with assms o show ?thesis
      by (cases jq) (auto simp: ReadResult_def split: if_splits sum.splits option.splits read_error.splits)
  qed
  with that o show ?thesis by (metis prod.collapse)
qed

lemma ReadResult_still: "ReadResult st ob now scope i offset maxBytes p = (p', v) \<Longrightarrow> still p p'"
  by (erule ReadResult_cases) (auto dest: operation_still recordResultLost_still intro: moves_trans(1))

lemma loosely_fst: "(\<And>p' v. f p = (p', v) \<Longrightarrow> still p p') \<Longrightarrow> loosely p (fst (f p))"
  by (cases "f p") (auto intro: moves_mono)

lemma serves_loosely: "serves st avoid p p' \<Longrightarrow> loosely p p'"
  by (induction rule: serves.induct)
    (auto intro: Submit_loosely Reconcile_loosely CancelWork_loosely still_same loosely_fst materialize_still
      operation_still ReadResult_still)

lemma loosely_wired: "loosely p p' \<Longrightarrow> wired p \<Longrightarrow> wired p'"
  by (simp add: moves_def)

text \<open>What is kept of a fate: sealed, or admitted with the same arguments and a receipt that differs in
  nothing but the operation.\<close>

definition same_fate :: "fate \<Rightarrow> fate \<Rightarrow> bool" where
  "same_fate f g \<longleftrightarrow> f = Unseen \<or> f = g
     \<or> (\<exists>r op a. f = Admitted (Some r) a \<and> g = Admitted (Some (r\<lparr>reOperation := op\<rparr>)) a)"

lemma same_fate_refl [simp]: "same_fate f f"
  by (simp add: same_fate_def)

lemma same_fate_trans: "same_fate f g \<Longrightarrow> same_fate g h \<Longrightarrow> same_fate f h"
  by (auto simp: same_fate_def)

lemma loosely_fate: "loosely p p' \<Longrightarrow> wired p \<Longrightarrow> same_fate (fate_at p path) (fate_at p' path)"
  unfolding moves_def same_fate_def by (auto elim!: allE [of _ path] fate_step.cases)

lemma history_fate:
  assumes "(serves st avoid)\<^sup>*\<^sup>* p p'" "wired p"
  shows "wired p' \<and> pConfig p' = pConfig p \<and> same_fate (fate_at p path) (fate_at p' path)"
  using assms(1)
proof (induction rule: rtranclp_induct)
  case (step q r)
  have l: "loosely q r" using step.hyps(2) by (rule serves_loosely)
  have w: "wired q" using step.IH by blast
  from loosely_fate [OF l w, of path] loosely_wired [OF l w] l step.IH show ?case
    by (auto simp: moves_def [of _ q r] intro: same_fate_trans)
qed (use assms(2) in simp)

section \<open>What an answer says\<close>

lemma reconcile_accepted:
  assumes "is_accepted (ReconcileEvidence scope owner i req e)"
  shows "\<not> evSealed e \<and> arReceipt (ReconcileEvidence scope owner i req e) = evReceipt e \<and>
    (\<exists>r. evReceipt e = Some r \<and> reOperation r \<noteq> [])"
proof (cases "entitled scope owner i req e")
  case False
  from negative_checks(1) [OF ReconcileEvidence_not_entitled [OF this]] assms show ?thesis by (simp add: is_accepted_def)
next
  case True
  then have i: "validIdentity i" "owner \<noteq> []" by (simp_all add: entitled_def)
  obtain r where r: "evReceipt e = Some r"
    using assms by (cases "evReceipt e") (auto simp: ReconcileEvidence_entitled [OF True] is_accepted_def split: if_splits)
  show ?thesis
  proof (cases "proven_receipt owner i req e r")
    case proven: True
    with r i show ?thesis
      by (simp add: ReconcileEvidence_entitled [OF True] reconcile_receipt_proven) (simp add: proven_receipt_def)
  next
    case False
    with negative_checks(1) [OF reconcile_receipt_unproven [OF i False]] assms r show ?thesis
      by (simp add: ReconcileEvidence_entitled [OF True] is_accepted_def)
  qed
qed

lemma reconcile_fresh:
  assumes "arOutcome (ReconcileEvidence scope owner i req e) = OutcomeDefinitelyNotAccepted"
  shows "evSealed e"
proof (cases "entitled scope owner i req e")
  case False
  from ReconcileEvidence_not_entitled [OF this] assms show ?thesis by (simp add: negative_def)
next
  case True
  then have i: "validIdentity i" "owner \<noteq> []" by (simp_all add: entitled_def)
  show ?thesis
  proof (cases "evReceipt e")
    case None
    with assms show ?thesis by (auto simp: ReconcileEvidence_entitled [OF True] split: if_splits)
  next
    case (Some r)
    with assms reconcile_receipt_proven [OF i, of req e r] reconcile_receipt_unproven [OF i, of req e r] show ?thesis
      by (cases "proven_receipt owner i req e r")
        (simp_all add: ReconcileEvidence_entitled [OF True] negative_def)
  qed
qed

text \<open>A success of \<open>materialize\<close> on a journal that is not sealed: the record is there and the journal
  says so.\<close>

lemma wired_published: "journal_wire j = j \<Longrightarrow> journal_wire (j\<lparr>jPhase := ''published''\<rparr>) = j\<lparr>jPhase := ''published''\<rparr>"
proof -
  assume "journal_wire j = j"
  moreover have "journal_wire (j\<lparr>jPhase := ''published''\<rparr>) = (journal_wire j)\<lparr>jPhase := ''published''\<rparr>"
    by (simp add: journal_wire_def)
  ultimately show ?thesis by simp
qed

definition recorded :: "'s site \<Rightarrow> 's provider \<Rightarrow> string \<Rightarrow> Receipt \<Rightarrow> bool" where
  "recorded st p path r \<longleftrightarrow> (\<exists>j s q. map_of (pJournals p) path = Some j \<and> jPhase j = ''published''
     \<and> jReceipt j = Some r \<and> jArguments j = Some s \<and> stLoad st (pStore p) (reOperation r) = Inr q
     \<and> validateOperationRecord j s r q)"

lemma load_or_submit_Inr: "load_or_submit st now j s r store = (store', Inr q) \<Longrightarrow> stLoad st store' (reOperation r) = Inr q"
  by (auto simp: load_or_submit_def failed_def split: sum.splits if_splits prod.splits)

lemma validate_phase [simp]: "validateOperationRecord (j\<lparr>jPhase := w\<rparr>) s r q = validateOperationRecord j s r q"
  by (simp add: validateOperationRecord_def workSpec_def)

lemma materialize_recorded:
  assumes "materialize st now path p = (p', Inr u)" "map_of (pJournals p) path = Some j" "journal_wire j = j"
    and "jPhase j \<noteq> ''sealed''" "jReceipt j = Some r"
  shows "recorded st p' path r"
proof -
  have dec: "decodeJournal st p now (Some j) = Inr j"
    using assms(1,2) decodeJournal_Inr [of st p now "Some j"] by (auto simp: materialize_def split: sum.splits)
  obtain s where s: "jArguments j = Some s"
    using assms(1,2,4,5) dec by (cases "jArguments j") (auto simp: materialize_def bad_journal_def)
  obtain store res where l: "load_or_submit st now j s r (pStore p) = (store, res)" by fastforce
  obtain q where q: "res = Inr q" "validateOperationRecord j s r q"
    using assms(1,2,4,5) dec s l
    by (cases res) (auto simp: materialize_def failed_def Let_def split: if_splits)
  have load: "stLoad st store (reOperation r) = Inr q"
    using l q(1) by (simp add: load_or_submit_Inr)
  have "p' = (if jPhase j = ''published'' then p\<lparr>pStore := store\<rparr>
      else write_journal path (j\<lparr>jPhase := ''published''\<rparr>) (p\<lparr>pStore := store\<rparr>))"
    using assms(1,2,4,5) dec s l q by (auto simp: materialize_def Let_def split: if_splits)
  moreover have "recorded st (p\<lparr>pStore := store\<rparr>) path r" if "jPhase j = ''published''"
    unfolding recorded_def using that assms(2,5) s q(2) load
    by (intro exI [of _ j] exI [of _ s] exI [of _ q]) simp
  moreover have "recorded st (write_journal path (j\<lparr>jPhase := ''published''\<rparr>) (p\<lparr>pStore := store\<rparr>)) path r"
    unfolding recorded_def using assms(5) s q(2) load wired_published [OF assms(3)]
    by (intro exI [of _ "j\<lparr>jPhase := ''published''\<rparr>"] exI [of _ s] exI [of _ q]) simp
  ultimately show ?thesis by metis
qed

lemma resolve_journal_disk:
  assumes "resolve_journal st now newop b i req lbl el p = (p', Inr j)" "wired p"
  shows "wired p' \<and> map_of (pJournals p') (requestPath (stSu st) (bdScope b) i) = Some (journal_wire j)"
proof -
  have "wired p'" using resolve_journal_still [OF assms(1)] assms(2) by (simp add: moves_def)
  moreover have "map_of (pJournals p') (requestPath (stSu st) (bdScope b) i) = Some (journal_wire j)"
  proof (cases "map_of (pJournals p) (requestPath (stSu st) (bdScope b) i)")
    case None
    with assms(1) show ?thesis by (auto simp: resolve_journal_def Let_def split: if_splits)
  next
    case (Some cur)
    with assms(1) have "decodeJournal st p now (Some cur) = Inr j" "p' = p"
      by (auto simp: resolve_journal_def Let_def split: sum.splits)
    then have "cur = j" "p' = p" using decodeJournal_Inr by blast+
    moreover have "journal_wire cur = cur" using assms(2) Some by (simp add: wired_def)
    ultimately show ?thesis using Some by simp
  qed
  ultimately show ?thesis ..
qed

lemma rerunRefused_disk:
  assumes "rerunRefused st now newop b path j r s p = (p', Inr n)" "wired p"
    and "map_of (pJournals p) path = Some (journal_wire j)"
  shows "wired p' \<and> map_of (pJournals p') path = Some (journal_wire n)"
proof -
  have w: "wired p'" using rerunRefused_moves [OF assms(1)] assms(2) by (simp add: moves_def)
  show ?thesis
  proof (cases "p' = p \<and> n = j")
    case False
    then obtain w where "rerun_commit st now newop path (reOperation r) w p = (p', Inr n)"
      using assms(1) by (auto simp: rerunRefused_def split: if_splits sum.splits)
    then show ?thesis
    proof (cases rule: rerun_commit_cases)
      case (2 current p1 m)
      then show ?thesis using w by (auto dest: indexJournal_still)
    next
      case (3 current)
      then have "pJournals p' = pJournals p" "n = current" by (auto dest: indexJournal_still)
      with 3(1) w show ?thesis by (auto simp: wired_def)
    qed simp
  qed (use assms w in simp)
qed

lemma fate_wire [simp]:
  "fate_of (Some (journal_wire j)) = Sealed \<longleftrightarrow> wire (jPhase j) = ''sealed''"
  by (simp add: journal_wire_def)

lemma resolve_answer_says:
  assumes "resolve_answer st now b i req j p = (p', v)" "wired p"
    and "map_of (pJournals p) (requestPath (stSu st) (bdScope b) i) = Some (journal_wire j)"
    and "jPhase j \<in> {''sealed'', ''prepared'', ''published''}"
  shows "(is_accepted v \<longrightarrow> (\<exists>r. arReceipt v = Some r \<and> recorded st p' (requestPath (stSu st) (bdScope b) i) (wire_receipt r)))
    \<and> (arOutcome v = OutcomeDefinitelyNotAccepted \<longrightarrow> fate_at p' (requestPath (stSu st) (bdScope b) i) = Sealed)"
proof -
  let ?path = "requestPath (stSu st) (bdScope b) i"
  define v0 where "v0 = ReconcileEvidence (bdScope b) (cfOwner (pConfig p)) i req (evidence_of j (jPhase j = ''sealed''))"
  have sealed: "wire (jPhase j) = jPhase j" using assms(4) by auto
  show ?thesis
  proof (cases "is_accepted v0")
    case True
    then obtain r where r: "jPhase j \<noteq> ''sealed''" "arReceipt v0 = Some r" "jReceipt j = Some r"
      using reconcile_accepted [of "bdScope b" "cfOwner (pConfig p)" i req "evidence_of j (jPhase j = ''sealed'')"]
      by (auto simp: v0_def evidence_of_def)
    then have acc: "resolve_answer st now b i req j p =
        (if stFault st ''after-journal'' then (p, reply_lost)
         else case materialize st now ?path p of
           (p, Inl _) \<Rightarrow> (p, outcome OutcomeUnknown ''accepted operation recovery unavailable'')
         | (p, Inr _) \<Rightarrow> (p, if stFault st ''before-reply'' then reply_lost else v0))"
      using True by (simp add: resolve_answer_def Let_def v0_def)
    have "recorded st p1 ?path (wire_receipt r)" if "materialize st now ?path p = (p1, Inr u)" for p1 u
      by (rule materialize_recorded [OF that assms(3)]) (use r sealed in \<open>simp_all add: journal_wire_def option.map_comp comp_def\<close>)
    moreover have "arOutcome v0 = OutcomeAccepted" using True by (simp add: is_accepted_def)
    ultimately show ?thesis
      using assms(1) acc r(2)
      by (auto simp: reply_lost_def is_accepted_def split: if_splits prod.splits sum.splits)
  next
    case False
    then have "p' = p" and out: "arOutcome v = arOutcome v0"
      using assms(1) by (auto simp: resolve_answer_def Let_def v0_def [symmetric] is_accepted_def split: if_splits)
    have "jPhase j = ''sealed''" if "arOutcome v0 = OutcomeDefinitelyNotAccepted"
      using reconcile_fresh [OF that [unfolded v0_def]] by (simp add: evidence_of_def)
    then show ?thesis
      using False out \<open>p' = p\<close> assms(3) sealed by (auto simp: is_accepted_def journal_wire_def)
  qed
qed

text \<open>An answer that promises nothing: neither an operation nor that there never will be one.\<close>

definition quiet :: "AcceptanceResult \<Rightarrow> bool" where
  "quiet v \<longleftrightarrow> arOutcome v \<noteq> OutcomeAccepted \<and> arOutcome v \<noteq> OutcomeDefinitelyNotAccepted"

lemma quiet_outcome [simp]: "quiet (outcome w m) \<longleftrightarrow> w \<noteq> OutcomeAccepted \<and> w \<noteq> OutcomeDefinitelyNotAccepted"
  by (simp add: quiet_def)

lemma quiet_constants [simp]: "quiet evidence_unavailable" "quiet reply_lost" "quiet policy_unavailable" "quiet no_result"
  by (simp_all add: evidence_unavailable_def reply_lost_def policy_unavailable_def no_result_def)

lemma quiet_eligibility: "quiet (AttemptEligibility i req e)"
  by (auto simp: AttemptEligibility_def Let_def split: option.splits)

lemma quiet_need: "need_feature c f p = (p', Some v) \<Longrightarrow> quiet v"
  by (auto simp: need_feature_def split: if_splits prod.splits sum.splits)

lemma quiet_admission: "admission st b s = Some v \<Longrightarrow> quiet v"
  by (auto simp: admission_def Let_def split: option.splits sum.splits prod.splits if_splits)

lemma quiet_before:
  assumes "resolve_before st now b i req lbl p = (p', res)"
  shows "case res of Inl v \<Rightarrow> quiet v | Inr el \<Rightarrow> quiet el"
proof -
  obtain p1 el where 1: "(if 0 < riAttempt i then
      (case attemptEvidence st now (bdScope b) i p of (p, e) \<Rightarrow> (p, AttemptEligibility i req e))
      else (p, no_result)) = (p1, el)" by fastforce
  have q1: "quiet el" using 1 by (auto simp: quiet_eligibility split: if_splits prod.splits)
  obtain p2 no2 where 2: "need_feature (0 < riAttempt i \<and> arOutcome el = OutcomeOther 0) StorageFeatureAttempts p1 = (p2, no2)"
    by fastforce
  obtain p3 no3 where 3: "need_feature (fst lbl \<noteq> []) StorageFeatureLabels p2 = (p3, no3)" by fastforce
  obtain p4 no4 where 4: "need_feature (req \<noteq> None \<and> bdSubject b \<noteq> None) StorageFeatureSubjects p3 = (p4, no4)" by fastforce
  have need: "no2 = Some v \<Longrightarrow> quiet v" "no3 = Some v \<Longrightarrow> quiet v" "no4 = Some v \<Longrightarrow> quiet v" for v
    using 2 3 4 quiet_need by blast+
  show ?thesis
    using assms q1 need
    unfolding resolve_before_def 1 Let_def 2 prod.case 3 4
    by (auto simp: checkAdmission_def quiet_admission split: option.splits if_splits)
qed

lemma quiet_rerun: "rerunRefused st now newop b path j r s p = (p', Inl v) \<Longrightarrow> quiet v"
  by (auto simp: rerunRefused_def rerun_work_def rerun_commit_def quiet_admission Let_def
      split: if_splits sum.splits option.splits)

definition three_phases :: "journal \<Rightarrow> bool" where
  "three_phases j \<longleftrightarrow> jPhase j \<in> {''sealed'', ''prepared'', ''published''}"

lemma decodeJournal_phase: "decodeJournal st p now d = Inr j \<Longrightarrow> three_phases j"
proof -
  assume d: "decodeJournal st p now d = Inr j"
  then have "check_journal (stSu st) (stExecutor st) (pConfig p) (pMarked p) now j = Inr j"
    using decodeJournal_Inr [OF d] by (simp add: decodeJournal_def)
  then show ?thesis
    by (auto simp: check_journal_def bad_journal_def three_phases_def split: if_splits)
qed

lemma new_journal_phase: "three_phases (new_journal st cf b i req lbl newop)"
  by (auto simp: new_journal_def Let_def sealed_journal_def three_phases_def split: option.splits sum.splits prod.splits)

lemma resolve_journal_phase: "resolve_journal st now newop b i req lbl el p = (p', Inr j) \<Longrightarrow> three_phases j"
  by (auto simp: resolve_journal_def Let_def new_journal_phase decodeJournal_phase split: option.splits sum.splits if_splits)

lemma rerunRefused_phase:
  assumes "rerunRefused st now newop b path j r s p = (p', Inr n)" "three_phases j"
  shows "three_phases n"
proof (cases "n = j")
  case False
  then obtain w where "rerun_commit st now newop path (reOperation r) w p = (p', Inr n)"
    using assms(1) by (auto simp: rerunRefused_def split: if_splits sum.splits)
  then show ?thesis
    by (cases rule: rerun_commit_cases)
      (auto simp: three_phases_def dest: decodeJournal_phase [unfolded three_phases_def] elim: rerun_journal_Some)
qed (use assms in simp)

text \<open>What an answer commits the provider to, at the request's own journal.\<close>

definition kept_promise :: "'s site \<Rightarrow> string \<Rightarrow> 's provider \<Rightarrow> AcceptanceResult \<Rightarrow> bool" where
  "kept_promise st path p v \<longleftrightarrow>
     (is_accepted v \<longrightarrow> (\<exists>r. arReceipt v = Some r \<and> recorded st p path (wire_receipt r)))
   \<and> (arOutcome v = OutcomeDefinitelyNotAccepted \<longrightarrow> fate_at p path = Sealed)"

lemma quiet_kept: "quiet v \<Longrightarrow> kept_promise st path p v"
  by (simp add: kept_promise_def quiet_def is_accepted_def)

lemma resolve_after_says:
  assumes "resolve_after st now newop b i req j p = (p', v)" "wired p"
    and "map_of (pJournals p) (requestPath (stSu st) (bdScope b) i) = Some (journal_wire j)" "three_phases j"
  shows "kept_promise st (requestPath (stSu st) (bdScope b) i) p' v"
proof -
  let ?path = "requestPath (stSu st) (bdScope b) i"
  note says = resolve_answer_says [folded kept_promise_def three_phases_def]
  show ?thesis
  proof (cases "indexJournal ?path j p")
    case (Inl e)
    with assms(1) show ?thesis by (auto simp: resolve_after_def Let_def quiet_kept split: if_splits)
  next
    case (Inr q)
    note i = indexJournal_still [OF Inr]
    have q: "wired q" "map_of (pJournals q) ?path = Some (journal_wire j)"
      using i assms(2,3) by (simp_all add: wired_def)
    consider "quiet v" | "resolve_answer st now b i req j q = (p', v)"
      | r s q2 n where "rerunRefused st now newop b ?path j r s q = (q2, Inr n)"
          "resolve_answer st now b i req n q2 = (p', v)"
      using assms(1) Inr
      by (auto simp: resolve_after_def Let_def dest: quiet_rerun split: if_splits option.splits prod.splits sum.splits)
    then show ?thesis
    proof cases
      case 1
      then show ?thesis by (rule quiet_kept)
    next
      case 2
      from says [OF this q assms(4)] show ?thesis .
    next
      case 3
      note d = rerunRefused_disk [OF 3(1) q] and ph = rerunRefused_phase [OF 3(1) assms(4)]
      from says [OF 3(2) _ _ ph] d show ?thesis by blast
    qed
  qed
qed

lemma resolve_says:
  assumes "resolve st now newop rerunop b i req lbl p = (p', v)" "wired p"
  shows "kept_promise st (requestPath (stSu st) (bdScope b) i) p' v"
proof -
  consider "quiet v"
    | p1 where "resolve_before st now b i req lbl p = (p1, Inl v)"
    | el p1 where "resolve_before st now b i req lbl p = (p1, Inr el)"
        "resolve_journal st now newop b i req lbl el p1 = (p', Inl v)"
    | el p1 p2 j where "resolve_before st now b i req lbl p = (p1, Inr el)"
        "resolve_journal st now newop b i req lbl el p1 = (p2, Inr j)"
        "resolve_after st now rerunop b i req j p2 = (p', v)"
    using assms(1) by (auto simp: resolve_def split: if_splits prod.splits sum.splits)
  then show ?thesis
  proof cases
    case (2 p1)
    then show ?thesis using quiet_before [OF 2] by (simp add: quiet_kept)
  next
    case 3
    then have "quiet v"
      using quiet_before [OF 3(1)] by (auto simp: resolve_journal_def Let_def split: option.splits sum.splits if_splits)
    then show ?thesis by (rule quiet_kept)
  next
    case 4
    have "wired p1" using resolve_before_still [OF 4(1)] assms(2) by (simp add: moves_def)
    note disk = resolve_journal_disk [OF 4(2) this]
    show ?thesis
      using resolve_after_says [OF 4(3)] disk resolve_journal_phase [OF 4(2)] by blast
  qed (rule quiet_kept)
qed

section \<open>The promises\<close>



text \<open>C18: An acceptance is a fact of the store: the journal of the request says published and holds the
  receipt handed out, and the one record its operation names can be loaded and is the admitted
  work, whatever fault the call was exposed to; a \<open>definitely not accepted\<close> finds the request
  sealed.\<close>

theorem accepted_is_recorded:
  assumes "wired p" "resolve st now newop rerunop b i req lbl p = (p', v)"
  shows "(is_accepted v \<longrightarrow> (\<exists>r j s q. arReceipt v = Some r
       \<and> map_of (pJournals p') (requestPath (stSu st) (bdScope b) i) = Some j \<and> jPhase j = ''published''
       \<and> jReceipt j = Some (wire_receipt r) \<and> jArguments j = Some s
       \<and> stLoad st (pStore p') (reOperation (wire_receipt r)) = Inr q \<and> validateOperationRecord j s (wire_receipt r) q))
    \<and> (arOutcome v = OutcomeDefinitelyNotAccepted \<longrightarrow>
         (\<exists>j. map_of (pJournals p') (requestPath (stSu st) (bdScope b) i) = Some j \<and> jPhase j = ''sealed''))"
proof -
  let ?path = "requestPath (stSu st) (bdScope b) i"
  have k: "kept_promise st ?path p' v" by (rule resolve_says [OF assms(2,1)])
  have "\<exists>j. map_of (pJournals p') ?path = Some j \<and> jPhase j = ''sealed''" if "fate_at p' ?path = Sealed"
    using that by (cases "map_of (pJournals p') ?path") (auto split: if_splits)
  with k show ?thesis by (auto simp: kept_promise_def recorded_def)
qed

section \<open>A concrete provider\<close>

text \<open>The memory binding as the job store, no executor, and a digest that is the text itself.\<close>

definition site0 :: "mem site" where
  "site0 = \<lparr>stSu = \<lparr>suSha = (\<lambda>s. s), suAbs = (\<lambda>_. True), suClean = (\<lambda>s. s)\<rparr>, stExecutor = None, stStanding = None,
     stLoad = (\<lambda>m i. mem_Load i m), stSubmit = mem_Submit, stRun = mem_run, stFault = (\<lambda>_. False)\<rparr>"

definition cf0 :: configuration where
  "cf0 = \<lparr>cfVersion = 1, cfOwner = ''o'', cfEpoch = ''h'', cfRetentionMs = MinimumRetentionMs, cfExecution = [], cfFeatures = []\<rparr>"

definition provider0 :: "mem provider" where
  "provider0 = \<lparr>pConfig = cf0, pMarked = [], pHeader = None, pJournals = [], pSubjects = [], pStore = []\<rparr>"

definition caller0 :: Binding where
  "caller0 = no_binding\<lparr>bdScope := ''s''\<rparr>"

definition path0 :: string where
  "path0 = requestPath (stSu site0) ''s'' ri0"

definition sealed0 :: journal where
  "sealed0 = sealed_journal cf0 ''s'' ri0 ''identity sealed before acceptance''"

definition provider1 :: "mem provider" where
  "provider1 = write_journal path0 sealed0 provider0"

lemma wired_provider0: "wired provider0"
  by (simp add: wired_def provider0_def)

lemma site0_simps [simp]:
  "stExecutor site0 = None" "stStanding site0 = None" "stFault site0 x = False" "stLoad site0 = (\<lambda>m i. mem_Load i m)"
  "stSubmit site0 = mem_Submit" "bdScope caller0 = ''s''" "bdSubject caller0 = None"
  by (simp_all add: site0_def caller0_def no_binding_def)

lemma provider0_simps [simp]:
  "pConfig provider0 = cf0" "pJournals provider0 = []" "pSubjects provider0 = []" "pStore provider0 = []"
  "cfVersion cf0 = 1" "cfOwner cf0 = ''o''" "cfEpoch cf0 = ''h''" "cfRetentionMs cf0 = MinimumRetentionMs" "cfFeatures cf0 = []"
  "riKey ri0 = ''k''" "riHistoryEpoch ri0 = ''h''" "riAttempt ri0 = 0"
  by (simp_all add: provider0_def cf0_def ri0_def)

lemma sealed0_simps [simp]:
  "jScope sealed0 = ''s''" "jIdentity sealed0 = ri0" "jPhase sealed0 = ''sealed''" "jReceipt sealed0 = None"
  "jArguments sealed0 = None" "jReason sealed0 = ''identity sealed before acceptance''"
  by (simp_all add: sealed0_def sealed_journal_def)

lemma before0: "resolve_before site0 now caller0 ri0 None ([], False) p = (p, Inr no_result)"
  by (simp add: resolve_before_def need_feature_def no_result_def)

lemma journal0: "resolve_journal site0 now newop caller0 ri0 None ([], False) no_result provider0 = (provider1, Inr sealed0)"
  by (simp add: resolve_journal_def no_result_def new_journal_def path0_def [symmetric] provider1_def sealed0_def Let_def)

lemma answer0: "ReconcileEvidence ''s'' ''o'' ri0 None (evidence_of sealed0 True)
    = outcome OutcomeDefinitelyNotAccepted ''identity sealed against acceptance''"
proof -
  have e: "entitled ''s'' ''o'' ri0 None (evidence_of sealed0 True)"
    by (simp add: entitled_def evidence_of_def validIdentity_def)
  show ?thesis by (simp add: ReconcileEvidence_entitled [OF e]) (simp add: evidence_of_def)
qed

lemma after0: "resolve_after site0 now newop caller0 ri0 None sealed0 p
    = (p, outcome OutcomeDefinitelyNotAccepted ''identity sealed before acceptance'')" if "cfOwner (pConfig p) = ''o''"
  using that by (simp add: resolve_after_def resolve_answer_def indexJournal_def answer0 Let_def is_accepted_def)
     (simp add: outcome_def)

lemma seal0: "resolve site0 0 ''op1'' ''op2'' caller0 ri0 None ([], False) provider0
    = (provider1, outcome OutcomeDefinitelyNotAccepted ''identity sealed before acceptance'')"
  by (simp add: resolve_def before0 journal0 after0 provider1_def)



lemma accepted_is_recorded_witness: "\<exists>j. map_of (pJournals provider1) path0 = Some j \<and> jPhase j = ''sealed''"
  using accepted_is_recorded [OF wired_provider0 seal0] by (simp add: path0_def)

end
