(* ===== verification/OperationsSafety.thy ===== *)
theory OperationsSafety
  imports ProviderSafety
begin

text \<open>
  What observation promises: result bytes come only from a complete operation of the caller's own
  scope, within the bounds asked for, and never from a result that was recorded as lost, whatever
  happens in between.
\<close>

section \<open>A loss is never forgotten\<close>

text \<open>The journal there holds the operation only together with its loss.\<close>

fun lost_in :: "string \<Rightarrow> journal option \<Rightarrow> bool" where
  "lost_in op None = False"
| "lost_in op (Some j) = (map_option reOperation (jReceipt j) = Some op \<longrightarrow> jResultLost j)"

abbreviation lost_at :: "string \<Rightarrow> string \<Rightarrow> 's provider \<Rightarrow> bool" where
  "lost_at op path p \<equiv> lost_in op (map_of (pJournals p) path)"

text \<open>A step that keeps it, on disks whose journals JSON leaves alone.\<close>

definition keeps_lost :: "string \<Rightarrow> string \<Rightarrow> 's provider \<Rightarrow> 's provider \<Rightarrow> bool" where
  "keeps_lost op path p p' \<longleftrightarrow> (wired p \<longrightarrow> lost_at op path p \<longrightarrow> wired p' \<and> lost_at op path p')"

lemma keeps_lost_same: "pJournals p' = pJournals p \<Longrightarrow> keeps_lost op path p p'"
  by (simp add: keeps_lost_def wired_def)

lemma keeps_lost_refl [simp]: "keeps_lost op path p p"
  by (simp add: keeps_lost_def)

lemma keeps_lost_trans: "keeps_lost op path p q \<Longrightarrow> keeps_lost op path q r \<Longrightarrow> keeps_lost op path p r"
  by (simp add: keeps_lost_def)

lemma wired_write [simp]: "wired p \<Longrightarrow> wired (write_journal path j p)"
  by (auto simp: wired_def)

lemma keeps_lost_write:
  assumes "wired p \<Longrightarrow> lost_at op path' p \<Longrightarrow> lost_in op (Some (journal_wire j))"
  shows "keeps_lost op path p (write_journal path' j p)"
  using assms by (auto simp: keeps_lost_def)

lemma materialize_cases:
  assumes "materialize st now path p = (p', res)"
  obtains store where "p' = p\<lparr>pStore := store\<rparr>"
  | store j where "map_of (pJournals p) path = Some j" "p' = write_journal path (j\<lparr>jPhase := ''published''\<rparr>) (p\<lparr>pStore := store\<rparr>)"
proof (cases "decodeJournal st p now (map_of (pJournals p) path)")
  case (Inl e)
  with assms that(1) [of "pStore p"] show ?thesis by (simp add: materialize_def)
next
  case (Inr j)
  note d = decodeJournal_Inr [OF Inr]
  show ?thesis
  proof (cases "jPhase j = ''sealed'' \<or> jArguments j = None \<or> jReceipt j = None")
    case True
    with assms Inr that(1) [of "pStore p"] show ?thesis by (auto simp: materialize_def split: option.splits if_splits)
  next
    case False
    then obtain s r where sr: "jArguments j = Some s" "jReceipt j = Some r" by auto
    obtain store q where l: "load_or_submit st now j s r (pStore p) = (store, q)" by fastforce
    have "p' = p\<lparr>pStore := store\<rparr> \<or> p' = write_journal path (j\<lparr>jPhase := ''published''\<rparr>) (p\<lparr>pStore := store\<rparr>)"
      using assms Inr False sr l by (cases q) (auto simp: materialize_def Let_def split: if_splits)
    with d that show ?thesis by blast
  qed
qed

lemma materialize_lost: "materialize st now path' p = (p', res) \<Longrightarrow> keeps_lost op path p p'"
proof (erule materialize_cases)
  fix store j
  assume j: "map_of (pJournals p) path' = Some j"
    and p': "p' = write_journal path' (j\<lparr>jPhase := ''published''\<rparr>) (p\<lparr>pStore := store\<rparr>)"
  have "keeps_lost op path (p\<lparr>pStore := store\<rparr>) p'"
    unfolding p'
  proof (rule keeps_lost_write)
    assume "wired (p\<lparr>pStore := store\<rparr>)" "lost_at op path' (p\<lparr>pStore := store\<rparr>)"
    then have "journal_wire j = j" "lost_in op (Some j)" using j by (auto simp: wired_def)
    then show "lost_in op (Some (journal_wire (j\<lparr>jPhase := ''published''\<rparr>)))" by (simp add: wired_published)
  qed
  then show ?thesis by (rule keeps_lost_trans [OF keeps_lost_same, rotated]) simp
qed (simp add: keeps_lost_same)

lemma operation_lost: "operation st now scope i p = (p', res) \<Longrightarrow> keeps_lost op path p p'"
  by (auto simp: operation_def Let_def dest!: materialize_lost split: if_splits sum.splits prod.splits option.splits)

lemma recordResultLost_lost: "recordResultLost st now scope i p = (p', res) \<Longrightarrow> keeps_lost op path p p'"
proof -
  assume a: "recordResultLost st now scope i p = (p', res)"
  show ?thesis
  proof (rule recordResultLost_cases [OF a])
    fix q assume "pJournals q = pJournals p" "p' = q"
    then show ?thesis by (simp add: keeps_lost_same)
  next
    fix q j assume q: "pJournals q = pJournals p" "p' = write_journal (requestPath (stSu st) scope i) (j\<lparr>jResultLost := True\<rparr>) q"
    have "keeps_lost op path q p'" unfolding q(2) by (rule keeps_lost_write) (simp add: journal_wire_def)
    with q(1) show ?thesis by (blast intro: keeps_lost_trans keeps_lost_same)
  qed
qed

lemma ReadResult_lost: "ReadResult st ob now scope i offset maxBytes p = (p', v) \<Longrightarrow> keeps_lost op path p p'"
  by (erule ReadResult_cases) (auto dest: operation_lost recordResultLost_lost intro: keeps_lost_trans)

lemma ensureFeature_lost: "ensureFeature f p = (p', res) \<Longrightarrow> keeps_lost op path p p'"
  by (auto dest!: ensureFeature_still intro: keeps_lost_same)

lemma need_feature_lost: "need_feature c f p = (p', no) \<Longrightarrow> keeps_lost op path p p'"
  by (auto dest!: need_feature_still intro: keeps_lost_same)

lemma attemptEvidence_lost: "attemptEvidence st now scope i p = (p', e) \<Longrightarrow> keeps_lost op path p p'"
  by (auto simp: attemptEvidence_def Let_def dest!: materialize_lost
      split: sum.splits option.splits if_splits prod.splits)

lemma resolve_before_lost: "resolve_before st now b i req lbl p = (p', res) \<Longrightarrow> keeps_lost op path p p'"
proof -
  assume a: "resolve_before st now b i req lbl p = (p', res)"
  obtain p1 e where 1: "(if 0 < riAttempt i then (case attemptEvidence st now (bdScope b) i p of (p, e) \<Rightarrow> (p, AttemptEligibility i req e))
      else (p, no_result)) = (p1, e)" by fastforce
  have k1: "keeps_lost op path p p1"
    using 1 by (auto split: if_splits prod.splits dest: attemptEvidence_lost)
  obtain p2 n2 where 2: "need_feature (0 < riAttempt i \<and> arOutcome e = OutcomeOther 0) StorageFeatureAttempts p1 = (p2, n2)" by fastforce
  obtain p3 n3 where 3: "need_feature (fst lbl \<noteq> []) StorageFeatureLabels p2 = (p3, n3)" by fastforce
  obtain p4 n4 where 4: "need_feature (req \<noteq> None \<and> bdSubject b \<noteq> None) StorageFeatureSubjects p3 = (p4, n4)" by fastforce
  note k = need_feature_lost [OF 2, of op path] need_feature_lost [OF 3, of op path] need_feature_lost [OF 4, of op path]
  have "p' \<in> {p2, p3, p4}"
    using a unfolding resolve_before_def Let_def 1 prod.case 2 3 4
    by (simp only: prod.case split: option.splits if_splits prod.splits sum.splits) (auto split: option.splits if_splits prod.splits)
  with k1 k show ?thesis by (auto intro: keeps_lost_trans)
qed

lemma resolve_journal_lost: "resolve_journal st now newop b i req lbl el p = (p', res) \<Longrightarrow> keeps_lost op path p p'"
  by (auto simp: resolve_journal_def Let_def intro!: keeps_lost_write split: option.splits sum.splits if_splits)

lemma rerun_commit_lost:
  assumes "rerun_commit st now newop path' old w p = (p', res)" "wire newop \<noteq> op"
  shows "keeps_lost op path p p'"
  using assms(1)
proof (cases rule: rerun_commit_cases)
  case (2 current p1 n)
  have "keeps_lost op path p p1" unfolding 2(4)
  proof (rule keeps_lost_write)
    obtain r where "jReceipt n = Some (r\<lparr>reOperation := newop\<rparr>)" using rerun_journal_Some [OF 2(3)] .
    with assms(2) show "lost_in op (Some (journal_wire n))" by (simp add: journal_wire_def wire_receipt_def)
  qed
  with 2(5) show ?thesis by (auto dest!: indexJournal_still intro: keeps_lost_trans keeps_lost_same)
next
  case (3 current)
  then show ?thesis by (auto dest!: indexJournal_still intro: keeps_lost_same)
qed simp

lemma rerunRefused_lost:
  "rerunRefused st now newop b path' j r s p = (p', res) \<Longrightarrow> wire newop \<noteq> op \<Longrightarrow> keeps_lost op path p p'"
  by (auto simp: rerunRefused_def intro: rerun_commit_lost split: if_splits sum.splits)

lemma resolve_answer_lost: "resolve_answer st now b i req j p = (p', v) \<Longrightarrow> keeps_lost op path p p'"
  by (auto simp: resolve_answer_def Let_def dest!: materialize_lost split: if_splits prod.splits sum.splits)

lemma resolve_after_lost:
  assumes "resolve_after st now newop b i req j p = (p', v)" "wire newop \<noteq> op"
  shows "keeps_lost op path p p'"
proof (cases "indexJournal (requestPath (stSu st) (bdScope b) i) j p")
  case (Inl e)
  with assms show ?thesis by (auto simp: resolve_after_def Let_def split: if_splits)
next
  case (Inr q)
  have q: "keeps_lost op path p q" using indexJournal_still [OF Inr] by (simp add: keeps_lost_same)
  have "p' = p \<or> (\<exists>n q2 v. resolve_answer st now b i req n q2 = (p', v) \<and> keeps_lost op path q q2) \<or> keeps_lost op path q p'"
    using assms(1) Inr
    by (auto simp: resolve_after_def Let_def dest!: rerunRefused_lost [OF _ assms(2), where path = path]
        split: if_splits option.splits prod.splits sum.splits) (metis keeps_lost_refl)+
  with q show ?thesis by (auto dest: resolve_answer_lost intro: keeps_lost_trans)
qed

lemma resolve_lost:
  assumes "wire rerunop \<noteq> op"
  shows "keeps_lost op path p (fst (resolve st now newop rerunop b i req lbl p))"
proof -
  obtain p1 r1 where 1: "resolve_before st now b i req lbl p = (p1, r1)" by fastforce
  have k1: "keeps_lost op path p p1" by (rule resolve_before_lost [OF 1])
  show ?thesis
  proof (cases r1)
    case (Inl v)
    with 1 k1 show ?thesis by (simp add: resolve_def)
  next
    case (Inr el)
    obtain p2 r2 where 2: "resolve_journal st now newop b i req lbl el p1 = (p2, r2)" by fastforce
    have k2: "keeps_lost op path p p2" using k1 resolve_journal_lost [OF 2] by (rule keeps_lost_trans)
    show ?thesis
    proof (cases r2)
      case (Inl v)
      with 1 2 k2 \<open>r1 = Inr el\<close> show ?thesis by (simp add: resolve_def)
    next
      case j: (Inr j)
      obtain p3 v where 3: "resolve_after st now rerunop b i req j p2 = (p3, v)" by fastforce
      have "keeps_lost op path p p3" using k2 resolve_after_lost [OF 3 assms] by (rule keeps_lost_trans)
      with 1 2 3 j Inr show ?thesis by (simp add: resolve_def)
    qed
  qed
qed

lemma serves_lost: "serves st avoid p p' \<Longrightarrow> op \<in> avoid \<Longrightarrow> keeps_lost op path p p'"
proof (induction rule: serves.induct)
  case (submit newop rerunop p f now b s)
  then have "wire rerunop \<noteq> op" by blast
  then show ?case by (simp add: Submit_def resolve_lost)
next
  case (reconcile newop rerunop p f now b i)
  then have "wire rerunop \<noteq> op" by blast
  then show ?case by (simp add: Reconcile_def resolve_lost)
next
  case (cancel newop rerunop p f now b i)
  then have "wire rerunop \<noteq> op" by blast
  note lost = resolve_lost [OF this]
  let ?st = "st\<lparr>stFault := f\<rparr>" and ?b = "bind_caller st b"
  obtain q v where r: "Reconcile ?st now newop rerunop ?b i p = (q, v)" by fastforce
  have "keeps_lost op path p q"
    using lost [of path p ?st now newop ?b i None "([], False)"] r by (auto simp: Reconcile_def split: if_splits)
  moreover have "pJournals (fst (CancelWork ?st now newop rerunop ?b i p)) \<in> {pJournals p, pJournals q}"
    using r by (auto simp: CancelWork_def split: prod.splits sum.splits option.splits bool.splits)
  ultimately show ?case by (auto intro: keeps_lost_same keeps_lost_trans)
next
  case (observe p f now scope i)
  then show ?case by (metis operation_lost prod.collapse)
next
  case (read p f ob now scope i offset maxBytes)
  then show ?case by (metis ReadResult_lost prod.collapse)
next
  case (recover p f now path')
  then show ?case by (metis materialize_lost prod.collapse)
qed (simp_all add: keeps_lost_same)

lemma history_lost: "(serves st avoid)\<^sup>*\<^sup>* p p' \<Longrightarrow> op \<in> avoid \<Longrightarrow> keeps_lost op path p p'"
  by (induction rule: rtranclp_induct) (auto intro: keeps_lost_trans serves_lost)

section \<open>An observed operation\<close>

lemma if_bad: "(if b then bad_journal else x) = Inr y \<longleftrightarrow> \<not> b \<and> x = Inr y" "bad_journal \<noteq> Inr y"
  by (simp_all add: bad_journal_def)

lemma phase_only [simp]:
  "prepareJournal ex (j\<lparr>jPhase := w\<rparr>) r s = prepareJournal ex j r s"
  "evidence_of (j\<lparr>jPhase := w\<rparr>) sealed = evidence_of j sealed"
  by (cases "jSubject j") (simp_all add: prepareJournal_def evidence_of_def)

lemma check_accepted_published:
  assumes "check_accepted ex cf now j s r = Inr j"
  shows "check_accepted ex cf now (j\<lparr>jPhase := w\<rparr>) s r = Inr (j\<lparr>jPhase := w\<rparr>)"
proof (cases "acceptedFrom (recoverableGuarantees ex) (suRequired s)")
  case (Inl e)
  with assms show ?thesis by (simp add: check_accepted_def if_bad)
next
  case (Inr b)
  note a = assms [unfolded check_accepted_def if_bad Inr sum.case]
  then have "validateSpec now s = Inr ()" by (cases "validateSpec now s") (simp_all add: res_simps)
  with a Inr show ?thesis
    by (cases ex; cases "prepareJournal ex j r s") (auto simp: check_accepted_def if_bad res_simps)
qed

lemma decode_published:
  assumes "decodeJournal st p now (Some j) = Inr j" "jPhase j \<noteq> ''sealed''"
    and "pConfig p' = pConfig p" "pMarked p' = pMarked p"
  shows "decodeJournal st p' now (Some (j\<lparr>jPhase := ''published''\<rparr>)) = Inr (j\<lparr>jPhase := ''published''\<rparr>)"
proof (cases "jArguments j"; cases "jReceipt j")
  fix s r assume "jArguments j = Some s" "jReceipt j = Some r"
  with assms check_accepted_published [of "stExecutor st" "pConfig p" now j s r "''published''"] show ?thesis
    by (simp add: decodeJournal_def check_journal_def if_bad)
qed (use assms in \<open>simp_all add: decodeJournal_def check_journal_def if_bad\<close>)

lemma materialize_published:
  assumes "materialize st now path p = (p', Inr u)" "decodeJournal st p now (map_of (pJournals p) path) = Inr j"
    and "journal_wire j = j" "jPhase j \<noteq> ''sealed''"
  shows "map_of (pJournals p') path = Some (j\<lparr>jPhase := ''published''\<rparr>) \<and> pMarked p' = pMarked p \<and> pConfig p' = pConfig p"
proof -
  note d = decodeJournal_Inr [OF assms(2)]
  have same: "j\<lparr>jPhase := ''published''\<rparr> = j" if "jPhase j = ''published''" using that by simp
  obtain s r where sr: "jArguments j = Some s" "jReceipt j = Some r"
    using assms(1,2,4) by (cases "jArguments j"; cases "jReceipt j") (auto simp: materialize_def bad_journal_def)
  obtain store q where l: "load_or_submit st now j s r (pStore p) = (store, q)" by fastforce
  show ?thesis
    using assms(1,2,4) sr l d wired_published [OF assms(3)]
    by (cases q) (auto simp: materialize_def Let_def failed_def same write_journal_def map_of_gomap_put split: if_splits)
qed

lemma operation_Inr:
  assumes "operation st now scope i p = (p', Inr (j, q))" "wired p"
  obtains r s where "map_of (pJournals p') (requestPath (stSu st) scope i) = Some (j\<lparr>jPhase := ''published''\<rparr>)"
    "decodeJournal st p' now (Some (j\<lparr>jPhase := ''published''\<rparr>)) = Inr (j\<lparr>jPhase := ''published''\<rparr>)"
    "jScope j = scope" "jIdentity j = i" "jReceipt j = Some r" "jArguments j = Some s"
    "stLoad st (pStore p') (reOperation r) = Inr q" "validateOperationRecord j s r q"
proof -
  let ?path = "requestPath (stSu st) scope i"
  obtain j0 where j0: "decodeJournal st p now (map_of (pJournals p) ?path) = Inr j0"
    using assms(1) by (cases "decodeJournal st p now (map_of (pJournals p) ?path)") (auto simp: operation_def Let_def split: if_splits)
  obtain p1 m where m: "(if jPhase j0 \<noteq> ''published'' then materialize st now ?path p else (p, Inr ())) = (p1, m)" by fastforce
  have "\<not> (scope = [])" "jScope j0 = scope" "jIdentity j0 = i" "jPhase j0 \<noteq> ''sealed''"
    using assms(1) j0 by (auto simp: operation_def Let_def split: if_splits)
  note a = assms(1) [unfolded operation_def Let_def j0 sum.case m prod.case]
  have "m = Inr ()" using a by (cases m) (auto split: if_splits)
  obtain r s where rs: "jReceipt j0 = Some r" "jArguments j0 = Some s"
    using a by (cases "jReceipt j0"; cases "jArguments j0") (auto simp: \<open>m = Inr ()\<close> split: if_splits)
  have "\<exists>q. stLoad st (pStore p1) (reOperation r) = Inr q"
    using a by (cases "stLoad st (pStore p1) (reOperation r)") (auto simp: \<open>m = Inr ()\<close> rs split: if_splits)
  then have last: "stLoad st (pStore p1) (reOperation r) = Inr q" "validateOperationRecord j0 s r q" "p' = p1" "j = j0"
    using a by (auto simp: \<open>m = Inr ()\<close> rs split: if_splits)
  note * = \<open>jScope j0 = scope\<close> \<open>jIdentity j0 = i\<close> \<open>jPhase j0 \<noteq> ''sealed''\<close> \<open>m = Inr ()\<close>
  note d = decodeJournal_Inr [OF j0]
  have w: "journal_wire j0 = j0" using d assms(2) by (simp add: wired_def)
  have "map_of (pJournals p1) ?path = Some (j0\<lparr>jPhase := ''published''\<rparr>) \<and> pMarked p1 = pMarked p \<and> pConfig p1 = pConfig p"
  proof (cases "jPhase j0 = ''published''")
    case True
    then have "j0\<lparr>jPhase := ''published''\<rparr> = j0" by simp
    with m d True show ?thesis by (simp del: journal.update_convs)
  next
    case False
    with m *(4) have "materialize st now ?path p = (p1, Inr ())" by simp
    from materialize_published [OF this j0 w *(3)] show ?thesis .
  qed
  moreover have "decodeJournal st p1 now (Some (j0\<lparr>jPhase := ''published''\<rparr>)) = Inr (j0\<lparr>jPhase := ''published''\<rparr>)"
    using decode_published [of st p now j0 p1] j0 d *(3) calculation by simp
  ultimately show ?thesis using that [of r s] * rs last by simp
qed

section \<open>The promises\<close>

definition rightly_read ::
    "'s site \<Rightarrow> observer \<Rightarrow> string \<Rightarrow> RequestIdentity \<Rightarrow> int \<Rightarrow> int \<Rightarrow> ResultChunk \<Rightarrow> 's provider \<Rightarrow> bool" where
  "rightly_read st ob scope i offset maxBytes chunk p' \<longleftrightarrow>
    (\<exists>j s r q read. map_of (pJournals p') (requestPath (stSu st) scope i) = Some j
      \<and> jScope j = scope \<and> jIdentity j = i \<and> jPhase j = ''published'' \<and> \<not> jResultLost j
      \<and> jReceipt j = Some r \<and> jArguments j = Some s \<and> rcReceipt chunk = r
      \<and> stLoad st (pStore p') (reOperation r) = Inr q \<and> validateOperationRecord j s r q \<and> rState q = StateComplete
      \<and> obReader ob = Some read \<and> read q offset maxBytes = Inr (rcData chunk, rcTotal chunk)
      \<and> rcOffset chunk = offset \<and> 0 \<le> offset \<and> int (length (rcData chunk)) \<le> maxBytes \<and> maxBytes \<le> 65536
      \<and> offset + int (length (rcData chunk)) \<le> rcTotal chunk
      \<and> (rcEOF chunk \<longleftrightarrow> offset + int (length (rcData chunk)) = rcTotal chunk)
      \<and> (rcData chunk = [] \<longrightarrow> rcEOF chunk))"

lemma ReadResult_rightly:
  assumes "wired p" "ReadResult st ob now scope i offset maxBytes p = (p', Inr chunk)"
  shows "rightly_read st ob scope i offset maxBytes chunk p'"
proof -
  let ?path = "requestPath (stSu st) scope i"
  obtain p1 j q where o: "operation st now scope i p = (p1, Inr (j, q))"
    using assms(2) by (cases "operation st now scope i p"; cases "snd (operation st now scope i p)")
      (auto simp: ReadResult_def split: if_splits)
  obtain r s where j: "map_of (pJournals p1) ?path = Some (j\<lparr>jPhase := ''published''\<rparr>)"
    "decodeJournal st p1 now (Some (j\<lparr>jPhase := ''published''\<rparr>)) = Inr (j\<lparr>jPhase := ''published''\<rparr>)"
    "jScope j = scope" "jIdentity j = i" "jReceipt j = Some r" "jArguments j = Some s"
    "stLoad st (pStore p1) (reOperation r) = Inr q" "validateOperationRecord j s r q"
    using operation_Inr [OF o assms(1)] .
  have lost: "resultLost st p1 now scope i = jResultLost j"
    using j(1-4) by (simp add: resultLost_def readJournal_def res_simps)
  have range: "\<not> (offset < 0 \<or> maxBytes < 1 \<or> MaxResultBytes < maxBytes)"
    using assms(2) by (auto simp: ReadResult_def split: if_splits)
  obtain read where read: "obReader ob = Some read"
    using assms(2) o by (cases "obReader ob") (auto simp: ReadResult_def split: if_splits)
  have c: "rState q = StateComplete \<and> \<not> jResultLost j"
    using assms(2) o lost read by (auto simp: ReadResult_def split: if_splits)
  obtain data whole where d: "read q offset maxBytes = Inr (data, whole)"
    using assms(2) o lost read c
    by (cases "read q offset maxBytes") (auto simp: ReadResult_def split: if_splits read_error.splits)
  have res: "p' = p1 \<and> \<not> bad_chunk offset maxBytes data whole \<and>
      chunk = \<lparr>rcReceipt = r, rcOffset = offset, rcTotal = whole, rcData = data, rcEOF = (offset + int (length data) = whole)\<rparr>"
    using assms(2) o lost read c d j(5) by (auto simp: ReadResult_def split: if_splits)
  show ?thesis
    unfolding rightly_read_def
    using j res c read d range
    by (intro exI [of _ "j\<lparr>jPhase := ''published''\<rparr>"] exI [of _ s] exI [of _ r] exI [of _ q] exI [of _ read])
      (auto simp: bad_chunk_def MaxResultBytes_def)
qed

text \<open>C29: Result bytes leave the provider only for an accepted operation of the caller's own scope whose
  journal is published, whose one record is complete and is the admitted work, and whose loss was
  not recorded.  They are what the executor's reader answered for that record, at most what was
  asked for, within the result, and the end is announced exactly when they reach it.\<close>

theorem ReadResult_correct:
  assumes "wired p" "ReadResult st ob now scope i offset maxBytes p = (p', Inr chunk)"
  shows "\<exists>j s r q read. map_of (pJournals p') (requestPath (stSu st) scope i) = Some j
    \<and> jScope j = scope \<and> jIdentity j = i \<and> jPhase j = ''published'' \<and> \<not> jResultLost j
    \<and> jReceipt j = Some r \<and> jArguments j = Some s \<and> rcReceipt chunk = r
    \<and> stLoad st (pStore p') (reOperation r) = Inr q \<and> validateOperationRecord j s r q \<and> rState q = StateComplete
    \<and> obReader ob = Some read \<and> read q offset maxBytes = Inr (rcData chunk, rcTotal chunk)
    \<and> rcOffset chunk = offset \<and> 0 \<le> offset \<and> int (length (rcData chunk)) \<le> maxBytes \<and> maxBytes \<le> 65536
    \<and> offset + int (length (rcData chunk)) \<le> rcTotal chunk
    \<and> (rcEOF chunk \<longleftrightarrow> offset + int (length (rcData chunk)) = rcTotal chunk)
    \<and> (rcData chunk = [] \<longrightarrow> rcEOF chunk)"
  using ReadResult_rightly [OF assms] by (simp only: rightly_read_def)

text \<open>C10: Bytes that reappear are never served.  Once the loss of an operation's result is recorded, then
  after any history of calls, work on the store, failures and restarts that does not hand out its
  identifier again, no call of \<open>ReadResult\<close> answers bytes under that operation.\<close>

theorem lost_never_served:
  assumes "wired p" "map_of (pJournals p) (requestPath (stSu st) scope i) = Some j"
    and "map_option reOperation (jReceipt j) = Some op" "jResultLost j"
    and "(serves st avoid)\<^sup>*\<^sup>* p q" "op \<in> avoid" "stSu st' = stSu st"
  shows "case ReadResult st' ob now scope i offset maxBytes q of
      (q', Inl _) \<Rightarrow> True
    | (q', Inr chunk) \<Rightarrow> reOperation (rcReceipt chunk) \<noteq> op"
proof -
  let ?path = "requestPath (stSu st) scope i"
  have "keeps_lost op ?path p q" by (rule history_lost [OF assms(5,6)])
  then have q: "wired q" "lost_at op ?path q" using assms(1-4) by (simp_all add: keeps_lost_def)
  have "reOperation (rcReceipt chunk) \<noteq> op" if r: "ReadResult st' ob now scope i offset maxBytes q = (q', Inr chunk)" for q' chunk
  proof -
    have "keeps_lost op ?path q q'" by (rule ReadResult_lost [OF r])
    then have "lost_at op ?path q'" using q by (simp add: keeps_lost_def)
    moreover obtain j' r where "map_of (pJournals q') ?path = Some j'" "\<not> jResultLost j'" "jReceipt j' = Some r" "rcReceipt chunk = r"
      using ReadResult_rightly [OF q(1) r] assms(7) by (auto simp: rightly_read_def)
    ultimately show ?thesis by auto
  qed
  then show ?thesis by (auto split: sum.splits)
qed

section \<open>A concrete result\<close>

definition re1 :: Receipt where
  "re1 = \<lparr>reIdentity = ri0, reOwner = ''o'', reOperation = ''op1'', reGuarantees = Guarantees, reRetentionMs = MinimumRetentionMs\<rparr>"

definition published0 :: journal where
  "published0 = (sealed_journal cf0 ''s'' ri0 [])\<lparr>jPhase := ''published'', jArguments := Some su0, jReceipt := Some re1\<rparr>"

definition done0 :: Record where
  "done0 = describe (sample\<lparr>rID := ''op1'', rState := StateComplete\<rparr>)"

definition provider2 :: "mem provider" where
  "provider2 = provider0\<lparr>pJournals := [(path0, published0)], pStore := [(''op1'', done0)]\<rparr>"

definition reader0 :: observer where
  "reader0 = \<lparr>obReader = Some (\<lambda>q offset n. Inr (''abc'', 3)), obRetention = None, obFailure = None, obWaiting = None\<rparr>"

lemma su0_fields [simp]:
  "suIdentity su0 = ri0" "suKind su0 = ''download''" "suSpec su0 = ''{}''" "suRequired su0 = []" "suLabel su0 = []"
  by (simp_all add: su0_def)

lemma re1_fields [simp]:
  "reIdentity re1 = ri0" "reOwner re1 = ''o''" "reOperation re1 = ''op1''" "reGuarantees re1 = Guarantees"
  "reRetentionMs re1 = MinimumRetentionMs"
  by (simp_all add: re1_def)

lemma published0_fields [simp]:
  "jVersion published0 = 1" "jScope published0 = ''s''" "jIdentity published0 = ri0" "jPhase published0 = ''published''"
  "jArguments published0 = Some su0" "jReceipt published0 = Some re1" "jReason published0 = []" "jOrigin published0 = []"
  "jSubject published0 = None" "jSubjectOrigin published0 = []" "jSubjectEvidence published0 = []" "jLabel published0 = []"
  "\<not> jLabelDerived published0" "\<not> jResultLost published0" "jWorkSpec published0 = []" "jWorkRequires published0 = []"
  by (simp_all add: published0_def sealed_journal_def)

lemma validateSpec_su0: "validateSpec 0 su0 = Inr ()"
  by (simp add: validateSpec_def su0_valid res_simps MaxSpecBytes_def validation_record_def canonicalise_def canonicalCheckpoint_def
      eval_record eval_Validate At_def)

lemma decode0: "decodeJournal site0 provider2 0 (Some published0) = Inr published0"
proof -
  have e: "entitled ''s'' ''o'' ri0 None (evidence_of published0 False)"
    by (simp add: entitled_def evidence_of_def validIdentity_def)
  have p: "proven_receipt ''o'' ri0 None (evidence_of published0 False) re1"
    by (simp add: proven_receipt_def evidence_of_def su0_valid guarantee_set_def Guarantees_def MinimumRetentionMs_def
        GuaranteeCallerExit_def GuaranteeServiceRestart_def GuaranteeReconciliation_def)
  have i: "validIdentity ri0" by (simp add: validIdentity_def)
  have r: "evReceipt (evidence_of published0 False) = Some re1" by (simp add: evidence_of_def)
  have "arOutcome (ReconcileEvidence ''s'' ''o'' ri0 None (evidence_of published0 False)) = OutcomeAccepted"
    using reconcile_receipt_proven [OF i, of "''o''" None _ re1] p r
    by (simp add: ReconcileEvidence_entitled [OF e])
  then show ?thesis
    by (simp add: decodeJournal_def check_journal_def check_accepted_def if_bad provider2_def MaxCallerScopeBytes_def
        NormalizeLabel_Nil validateSpec_su0 res_simps acceptedFrom_def Guarantees_def operation_char_def between_def byte_def)
qed

lemma wired_published0: "journal_wire published0 = published0"
  by (simp add: journal_wire_def published0_def sealed_journal_def wire_identity_def wire_submission_def wire_receipt_def
      su0_def re1_def ri0_def cf0_def Guarantees_def GuaranteeCallerExit_def GuaranteeServiceRestart_def
      GuaranteeReconciliation_def wire_valid byte_def)

lemma wired_provider2: "wired provider2"
  by (simp add: wired_def provider2_def wired_published0)

lemma done0_load: "stLoad site0 (pStore provider2) ''op1'' = Inr done0" "rState done0 = StateComplete"
  by (simp_all add: provider2_def mem_Load_def done0_def describe_keeps)

lemma operation0: "operation site0 0 ''s'' ri0 provider2 = (provider2, Inr (published0, done0))"
proof -
  have path: "requestPath (stSu site0) ''s'' ri0 = path0" by (simp add: path0_def)
  have v: "validateOperationRecord published0 su0 re1 done0"
    by (simp add: validateOperationRecord_def workSpec_def done0_def describe_keeps sample_simps Compact_None_iff sample_json(1))
  have "map_of (pJournals provider2) path0 = Some published0" "pConfig provider2 = cf0"
    by (simp_all add: provider2_def)
  then show ?thesis
    using done0_load(1) v by (simp add: operation_def path decode0 Let_def byte_def)
qed

lemma read0: "ReadResult site0 reader0 0 ''s'' ri0 0 10 provider2
    = (provider2, Inr \<lparr>rcReceipt = re1, rcOffset = 0, rcTotal = 3, rcData = ''abc'', rcEOF = True\<rparr>)"
proof -
  have "readJournal site0 provider2 0 ''s'' ri0 = Inr (Some published0)"
    by (simp add: readJournal_def path0_def [symmetric] provider2_def decode0 [unfolded provider2_def] res_simps)
  then show ?thesis
    by (simp add: ReadResult_def operation0 reader0_def done0_load resultLost_def bad_chunk_def MaxResultBytes_def)
qed

lemma ReadResult_correct_witness:
  "\<exists>j. map_of (pJournals provider2) path0 = Some j \<and> jPhase j = ''published'' \<and> \<not> jResultLost j \<and> jReceipt j = Some re1"
  using ReadResult_correct [OF wired_provider2 read0] by (auto simp: path0_def)

text \<open>The same provider after the loss was recorded.\<close>

definition lost0 :: journal where
  "lost0 = published0\<lparr>jResultLost := True\<rparr>"

definition provider3 :: "mem provider" where
  "provider3 = provider2\<lparr>pJournals := [(path0, lost0)]\<rparr>"

lemma wired_provider3: "wired provider3"
proof -
  have "journal_wire lost0 = (journal_wire published0)\<lparr>jResultLost := True\<rparr>" by (simp add: lost0_def journal_wire_def)
  then have "journal_wire lost0 = lost0" by (simp only: wired_published0 lost0_def [symmetric])
  then show ?thesis by (simp add: wired_def provider3_def)
qed

lemma lost_never_served_witness:
  "case ReadResult site0 reader0 7 ''s'' ri0 0 10 provider3 of (q', Inl _) \<Rightarrow> True
     | (q', Inr chunk) \<Rightarrow> reOperation (rcReceipt chunk) \<noteq> ''op1''"
proof (rule lost_never_served [OF wired_provider3 _ _ _ rtranclp.rtrancl_refl])
  show "map_of (pJournals provider3) (requestPath (stSu site0) ''s'' ri0) = Some lost0"
    by (simp add: provider3_def path0_def)
  show "map_option reOperation (jReceipt lost0) = Some ''op1''" "jResultLost lost0" "''op1'' \<in> {''op1''}"
    by (simp_all add: lost0_def)
qed simp

end
