(* ===== verification/Standing.thy ===== *)
theory Standing
  imports Operations Handle
begin

text \<open>
  Deciding accepted work again (go/acceptanceprovider/standing.go): the store an executor receives
  when a standing decision is configured, and the pass that ends work whose submitter's rule no
  longer permits it.  The decision is a parameter, asked for a call, a subject and a kind; whether
  the context has ended when it is asked is an argument.  The store is an argument, by the events
  of its interface; what other callers do between two of its calls is a list of events.
\<close>

section \<open>The decision\<close>

record standing =
  sgDecide :: "(string \<Rightarrow> AuthenticatedSubject \<Rightarrow> string \<Rightarrow> string res) option"
  sgSubjects :: "journalSubject gomap"
  sgEnded :: bool

definition standingOwner :: string where
  "standingOwner = ''abstraction.job/standing''"

text \<open>\<open>errStandingUnavailable\<close>, \<open>standingRefusal\<close>, and the errors of the store itself.\<close>

datatype standing_err = StoreErr err | StandingUnavailable | StandingRefused string

text \<open>\<open>errors.Is(err, job.ErrStaleEpoch)\<close>.\<close>

definition is_stale :: "standing_err \<Rightarrow> bool" where
  "is_stale e \<longleftrightarrow> (case e of StoreErr x \<Rightarrow> x = ErrStaleEpoch | StandingRefused _ \<Rightarrow> True | StandingUnavailable \<Rightarrow> False)"

definition standingOf :: "standing \<Rightarrow> string \<Rightarrow> string \<Rightarrow> standing_err + string" where
  "standingOf sg call i =
     (case sgDecide sg of
        None \<Rightarrow> Inr []
      | Some decide \<Rightarrow>
          (case map_of (sgSubjects sg) i of
             None \<Rightarrow> Inr []
           | Some e \<Rightarrow>
               (case jsSubject e of
                  None \<Rightarrow> Inr []
                | Some subject \<Rightarrow>
                    (case decide call subject (jsKind e) of
                       Inl _ \<Rightarrow> Inl StandingUnavailable
                     | Inr word \<Rightarrow> if sgEnded sg then Inl StandingUnavailable else Inr word))))"

definition failRefused :: "string \<Rightarrow> Record \<Rightarrow> Record res" where
  "failRefused word r = Inr (r\<lparr>rState := StateFailed, rError := standingErrorPrefix @ word\<rparr>)"

section \<open>The store an executor receives\<close>

text \<open>The terminal write in place of what the executor asked for: at \<open>now1\<close> the guard reads the clock,
  at \<open>now2\<close> the write.\<close>

definition refuse_now ::
    "(event \<Rightarrow> 's \<Rightarrow> 's \<times> Record res) \<Rightarrow> string \<Rightarrow> int \<Rightarrow> string \<Rightarrow> time \<Rightarrow> time \<Rightarrow> 's \<Rightarrow> 's \<times> (standing_err + Record)" where
  "refuse_now run i epoch word now1 now2 s =
     (case run (EUpdate i epoch (failRefused word) now1 now2) s of
        (s, Inl e) \<Rightarrow> (s, Inl (StoreErr e))
      | (s, Inr _) \<Rightarrow> (s, Inl (StandingRefused word)))"

definition as_is :: "'s \<times> Record res \<Rightarrow> 's \<times> (standing_err + Record)" where
  "as_is x = (case x of (s, Inl e) \<Rightarrow> (s, Inl (StoreErr e)) | (s, Inr q) \<Rightarrow> (s, Inr q))"

definition standing_Claim ::
    "(event \<Rightarrow> 's \<Rightarrow> 's \<times> Record res) \<Rightarrow> standing \<Rightarrow> event list \<Rightarrow> time \<Rightarrow> time \<Rightarrow> string \<Rightarrow> string \<Rightarrow> duration \<Rightarrow> time
      \<Rightarrow> 's \<Rightarrow> 's \<times> (standing_err + Record)" where
  "standing_Claim run sg gap now1 now2 i owner ttl now s =
     (case standingOf sg ''claim'' i of
        Inl e \<Rightarrow> (s, Inl e)
      | Inr word \<Rightarrow>
          if word = [] then as_is (run (EClaim i owner ttl now) s)
          else (case run (EClaim i owner ttl now) s of
             (s, Inl e) \<Rightarrow> (s, Inl (StoreErr e))
           | (s, Inr got) \<Rightarrow> refuse_now run i (lEpoch (rLease got)) word now1 now2 (run_all run gap s)))"

text \<open>A renewal that cannot be decided is an update that changes nothing: it applies the checks and
  leaves the lease where it is.\<close>

definition standing_Renew ::
    "(event \<Rightarrow> 's \<Rightarrow> 's \<times> Record res) \<Rightarrow> standing \<Rightarrow> string \<Rightarrow> int \<Rightarrow> duration \<Rightarrow> time \<Rightarrow> time
      \<Rightarrow> 's \<Rightarrow> 's \<times> (standing_err + Record)" where
  "standing_Renew run sg i epoch ttl now1 now2 s =
     (case standingOf sg ''renew'' i of
        Inl _ \<Rightarrow> as_is (run (EUpdate i epoch (\<lambda>r. Inr r) now1 now2) s)
      | Inr word \<Rightarrow>
          if word \<noteq> [] then refuse_now run i epoch word now1 now2 s
          else as_is (run (ERenew i epoch ttl now1 now2) s))"

definition standing_Update ::
    "(event \<Rightarrow> 's \<Rightarrow> 's \<times> Record res) \<Rightarrow> standing \<Rightarrow> string \<Rightarrow> int \<Rightarrow> (Record \<Rightarrow> Record res) \<Rightarrow> time \<Rightarrow> time
      \<Rightarrow> 's \<Rightarrow> 's \<times> (standing_err + Record)" where
  "standing_Update run sg i epoch mutate now1 now2 s =
     (case standingOf sg ''progress'' i of
        Inl _ \<Rightarrow> as_is (run (EUpdate i epoch mutate now1 now2) s)
      | Inr word \<Rightarrow>
          if word \<noteq> [] then refuse_now run i epoch word now1 now2 s
          else as_is (run (EUpdate i epoch mutate now1 now2) s))"

text \<open>\<open>executorStore\<close>: with no decision configured the executor gets the store itself; the operations
  the wrapper does not name go to the store.\<close>

definition standing_run ::
    "(event \<Rightarrow> 's \<Rightarrow> 's \<times> Record res) \<Rightarrow> standing \<Rightarrow> event list \<Rightarrow> time \<Rightarrow> time \<Rightarrow> event \<Rightarrow> 's \<Rightarrow> 's \<times> (standing_err + Record)" where
  "standing_run run sg gap t1 t2 e s =
     (if sgDecide sg = None then as_is (run e s)
      else case e of
        EClaim i owner ttl now \<Rightarrow> standing_Claim run sg gap t1 t2 i owner ttl now s
      | ERenew i epoch ttl now1 now2 \<Rightarrow> standing_Renew run sg i epoch ttl now1 now2 s
      | EUpdate i epoch mutate now1 now2 \<Rightarrow> standing_Update run sg i epoch mutate now1 now2 s
      | _ \<Rightarrow> as_is (run e s))"

section \<open>The pass over unfinished work\<close>

text \<open>The readings of the clock, whether the context has ended, and what others do in between, for the
  visit of one operation.\<close>

record visit =
  viStop :: bool
  viEnded :: bool
  viNow :: time
  viClaim :: time
  viGuard :: time
  viWrite :: time
  viIntent :: time
  viGap1 :: "event list"
  viGap2 :: "event list"
  viGap3 :: "event list"
  viGap4 :: "event list"

definition minute :: duration where
  "minute = 60 * 1000000000"

text \<open>\<open>endRefused\<close>; the second result is what goes to the error reporter.\<close>

definition endRefused ::
    "(event \<Rightarrow> 's \<Rightarrow> 's \<times> Record res) \<Rightarrow> visit \<Rightarrow> Record \<Rightarrow> string \<Rightarrow> 's \<Rightarrow> 's \<times> err option" where
  "endRefused run v r word s =
     (let ask_stop = (\<lambda>s. case run (ESetIntent (rID r) WantCancel standingOwner (viIntent v)) (run_all run (viGap4 v) s) of
            (s, Inl e) \<Rightarrow> (s, Some e)
          | (s, Inr _) \<Rightarrow> (s, None))
      in if \<not> Terminal (rState r) \<and> \<not> Held (rLease r) (viNow v) then
           (case run (EClaim (rID r) standingOwner minute (viClaim v)) (run_all run (viGap2 v) s) of
              (s, Inl _) \<Rightarrow> ask_stop s
            | (s, Inr got) \<Rightarrow>
                (case run (EUpdate (rID r) (lEpoch (rLease got)) (failRefused word) (viGuard v) (viWrite v))
                        (run_all run (viGap3 v) s) of
                   (s, Inl _) \<Rightarrow> ask_stop s
                 | (s, Inr _) \<Rightarrow> (s, None)))
         else ask_stop s)"

text \<open>\<open>order\<close> is the order in which the map of subjects is ranged over; \<open>gone\<close> are the operations
  already seen to have ended.\<close>

fun Recheck_loop ::
    "('s \<Rightarrow> string \<Rightarrow> Record res) \<Rightarrow> (event \<Rightarrow> 's \<Rightarrow> 's \<times> Record res) \<Rightarrow> standing \<Rightarrow> (string \<Rightarrow> visit) \<Rightarrow> string list
      \<Rightarrow> string list \<Rightarrow> 's \<Rightarrow> 's \<times> string list" where
  "Recheck_loop load run sg plan [] gone s = (s, gone)"
| "Recheck_loop load run sg plan (i # order) gone s =
     (let v = plan i in
      if viStop v then (s, gone)
      else if contains gone i then Recheck_loop load run sg plan order gone s
      else
        let s = run_all run (viGap1 v) s in
        case load s i of
          Inl _ \<Rightarrow> Recheck_loop load run sg plan order gone s
        | Inr r \<Rightarrow>
            if Terminal (rState r) then Recheck_loop load run sg plan order (i # gone) s
            else (case standingOf (sg\<lparr>sgEnded := viEnded v\<rparr>) ''recheck'' i of
                Inl _ \<Rightarrow> Recheck_loop load run sg plan order gone s
              | Inr word \<Rightarrow>
                  if word = [] then Recheck_loop load run sg plan order gone s
                  else Recheck_loop load run sg plan order gone (fst (endRefused run v r word s))))"

definition has_subject :: "journalSubject gomap \<Rightarrow> string \<Rightarrow> bool" where
  "has_subject subjects i \<longleftrightarrow> (case map_of subjects i of None \<Rightarrow> False | Some e \<Rightarrow> jsSubject e \<noteq> None)"

definition Recheck ::
    "('s \<Rightarrow> string \<Rightarrow> Record res) \<Rightarrow> (event \<Rightarrow> 's \<Rightarrow> 's \<times> Record res) \<Rightarrow> standing \<Rightarrow> (string \<Rightarrow> visit) \<Rightarrow> string list
      \<Rightarrow> string list \<Rightarrow> 's \<Rightarrow> 's \<times> string list" where
  "Recheck load run sg plan order gone s =
     (if sgDecide sg = None then (s, gone)
      else Recheck_loop load run sg plan (filter (has_subject (sgSubjects sg)) order) gone s)"

section \<open>One pass at a time\<close>

text \<open>\<open>RecheckSoon\<close> and \<open>StopRechecks\<close> as a transition system.  The goroutine, if there is one, is
  about to start a pass, in a pass, or after a pass and before the lock it takes then.  \<open>rsOwed\<close>
  records, for the proofs only, that a call has asked for a pass none has started since.\<close>

datatype worker = Absent | Ready | Passing | Passed

record recheck_soon =
  rsRunning :: bool
  rsAgain :: bool
  rsStopped :: bool
  rsPasses :: int
  rsWorker :: worker
  rsDone :: bool
  rsOwed :: bool

definition RecheckSoon :: "recheck_soon \<Rightarrow> recheck_soon" where
  "RecheckSoon s =
     (if rsStopped s then s
      else if rsRunning s then s\<lparr>rsAgain := True, rsOwed := True\<rparr>
      else s\<lparr>rsRunning := True, rsPasses := rsPasses s + 1, rsWorker := Ready, rsOwed := True\<rparr>)"

text \<open>What the goroutine does after a pass, under the lock.\<close>

definition after_pass :: "recheck_soon \<Rightarrow> recheck_soon" where
  "after_pass s =
     (if \<not> rsAgain s \<or> rsDone s
      then s\<lparr>rsRunning := False, rsAgain := False, rsWorker := Absent, rsPasses := rsPasses s - 1\<rparr>
      else s\<lparr>rsAgain := False, rsWorker := Ready\<rparr>)"

inductive soon_step :: "recheck_soon \<Rightarrow> recheck_soon \<Rightarrow> bool" where
  call: "soon_step s (RecheckSoon s)"
| begin': "rsWorker s = Ready \<Longrightarrow> soon_step s (s\<lparr>rsWorker := Passing, rsOwed := False\<rparr>)"
| finish: "rsWorker s = Passing \<Longrightarrow> soon_step s (s\<lparr>rsWorker := Passed\<rparr>)"
| settle: "rsWorker s = Passed \<Longrightarrow> soon_step s (after_pass s)"
| cancelled: "soon_step s (s\<lparr>rsDone := True\<rparr>)"
| stop: "soon_step s (s\<lparr>rsStopped := True\<rparr>)"

inductive_cases soon_stepE: "soon_step s t"

definition soon0 :: recheck_soon where
  "soon0 = \<lparr>rsRunning = False, rsAgain = False, rsStopped = False, rsPasses = 0, rsWorker = Absent, rsDone = False, rsOwed = False\<rparr>"

end
