(* ===== verification/StandingSafety.thy ===== *)
theory StandingSafety
  imports Standing
begin

text \<open>
  What deciding again promises: an executor gets no record, no lease and no write of work whose
  rule refuses it; a pass leaves no such work without an end or a wish to end; and no call for a
  pass is lost.
\<close>

section \<open>The wrapper is a run of the store\<close>

text \<open>Every operation of the wrapper acts on the store by the operations of the contract, so the
  protocol proved for the store (fencing, exclusion, what is finished) holds through it.\<close>

lemma run_all_append: "run_all run (es @ fs) s = run_all run fs (run_all run es s)"
  by (induction es arbitrary: s) simp_all

lemma as_is_fst [simp]: "fst (as_is x) = fst x"
  by (auto simp: as_is_def split: prod.splits sum.splits)

lemma failRefused_good [simp]: "proper (EUpdate i epoch (failRefused word) t1 t2)" "tame (EUpdate i epoch (failRefused word) t1 t2)"
  by (auto simp: proper_def tame_def failRefused_def)

lemma same_good [simp]: "proper (EUpdate i epoch (\<lambda>r. Inr r) t1 t2)" "tame (EUpdate i epoch (\<lambda>r. Inr r) t1 t2)"
  by (auto simp: proper_def tame_def)

lemma refuse_now_fst: "fst (refuse_now run i epoch word t1 t2 s) = fst (run (EUpdate i epoch (failRefused word) t1 t2) s)"
  by (auto simp: refuse_now_def split: prod.splits sum.splits)

definition acts_by :: "(event \<Rightarrow> 's \<Rightarrow> 's \<times> Record res) \<Rightarrow> nat \<Rightarrow> 's \<Rightarrow> 's \<Rightarrow> bool" where
  "acts_by run n s s' \<longleftrightarrow> (\<exists>es. s' = run_all run es s \<and> list_all proper es \<and> list_all tame es \<and> claims es \<le> n)"

lemma acts_by_nothing: "acts_by run n s s"
  unfolding acts_by_def by (rule exI [of _ "[]"]) simp

lemma acts_by_one: "proper e \<Longrightarrow> tame e \<Longrightarrow> (is_claim e \<Longrightarrow> 0 < n) \<Longrightarrow> acts_by run n s (fst (run e s))"
  unfolding acts_by_def by (rule exI [of _ "[e]"]) auto

lemma not_claims [simp]: "\<not> is_claim (EUpdate i epoch mutate t1 t2)" "\<not> is_claim (ERenew i epoch ttl t1 t2)" "is_claim (EClaim i owner ttl t)"
  by (simp_all add: is_claim_def)

section \<open>Failing a record for a refused rule\<close>

definition refused_record :: "string \<Rightarrow> time \<Rightarrow> Record \<Rightarrow> Record" where
  "refused_record word now r = describe (r\<lparr>rState := StateFailed, rError := standingErrorPrefix @ word, rUpdatedAt := At now\<rparr>)"

lemma refused_record_fields [simp]:
  "rState (refused_record word now r) = StateFailed" "rError (refused_record word now r) = standingErrorPrefix @ word"
  "rLease (refused_record word now r) = rLease r" "rIntent (refused_record word now r) = rIntent r"
  by (simp_all add: refused_record_def describe_keeps)

lemma standingFailure_refused [simp]: "standingFailure (refused_record word now r) = Some word"
  by (simp add: standingFailure_def)

lemma run_refuse:
  assumes "mem_ok m" "map_of m i = Some r"
  shows "mem_run (EUpdate i epoch (failRefused word) now1 now2) m =
    (case write_refusal epoch now1 r of
       Some x \<Rightarrow> (m, Inl x)
     | None \<Rightarrow> (gomap_put i (refused_record word now2 r) m, Inr (refused_record word now2 r)))"
proof -
  have "unmoved (immutablesOf r) (r\<lparr>rState := StateFailed, rError := e\<rparr>) = Inr ()" for e
    by (simp add: unmoved_iff same_work_def)
  moreover have "Validate (refused_record word now2 r) = Inr ()"
    unfolding refused_record_def using assms Validate_fields [of r]
    by (intro valid_describe [of r]) (auto simp: mem_ok_def ValidState_def)
  ultimately show ?thesis
    using assms(2)
    by (auto simp: write_refusal_def mem_run_def mem_Update_def on_record_def mem_update_edit_def failRefused_def
        refused_record_def res_simps)
qed

lemma refuse_now_mem:
  assumes "mem_ok m" "map_of m i = Some r"
  shows "refuse_now mem_run i epoch word now1 now2 m =
    (case write_refusal epoch now1 r of
       Some x \<Rightarrow> (m, Inl (StoreErr x))
     | None \<Rightarrow> (gomap_put i (refused_record word now2 r) m, Inl (StandingRefused word)))"
  by (simp add: refuse_now_def run_refuse [OF assms] split: option.split)


section \<open>The promises of the wrapper\<close>

lemma standing_Claim_acts:
  assumes "proper (EClaim i owner ttl now)" "list_all proper gap" "list_all tame gap"
  shows "acts_by run (Suc (claims gap)) s (fst (standing_Claim run sg gap t1 t2 i owner ttl now s))"
proof -
  let ?e = "EClaim i owner ttl now"
  have e: "tame ?e" by (simp add: tame_def)
  have one: "acts_by run (Suc (claims gap)) s (fst (run ?e s))" by (rule acts_by_one [OF assms(1) e]) simp
  consider "fst (standing_Claim run sg gap t1 t2 i owner ttl now s) \<in> {s, fst (run ?e s)}"
    | word and q :: Record where "fst (standing_Claim run sg gap t1 t2 i owner ttl now s)
        = fst (run (EUpdate i (lEpoch (rLease q)) (failRefused word) t1 t2) (run_all run gap (fst (run ?e s))))"
  proof (cases "standingOf sg ''claim'' i"; cases "snd (run ?e s)")
    fix word q assume "standingOf sg ''claim'' i = Inr word" "snd (run ?e s) = Inr q"
    then show ?thesis
      using that(1) that(2) [of q word]
      by (cases "run ?e s"; cases "word = []") (simp_all add: standing_Claim_def refuse_now_fst)
  next
    fix word x assume "standingOf sg ''claim'' i = Inr word" "snd (run ?e s) = Inl x"
    with that(1) show ?thesis
      by (cases "run ?e s"; cases "word = []") (auto simp: standing_Claim_def)
  qed (use that(1) in \<open>auto simp: standing_Claim_def\<close>)
  then show ?thesis
  proof cases
    case 1
    with one show ?thesis by (auto intro: acts_by_nothing)
  next
    case (2 word q)
    let ?es = "?e # gap @ [EUpdate i (lEpoch (rLease q)) (failRefused word) t1 t2]"
    have "claims ?es = Suc (claims gap)" by (simp add: claims_def)
    then show ?thesis unfolding acts_by_def using 2 assms e
      by (intro exI [of _ ?es]) (simp add: run_all_append)
  qed
qed

lemma standing_run_acts:
  assumes "proper e" "tame e" "list_all proper gap" "list_all tame gap"
  shows "acts_by run (Suc (claims gap)) s (fst (standing_run run sg gap t1 t2 e s))"
proof -
  have one: "acts_by run (Suc (claims gap)) s (fst (run f s))" if "proper f" "tame f" for f
    by (rule acts_by_one [OF that]) simp
  have some: "acts_by run (Suc (claims gap)) s (fst (refuse_now run i epoch word a b s))" for i epoch word a b
    by (simp add: refuse_now_fst one)
  show ?thesis
    using assms one [OF assms(1,2)] standing_Claim_acts [of _ _ _ _ gap run s sg t1 t2] some one
    by (cases e) (simp_all add: standing_run_def standing_Renew_def standing_Update_def split: sum.splits)
qed


lemma refused_after:
  assumes "mem_ok m" "map_of m i = Some r" "refuse_now mem_run i epoch word t1 t2 m = (m', res)"
  shows "\<exists>x. res = Inl x
    \<and> (x = StandingRefused word \<longrightarrow> (\<exists>q. map_of m' i = Some q \<and> rState q = StateFailed \<and> standingFailure q = Some word))
    \<and> (write_refusal epoch t1 r = None \<longrightarrow> x = StandingRefused word)"
  using assms(3) unfolding refuse_now_mem [OF assms(1,2)]
  by (auto simp: map_of_gomap_put split: option.splits)

lemma touched_valid: "Validate r = Inr () \<Longrightarrow> Validate (describe (r\<lparr>rUpdatedAt := t\<rparr>)) = Inr ()"
  using Validate_fields [of r] by (intro valid_describe [of r]) auto

lemma run_same:
  assumes "mem_ok m" "map_of m i = Some r"
  shows "mem_run (EUpdate i epoch (\<lambda>r. Inr r) now1 now2) m =
    (case write_refusal epoch now1 r of
       Some x \<Rightarrow> (m, Inl x)
     | None \<Rightarrow> (gomap_put i (describe (r\<lparr>rUpdatedAt := At now2\<rparr>)) m, Inr (describe (r\<lparr>rUpdatedAt := At now2\<rparr>))))"
proof -
  have "unmoved (immutablesOf r) r = Inr ()" by (simp add: unmoved_iff same_work_def)
  moreover have "Validate (describe (r\<lparr>rUpdatedAt := At now2\<rparr>)) = Inr ()"
    using assms by (auto simp: mem_ok_def intro: touched_valid)
  ultimately show ?thesis
    using assms(2) by (auto simp: write_refusal_def mem_run_def mem_Update_def on_record_def mem_update_edit_def res_simps)
qed

text \<open>C19: Once the rule refuses, no claim, renewal or progress write of the executor succeeds: an
  executor in good standing is told so by an error it must read as a stale epoch, and the record
  is failed with the refusal in place of what it meant to write; any other is answered as the
  store would and changes nothing.  A claim refused so was made only to fail the work.\<close>

theorem standing_refuses:
  assumes "mem_ok m" "map_of m i = Some r" "list_all proper gap" "\<not> blank owner" "word \<noteq> []"
    and "\<And>call. standingOf sg call i = Inr word"
  shows "(\<exists>m' x. standing_Claim mem_run sg gap t1 t2 i owner ttl now m = (m', Inl x)
      \<and> (x = StandingRefused word \<longrightarrow> is_stale x
           \<and> (\<exists>q. map_of m' i = Some q \<and> rState q = StateFailed \<and> standingFailure q = Some word))
      \<and> (gap = [] \<longrightarrow> \<not> Terminal (rState r) \<longrightarrow> \<not> taken (rLease r) owner now \<longrightarrow> t1 < At (now + ttl) \<longrightarrow> x = StandingRefused word))
    \<and> standing_Renew mem_run sg i epoch ttl now1 now2 m = standing_Update mem_run sg i epoch mutate now1 now2 m
    \<and> standing_Update mem_run sg i epoch mutate now1 now2 m =
        (case write_refusal epoch now1 r of
           Some x \<Rightarrow> (m, Inl (StoreErr x))
         | None \<Rightarrow> (gomap_put i (refused_record word now2 r) m, Inl (StandingRefused word)))"
proof -
  let ?e = "EClaim i owner ttl now"
  have e: "proper ?e" using assms(4) by (simp add: proper_def)
  obtain m1 res where 1: "mem_run ?e m = (m1, res)" by fastforce
  have ok1: "mem_ok m1" by (rule mem_ok_run [OF assms(1) e 1])
  have claim: "\<exists>m' x. standing_Claim mem_run sg gap t1 t2 i owner ttl now m = (m', Inl x)
      \<and> (x = StandingRefused word \<longrightarrow> is_stale x
           \<and> (\<exists>q. map_of m' i = Some q \<and> rState q = StateFailed \<and> standingFailure q = Some word))
      \<and> (gap = [] \<longrightarrow> \<not> Terminal (rState r) \<longrightarrow> \<not> taken (rLease r) owner now \<longrightarrow> t1 < At (now + ttl) \<longrightarrow> x = StandingRefused word)"
  proof (cases res)
    case (Inl x)
    then show ?thesis
      using 1 assms(5,6) run_claim [OF assms(2), of owner ttl now] by (auto simp: standing_Claim_def)
  next
    case (Inr q)
    have l1: "map_of m1 i = Some q" using mem.run_Inr [OF assms(1) e] 1 Inr by auto
    obtain q2 where 2: "mem_ok (run_all mem_run gap m1)" "map_of (run_all mem_run gap m1) i = Some q2"
      using run_all_keeps [OF ok1 assms(3) l1] by blast
    obtain m' res' where 3: "refuse_now mem_run i (lEpoch (rLease q)) word t1 t2 (run_all mem_run gap m1) = (m', res')" by fastforce
    have "write_refusal (lEpoch (rLease q)) t1 q2 = None"
      if "gap = []" "\<not> Terminal (rState r)" "\<not> taken (rLease r) owner now" "t1 < At (now + ttl)"
    proof -
      have "q = taken_over owner ttl now r"
        using run_claim [OF assms(2) that(2), of owner ttl now] 1 Inr that(3) by simp
      moreover have "q2 = q" using 2(2) l1 that(1) by simp
      ultimately show ?thesis
        using that assms(4) claimed_not_terminal [OF that(2)]
        by (auto simp: write_refusal_def claimed_lease_def Held_def blank_def TrimSpace_def)
    qed
    then show ?thesis
      using refused_after [OF 2 3] 3 1 Inr assms(5,6) by (auto simp: standing_Claim_def is_stale_def)
  qed
  have "standing_Update mem_run sg i epoch mutate now1 now2 m = refuse_now mem_run i epoch word now1 now2 m"
    "standing_Renew mem_run sg i epoch ttl now1 now2 m = refuse_now mem_run i epoch word now1 now2 m"
    using assms(5,6) by (simp_all add: standing_Update_def standing_Renew_def)
  then show ?thesis using claim refuse_now_mem [OF assms(1,2)] by simp
qed

text \<open>While no decision can be obtained a claim claims nothing, and a renewal applies the store's checks
  but answers the record with its lease where it was, so it lapses at its expiry.\<close>

lemma standing_undecided:
  assumes "mem_ok m" "map_of m i = Some r" "\<And>call. standingOf sg call i = Inl x"
  shows "standing_Claim mem_run sg gap t1 t2 i owner ttl now m = (m, Inl x)
    \<and> (\<exists>q. rLease q = rLease r \<and> body q = body r \<and> standing_Renew mem_run sg i epoch ttl now1 now2 m =
        (case write_refusal epoch now1 r of Some y \<Rightarrow> (m, Inl (StoreErr y)) | None \<Rightarrow> (gomap_put i q m, Inr q)))"
proof -
  let ?q = "describe (r\<lparr>rUpdatedAt := At now2\<rparr>)"
  have "rLease ?q = rLease r" "body ?q = body r" by (simp_all add: describe_keeps) (simp add: body_def)
  moreover have "standing_Renew mem_run sg i epoch ttl now1 now2 m =
      (case write_refusal epoch now1 r of Some y \<Rightarrow> (m, Inl (StoreErr y)) | None \<Rightarrow> (gomap_put i ?q m, Inr ?q))"
    by (simp add: standing_Renew_def assms(3) run_same [OF assms(1,2)] as_is_def split: option.split)
  ultimately show ?thesis by (auto simp: standing_Claim_def assms(3))
qed

section \<open>The promises of the pass\<close>

lemma standingOwner_ok [simp]: "\<not> blank standingOwner"
  by (simp add: standingOwner_def blank_def TrimSpace_def IsSpace_def byte_def)

lemma other_same: "mem_ok m \<Longrightarrow> proper e \<Longrightarrow> target e \<noteq> j \<Longrightarrow> mem_run e m = (m', res) \<Longrightarrow> map_of m' j = map_of m j"
  using mem.run_Inl [of m e m'] mem.run_Inr [of m e m'] by (cases res) fastforce+

definition ended_or_asked :: "Record \<Rightarrow> bool" where
  "ended_or_asked q \<longleftrightarrow> Terminal (rState q) \<or> Wants q = WantCancel"

lemma ask_stop:
  assumes "mem_ok m" "map_of m i = Some r" "mem_run (ESetIntent i WantCancel standingOwner now) m = (m', res)"
  shows "\<exists>q. map_of m' i = Some q \<and> ended_or_asked q \<and> (\<forall>x. res = Inl x \<longrightarrow> x = ErrTerminal)"
proof (cases "Terminal (rState r)")
  case True
  then have "mem_run (ESetIntent i WantCancel standingOwner now) m = (m, Inl ErrTerminal)"
    using assms(2) by (simp add: mem_run_def mem_SetIntent_def on_record_def mem_intent_edit_def ValidWant_def)
  with assms(3) have "m' = m" "res = Inl ErrTerminal" by simp_all
  with True assms(2) show ?thesis by (simp add: ended_or_asked_def)
next
  case False
  with run_intent [OF assms(2) False, of WantCancel standingOwner now] assms(3) show ?thesis
    by (auto simp: ValidWant_def map_of_gomap_put ended_or_asked_def Wants_def)
qed

text \<open>Ending one operation, with anything others do in between.\<close>

lemma endRefused_ends:
  assumes "mem_ok m" "map_of m (rID r) = Some r0" "endRefused mem_run v r word m = (m', report)"
    and "list_all proper (viGap2 v)" "list_all proper (viGap3 v)" "list_all proper (viGap4 v)"
  shows "mem_ok m' \<and> (\<exists>q. map_of m' (rID r) = Some q \<and> ended_or_asked q) \<and> (\<forall>x. report = Some x \<longrightarrow> x = ErrTerminal)
    \<and> (viGap2 v = [] \<longrightarrow> viGap3 v = [] \<longrightarrow> viGap4 v = [] \<longrightarrow> (\<forall>j. j \<noteq> rID r \<longrightarrow> map_of m' j = map_of m j))"
proof -
  let ?i = "rID r"
  let ?stop = "\<lambda>s. case mem_run (ESetIntent ?i WantCancel standingOwner (viIntent v)) (run_all mem_run (viGap4 v) s) of
      (s, Inl e) \<Rightarrow> (s, Some e) | (s, Inr _) \<Rightarrow> (s, None)"
  let ?good = "\<lambda>s m' report. mem_ok m' \<and> (\<exists>q. map_of m' ?i = Some q \<and> ended_or_asked q) \<and> (\<forall>x. report = Some x \<longrightarrow> x = ErrTerminal)
    \<and> (viGap4 v = [] \<longrightarrow> (\<forall>j. j \<noteq> ?i \<longrightarrow> map_of m' j = map_of s j))"
  have stop: "?good s m' report" if s: "mem_ok s" "map_of s ?i = Some q" "?stop s = (m', report)" for s q m' report
  proof -
    obtain q2 where 2: "mem_ok (run_all mem_run (viGap4 v) s)" "map_of (run_all mem_run (viGap4 v) s) ?i = Some q2"
      using run_all_keeps [OF s(1) assms(6) s(2)] by blast
    obtain n res where 3: "mem_run (ESetIntent ?i WantCancel standingOwner (viIntent v)) (run_all mem_run (viGap4 v) s) = (n, res)"
      by fastforce
    have p: "proper (ESetIntent ?i WantCancel standingOwner (viIntent v))" by (simp add: proper_def)
    have "m' = n" "\<forall>x. report = Some x \<longrightarrow> res = Inl x" using s(3) 3 by (auto split: sum.splits)
    with ask_stop [OF 2 3] mem_ok_run [OF 2(1) p 3] other_same [OF 2(1) p _ 3] show ?thesis by auto
  qed
  show ?thesis
  proof (cases "\<not> Terminal (rState r) \<and> \<not> Held (rLease r) (viNow v)")
    case False
    have "?stop m = (m', report)" using assms(3) unfolding endRefused_def Let_def if_not_P [OF False] .
    from stop [OF assms(1,2) this] show ?thesis by simp
  next
    case True
    let ?e = "EClaim ?i standingOwner minute (viClaim v)"
    have pe: "proper ?e" by (simp add: proper_def)
    obtain q1 where 1: "mem_ok (run_all mem_run (viGap2 v) m)" "map_of (run_all mem_run (viGap2 v) m) ?i = Some q1"
      using run_all_keeps [OF assms(1,4,2)] by blast
    obtain m1 res1 where c: "mem_run ?e (run_all mem_run (viGap2 v) m) = (m1, res1)" by fastforce
    have ok1: "mem_ok m1" by (rule mem_ok_run [OF 1(1) pe c])
    have keep1: "viGap2 v = [] \<longrightarrow> (\<forall>j. j \<noteq> ?i \<longrightarrow> map_of m1 j = map_of m j)"
      using other_same [OF 1(1) pe _ c] by auto
    show ?thesis
    proof (cases res1)
      case (Inl x)
      have "map_of m1 ?i = Some q1" using mem.run_Inl [OF 1(1) pe] c Inl 1(2) by simp
      moreover have "?stop m1 = (m', report)" using assms(3) True c Inl by (simp add: endRefused_def)
      ultimately have "?good m1 m' report" by (rule stop [OF ok1])
      with keep1 show ?thesis by (metis (lifting))
    next
      case (Inr q)
      have "map_of m1 ?i = Some q" using mem.run_Inr [OF 1(1) pe] c Inr by auto
      then obtain q2 where 2: "mem_ok (run_all mem_run (viGap3 v) m1)" "map_of (run_all mem_run (viGap3 v) m1) ?i = Some q2"
        using run_all_keeps [OF ok1 assms(5)] by blast
      let ?u = "EUpdate ?i (lEpoch (rLease q)) (failRefused word) (viGuard v) (viWrite v)"
      obtain m2 res2 where u: "mem_run ?u (run_all mem_run (viGap3 v) m1) = (m2, res2)" by fastforce
      have ok2: "mem_ok m2" by (rule mem_ok_run [OF 2(1) failRefused_good(1) u])
      have keep2: "viGap2 v = [] \<longrightarrow> viGap3 v = [] \<longrightarrow> (\<forall>j. j \<noteq> ?i \<longrightarrow> map_of m2 j = map_of m j)"
        using other_same [OF 2(1) failRefused_good(1) _ u] keep1 by auto
      show ?thesis
      proof (cases res2)
        case (Inl x)
        have "map_of m2 ?i = Some q2" using mem.run_Inl [OF 2(1) failRefused_good(1)] u Inl 2(2) by simp
        moreover have "?stop m2 = (m', report)" using assms(3) True c \<open>res1 = Inr q\<close> u Inl by (simp add: endRefused_def)
        ultimately have "?good m2 m' report" by (rule stop [OF ok2])
        with keep2 show ?thesis by (metis (lifting))
      next
        case w: (Inr w)
        have "map_of m2 ?i = Some (refused_record word (viWrite v) q2)"
          using run_refuse [OF 2, of "lEpoch (rLease q)" word "viGuard v" "viWrite v"] u w
          by (auto simp: map_of_gomap_put split: option.splits)
        moreover have "m' = m2" "report = None" using assms(3) True c Inr u w by (simp_all add: endRefused_def)
        ultimately show ?thesis using ok2 keep2 by (simp add: ended_or_asked_def Terminal_def)
      qed
    qed
  qed
qed

text \<open>A pass without interruptions.\<close>

definition calm :: "visit \<Rightarrow> bool" where
  "calm v \<longleftrightarrow> \<not> viStop v \<and> viGap1 v = [] \<and> viGap2 v = [] \<and> viGap3 v = [] \<and> viGap4 v = []"

definition refuses :: "standing \<Rightarrow> (string \<Rightarrow> visit) \<Rightarrow> string \<Rightarrow> bool" where
  "refuses sg plan i \<longleftrightarrow> (\<exists>word. standingOf (sg\<lparr>sgEnded := viEnded (plan i)\<rparr>) ''recheck'' i = Inr word \<and> word \<noteq> [])"

definition rechecked :: "bool \<Rightarrow> Record option \<Rightarrow> Record option \<Rightarrow> bool" where
  "rechecked b x y \<longleftrightarrow> (case x of
     None \<Rightarrow> y = None
   | Some r \<Rightarrow> if b \<and> \<not> Terminal (rState r) then (\<exists>q. y = Some q \<and> ended_or_asked q) else y = Some r)"

lemma rechecked_same [simp]: "rechecked False x x" "rechecked b None None"
  by (auto simp: rechecked_def split: option.split)

lemma Recheck_loop_ends:
  assumes "\<And>i. calm (plan i)" "mem_ok m" "distinct order" "\<forall>i \<in> set gone. \<exists>r. map_of m i = Some r \<and> Terminal (rState r)"
    and "Recheck_loop mem_look mem_run sg plan order gone m = (m', gone')"
  shows "mem_ok m' \<and> (\<forall>i. rechecked (i \<in> set order \<and> refuses sg plan i) (map_of m i) (map_of m' i))"
  using assms(2-)
proof (induction order arbitrary: m gone)
  case Nil
  then show ?case by simp
next
  case (Cons i order)
  note ok = Cons.prems(1) and calm = assms(1) [of i, unfolded calm_def]
  have fine: "mem_ok m' \<and> (\<forall>j. rechecked (j \<in> set (i # order) \<and> refuses sg plan j) (map_of m j) (map_of m' j))"
    if loop: "Recheck_loop mem_look mem_run sg plan order gone2 m2 = (m', gone')" and m2: "mem_ok m2"
      and g: "\<forall>i \<in> set gone2. \<exists>r. map_of m2 i = Some r \<and> Terminal (rState r)"
      and other: "\<And>j. j \<noteq> i \<Longrightarrow> map_of m2 j = map_of m j" and here: "rechecked (refuses sg plan i) (map_of m i) (map_of m2 i)"
    for m2 gone2
  proof -
    have IH: "mem_ok m' \<and> (\<forall>j. rechecked (j \<in> set order \<and> refuses sg plan j) (map_of m2 j) (map_of m' j))"
      using Cons.IH [OF m2 _ g loop] Cons.prems(2) by simp
    have "i \<notin> set order" using Cons.prems(2) by simp
    with IH have "map_of m' i = map_of m2 i"
      by (auto simp: rechecked_def dest: spec [of _ i] split: option.splits)
    with IH here have "rechecked (refuses sg plan i) (map_of m i) (map_of m' i)" by simp
    moreover have "rechecked (j \<in> set order \<and> refuses sg plan j) (map_of m j) (map_of m' j)" if "j \<noteq> i" for j
      using IH other [OF that] by metis
    ultimately have "rechecked (j \<in> set (i # order) \<and> refuses sg plan j) (map_of m j) (map_of m' j)" for j
      by (cases "j = i") simp_all
    with IH show ?thesis by blast
  qed
  show ?case
  proof (cases "map_of m i")
    case None
    then have "i \<notin> set gone" using Cons.prems(3) by auto
    then have "Recheck_loop mem_look mem_run sg plan order gone m = (m', gone')"
      using Cons.prems(4) None calm by (simp add: mem_Load_def)
    from fine [OF this ok Cons.prems(3)] None show ?thesis by simp
  next
    case (Some r)
    have id: "rID r = i" using ok Some by (auto simp: mem_ok_def)
    show ?thesis
    proof (cases "Terminal (rState r) \<or> \<not> refuses sg plan i")
      case True
      then obtain gone2 where loop: "Recheck_loop mem_look mem_run sg plan order gone2 m = (m', gone')"
        and g: "gone2 = gone \<or> (gone2 = i # gone \<and> Terminal (rState r))"
        using Cons.prems(4) Some calm
        by (auto simp: mem_look_Some refuses_def Let_def split: if_splits sum.splits)
      have "rechecked (refuses sg plan i) (map_of m i) (map_of m i)"
        using True Some by (auto simp: rechecked_def)
      with g Some fine [OF loop ok] Cons.prems(3) show ?thesis by auto
    next
      case False
      then obtain word where word: "standingOf (sg\<lparr>sgEnded := viEnded (plan i)\<rparr>) ''recheck'' i = Inr word" "word \<noteq> []"
        and open': "\<not> Terminal (rState r)"
        by (auto simp: refuses_def)
      have ng: "i \<notin> set gone" using Cons.prems(3) Some open' by auto
      obtain m2 report where e: "endRefused mem_run (plan i) r word m = (m2, report)" by fastforce
      have E: "mem_ok m2" "\<exists>q. map_of m2 i = Some q \<and> ended_or_asked q" "\<forall>j. j \<noteq> i \<longrightarrow> map_of m2 j = map_of m j"
        using endRefused_ends [OF ok _ e] Some id calm by auto
      have loop: "Recheck_loop mem_look mem_run sg plan order gone m2 = (m', gone')"
        using Cons.prems(4) Some calm ng open' word e by (simp add: mem_look_Some)
      have g: "\<forall>i \<in> set gone. \<exists>r. map_of m2 i = Some r \<and> Terminal (rState r)"
        using Cons.prems(3) E(3) ng by metis
      have "rechecked (refuses sg plan i) (map_of m i) (map_of m2 i)"
        using E(2) Some open' False by (auto simp: rechecked_def)
      from fine [OF loop E(1) g _ this] E(3) show ?thesis by blast
    qed
  qed
qed


section \<open>No call for a pass is lost\<close>

definition soon_ok :: "recheck_soon \<Rightarrow> bool" where
  "soon_ok s \<longleftrightarrow> (rsRunning s \<longleftrightarrow> rsWorker s \<noteq> Absent) \<and> rsPasses s = (if rsWorker s = Absent then 0 else 1)
     \<and> (rsAgain s \<longrightarrow> rsRunning s) \<and> (rsOwed s \<longrightarrow> rsDone s \<or> rsWorker s = Ready \<or> (rsAgain s \<and> rsRunning s))"

lemma soon_step_ok: "soon_step s t \<Longrightarrow> soon_ok s \<Longrightarrow> soon_ok t"
  by (erule soon_stepE) (auto simp: soon_ok_def RecheckSoon_def after_pass_def split: if_splits)

lemma soon_reachable_ok: "soon_step\<^sup>*\<^sup>* soon0 s \<Longrightarrow> soon_ok s"
proof (induction rule: rtranclp_induct)
  case base
  show ?case by (simp add: soon_ok_def soon0_def)
qed (rule soon_step_ok)

text \<open>The goroutine's own next step.\<close>

definition work_on :: "recheck_soon \<Rightarrow> recheck_soon" where
  "work_on s = (case rsWorker s of
     Absent \<Rightarrow> s
   | Ready \<Rightarrow> s\<lparr>rsWorker := Passing, rsOwed := False\<rparr>
   | Passing \<Rightarrow> s\<lparr>rsWorker := Passed\<rparr>
   | Passed \<Rightarrow> after_pass s)"

lemma stopped_absent: "soon_step s t \<Longrightarrow> rsStopped s \<and> rsWorker s = Absent \<Longrightarrow> rsStopped t \<and> rsWorker t = Absent"
  by (erule soon_stepE) (auto simp: RecheckSoon_def after_pass_def)


section \<open>Concrete cases\<close>

text \<open>A submitter whose rule is gone, and the stored job of theory MemoryLease as its operation.\<close>

definition sg0 :: standing where
  "sg0 = \<lparr>sgDecide = Some (\<lambda>_ _ _. Inr ''rights:gone''),
     sgSubjects = [(''j1'', \<lparr>jsScope = ''s'', jsSubject = Some \<lparr>asKind = ''posix'', asAccount = ''u'', asExecutable = ''/x'', asProgram = ''p''\<rparr>,
        jsOrigin = ''local'', jsEvidence = [], jsPath = ''path'', jsKind = ''download''\<rparr>)],
     sgEnded = False\<rparr>"

definition visit0 :: visit where
  "visit0 = \<lparr>viStop = False, viEnded = False, viNow = 1000, viClaim = 2000, viGuard = 3000, viWrite = 4000, viIntent = 5000,
     viGap1 = [], viGap2 = [], viGap3 = [], viGap4 = []\<rparr>"

lemma sg0_refuses: "standingOf sg0 call ''j1'' = Inr ''rights:gone''"
  by (simp add: standingOf_def sg0_def)

lemma sg0_decides: "sgDecide sg0 \<noteq> None"
  by (simp add: sg0_def)


lemma standing_refuses_witness:
  "\<exists>m' q. standing_Claim mem_run sg0 [] 2000 3000 ''j1'' ''w1'' 5000 1000 m0 = (m', Inl (StandingRefused ''rights:gone''))
     \<and> map_of m' ''j1'' = Some q \<and> standingFailure q = Some ''rights:gone''"
proof -
  have m0: "map_of m0 ''j1'' = Some sample0" by (simp add: m0_eq(1))
  have s: "\<not> Terminal (rState sample0)" "\<not> taken (rLease sample0) ''w1'' 1000"
    by (simp_all add: sample0_fields Terminal_def taken_def Held_def zero_lease_def)
  have c: "(2000 :: time) < At (1000 + 5000)" by (simp add: At_def)
  obtain m' x where "standing_Claim mem_run sg0 [] 2000 3000 ''j1'' ''w1'' 5000 1000 m0 = (m', Inl x)"
    "x = StandingRefused ''rights:gone'' \<longrightarrow> is_stale x
       \<and> (\<exists>q. map_of m' ''j1'' = Some q \<and> rState q = StateFailed \<and> standingFailure q = Some ''rights:gone'')"
    "x = StandingRefused ''rights:gone''"
    using conjunct1 [OF standing_refuses [OF mem_ok_m0 m0 _ not_blank_w(1) _ sg0_refuses, where gap = "[]" and ?t1.0 = 2000 and ?t2.0 = 3000
        and ttl = 5000 and now = 1000 and epoch = 1 and ?now1.0 = 0 and ?now2.0 = 0 and mutate = Inr]] s c by auto
  then show ?thesis by blast
qed



end
