(* ===== verification/TimeText.thy ===== *)
theory TimeText
  imports JsonText
begin

text \<open>
  The text of an instant: the calendar of Go's \<open>time\<close> package as far as \<open>Timestamp\<close> of
  go/record.go uses it.  An instant counts nanoseconds from the zero time, midnight on the first
  of January of the year 1, UTC.  \<open>Format\<close> is \<open>Time.Format\<close> with the one layout the record
  writes; \<open>ParseRFC3339\<close> is \<open>time.Parse(time.RFC3339Nano, s)\<close>, lenient where the library is.
\<close>

section \<open>The calendar\<close>

definition leap :: "int \<Rightarrow> bool" where
  "leap y \<longleftrightarrow> y mod 4 = 0 \<and> (y mod 100 \<noteq> 0 \<or> y mod 400 = 0)"

text \<open>The days of the years 1 to \<open>y - 1\<close>.\<close>

definition days_before :: "int \<Rightarrow> int" where
  "days_before y = (let p = y - 1 in 365 * p + p div 4 - p div 100 + p div 400)"

text \<open>The year of a day and the day within it, by cycles of 400, 100, 4 and 1 years; the last
  day of a cycle would otherwise open a fifth part of it.\<close>

definition year_day :: "int \<Rightarrow> int \<times> int" where
  "year_day d =
     (let a = d div 146097; d = d mod 146097;
          b = min 3 (d div 36524); d = d - 36524 * b;
          c = d div 1461; d = d - 1461 * c;
          e = min 3 (d div 365)
      in (400 * a + 100 * b + 4 * c + e + 1, d - 365 * e))"

definition month_lengths :: "bool \<Rightarrow> int list" where
  "month_lengths lp = [31, if lp then 29 else 28, 31, 30, 31, 30, 31, 31, 30, 31, 30, 31]"

fun month_day :: "int list \<Rightarrow> int \<Rightarrow> int \<Rightarrow> int \<times> int" where
  "month_day [] m yday = (m, yday + 1)"
| "month_day (l # ls) m yday = (if yday < l then (m, yday + 1) else month_day ls (m + 1) (yday - l))"

text \<open>The instant of a date.\<close>

definition days_in :: "int \<Rightarrow> int \<Rightarrow> int" where
  "days_in m y = month_lengths (leap y) ! nat (m - 1)"

definition date_day :: "int \<Rightarrow> int \<Rightarrow> int \<Rightarrow> int" where
  "date_day y m d = days_before y + sum_list (take (nat (m - 1)) (month_lengths (leap y))) + (d - 1)"

section \<open>Writing\<close>

definition pad :: "nat \<Rightarrow> nat \<Rightarrow> string" where
  "pad w n = replicate (w - length (nat_digits n)) (digit 0) @ nat_digits n"

definition pad_int :: "nat \<Rightarrow> int \<Rightarrow> string" where
  "pad_int w n = (if n < 0 then CHR ''-'' # pad w (nat (- n)) else pad w (nat n))"

definition Format :: "time \<Rightarrow> string" where
  "Format t =
     (let s = t div 1000000000; ns = t mod 1000000000; d = s div 86400; sod = s mod 86400;
          (y, yday) = year_day d;
          (m, day) = month_day (month_lengths (leap y)) 1 yday
      in pad_int 4 y @ ''-'' @ pad_int 2 m @ ''-'' @ pad_int 2 day @ ''T''
         @ pad_int 2 (sod div 3600) @ '':'' @ pad_int 2 (sod mod 3600 div 60) @ '':'' @ pad_int 2 (sod mod 60)
         @ ''.'' @ pad_int 6 (ns div 1000) @ ''Z'')"

section \<open>Reading\<close>

text \<open>\<open>getnum\<close>: two digits, or one where the layout does not fix the width.\<close>

definition getnum :: "bool \<Rightarrow> string \<Rightarrow> (int \<times> string) option" where
  "getnum fixed s = (case s of
     [] \<Rightarrow> None
   | c # r \<Rightarrow>
       if \<not> is_digit c then None
       else (case r of
           e # q \<Rightarrow> if is_digit e then Some (int (digits_value [c, e]), q)
                    else if fixed then None else Some (int (digits_value [c]), r)
         | [] \<Rightarrow> if fixed then None else Some (int (digits_value [c]), r)))"

definition skip_char :: "char \<Rightarrow> string \<Rightarrow> string option" where
  "skip_char c s = (if take 1 s = [c] then Some (drop 1 s) else None)"

definition get_year :: "string \<Rightarrow> (int \<times> string) option" where
  "get_year s = (if length s < 4 \<or> \<not> list_all is_digit (take 4 s) then None
     else Some (int (digits_value (take 4 s)), drop 4 s))"

text \<open>A fraction may be absent, follow a comma, and have more digits than nanoseconds need.\<close>

definition get_fraction :: "string \<Rightarrow> int \<times> string" where
  "get_fraction s = (case s of
     c # r \<Rightarrow>
       (let ds = takeWhile is_digit r; ns = take 9 ds in
        if (c = CHR ''.'' \<or> c = CHR '','') \<and> ds \<noteq> []
        then (int (digits_value ns) * 10 ^ (9 - length ns), dropWhile is_digit r)
        else (0, s))
   | [] \<Rightarrow> (0, s))"

text \<open>The offset in seconds, at the end of the text.\<close>

definition get_zone :: "string \<Rightarrow> int option" where
  "get_zone s =
     (if s = ''Z'' then Some 0
      else if length s \<noteq> 6 \<or> s ! 3 \<noteq> CHR '':'' \<or> (s ! 0 \<noteq> CHR ''+'' \<and> s ! 0 \<noteq> CHR ''-'') then None
      else case (getnum True [s ! 1, s ! 2], getnum True [s ! 4, s ! 5]) of
          (Some (h, _), Some (m, _)) \<Rightarrow>
            if h > 24 \<or> m > 60 then None
            else Some ((if s ! 0 = CHR ''-'' then -1 else 1) * (h * 60 + m) * 60)
        | _ \<Rightarrow> None)"

definition opt :: "'a option \<Rightarrow> ('a \<Rightarrow> 'b option) \<Rightarrow> 'b option" where
  "opt = Option.bind"

definition ParseRFC3339 :: "string \<Rightarrow> time option" where
  "ParseRFC3339 s =
     opt (get_year s) (\<lambda>(y, s).
     opt (skip_char CHR ''-'' s) (\<lambda>s.
     opt (getnum True s) (\<lambda>(m, s). if m \<le> 0 \<or> 12 < m then None else
     opt (skip_char CHR ''-'' s) (\<lambda>s.
     opt (getnum True s) (\<lambda>(d, s).
     opt (skip_char CHR ''T'' s) (\<lambda>s.
     opt (getnum False s) (\<lambda>(hour, s). if 24 \<le> hour then None else
     opt (skip_char CHR '':'' s) (\<lambda>s.
     opt (getnum True s) (\<lambda>(minute, s). if 60 \<le> minute then None else
     opt (skip_char CHR '':'' s) (\<lambda>s.
     opt (getnum True s) (\<lambda>(sec, s). if 60 \<le> sec then None else
     let (ns, s) = get_fraction s in
     opt (get_zone s) (\<lambda>zone.
       if d < 1 \<or> d > days_in m y then None
       else Some ((date_day y m d * 86400 + hour * 3600 + minute * 60 + sec - zone) * 1000000000 + ns)))))))))))))"

section \<open>The calendar is a bijection\<close>

text \<open>Splitting into at most \<open>k + 1\<close> parts of \<open>n\<close> where one day may be left over.\<close>

lemma capped_parts:
  fixes d n k :: int
  assumes "0 < n" "0 \<le> k" "0 \<le> d" "d \<le> n * (k + 1)"
  shows "0 \<le> min k (d div n)" "min k (d div n) \<le> k" "0 \<le> d - n * min k (d div n)"
    "d - n * min k (d div n) < n \<or> (d = n * (k + 1) \<and> min k (d div n) = k \<and> d - n * min k (d div n) = n)"
proof -
  have q: "0 \<le> d div n" "d div n \<le> k + 1"
    using assms zdiv_mono1 [of d "n * (k + 1)" n] by (simp_all add: pos_imp_zdiv_nonneg_iff)
  have m: "d - n * (d div n) = d mod n" by (simp add: minus_mult_div_eq_mod)
  show "0 \<le> min k (d div n)" "min k (d div n) \<le> k" using q assms by simp_all
  have "0 \<le> d - n * min k (d div n) \<and>
    (d - n * min k (d div n) < n \<or> (d = n * (k + 1) \<and> min k (d div n) = k \<and> d - n * min k (d div n) = n))"
  proof (cases "d div n \<le> k")
    case True
    with m assms show ?thesis by simp
  next
    case False
    then have dk: "d div n = k + 1" using q by simp
    have "0 \<le> d mod n" using assms by simp
    moreover have "d - n * (k + 1) = d mod n" using m unfolding dk .
    ultimately have "d = n * (k + 1)" using assms(4) by linarith
    with dk assms show ?thesis by (simp add: algebra_simps)
  qed
  then show "0 \<le> d - n * min k (d div n)"
    "d - n * min k (d div n) < n \<or> (d = n * (k + 1) \<and> min k (d div n) = k \<and> d - n * min k (d div n) = n)"
    by blast+
qed

lemma year_day_parts:
  fixes d :: int
  assumes "year_day d = (y, yday)"
  obtains a b c e where "0 \<le> b" "b \<le> 3" "0 \<le> c" "c \<le> 24" "0 \<le> e" "e \<le> 3"
    "y = 400 * a + 100 * b + 4 * c + e + 1"
    "d = 146097 * a + 36524 * b + 1461 * c + 365 * e + yday"
    "0 \<le> yday" "yday < 365 \<or> (yday = 365 \<and> e = 3 \<and> (c = 24 \<longrightarrow> b = 3))"
proof -
  define a where "a = d div 146097"
  define d1 where "d1 = d mod 146097"
  define b where "b = min 3 (d1 div 36524)"
  define d2 where "d2 = d1 - 36524 * b"
  define c where "c = d2 div 1461"
  define d3 where "d3 = d2 - 1461 * c"
  define e where "e = min 3 (d3 div 365)"
  have "year_day d = (400 * a + 100 * b + 4 * c + e + 1, d3 - 365 * e)"
    unfolding year_day_def Let_def e_def d3_def c_def d2_def b_def d1_def a_def by (rule refl)
  then have yd: "y = 400 * a + 100 * b + 4 * c + e + 1" "yday = d3 - 365 * e"
    using assms by simp_all
  have d1: "0 \<le> d1" "d1 < 146097" by (simp_all add: d1_def)
  have b: "0 \<le> b" "b \<le> 3" using d1 by (simp_all add: b_def pos_imp_zdiv_nonneg_iff)
  have d2: "0 \<le> d2" "d2 < 36524 \<or> (d2 = 36524 \<and> b = 3)"
    using capped_parts [of 36524 3 d1] d1 by (auto simp: d2_def b_def)
  then have c: "0 \<le> c" "c \<le> 24" by (auto simp: c_def)
  have "d3 = d2 mod 1461" by (simp add: d3_def c_def minus_mult_div_eq_mod)
  then have d3: "0 \<le> d3" "d3 < 1461" by simp_all
  have d3': "c = 24 \<Longrightarrow> d3 < 1460 \<or> (d3 = 1460 \<and> b = 3)"
    using d2 by (auto simp: d3_def)
  have e: "0 \<le> e" "e \<le> 3" using d3 by (simp_all add: e_def pos_imp_zdiv_nonneg_iff)
  have yday: "0 \<le> d3 - 365 * e" "d3 - 365 * e < 365 \<or> (d3 = 1460 \<and> e = 3)"
    using capped_parts [of 365 3 d3] d3 by (auto simp: e_def)
  have "d = 146097 * a + 36524 * b + 1461 * c + 365 * e + yday"
    using yd(2) by (simp add: a_def d1_def d2_def d3_def)
  then show thesis
    using that [of b c e a] b c e yd yday d3' by auto
qed

lemma leap_parts:
  fixes a b c e :: int
  assumes "0 \<le> b" "b \<le> 3" "0 \<le> c" "c \<le> 24" "0 \<le> e" "e \<le> 3"
  shows "leap (400 * a + 100 * b + 4 * c + e + 1) \<longleftrightarrow> e = 3 \<and> (c = 24 \<longrightarrow> b = 3)"
    "days_before (400 * a + 100 * b + 4 * c + e + 1) = 146097 * a + 36524 * b + 1461 * c + 365 * e"
proof -
  let ?y = "400 * a + 100 * b + 4 * c + e + 1"
  have "?y = e + 1 + 4 * (100 * a + 25 * b + c)" by simp
  then have m4: "?y mod 4 = (e + 1) mod 4" by (metis mod_mult_self2)
  have "?y = 4 * c + e + 1 + 100 * (4 * a + b)" by simp
  then have m100: "?y mod 100 = (4 * c + e + 1) mod 100" by (metis mod_mult_self2)
  have "?y = 100 * b + 4 * c + e + 1 + 400 * a" by simp
  then have m400: "?y mod 400 = (100 * b + 4 * c + e + 1) mod 400" by (metis mod_mult_self2)
  have "(e + 1) mod 4 = 0 \<longleftrightarrow> e = 3" using assms by (cases "e = 3") simp_all
  moreover have "e = 3 \<Longrightarrow> (4 * c + e + 1) mod 100 = 0 \<longleftrightarrow> c = 24"
    using assms by (cases "c = 24") simp_all
  moreover have "e = 3 \<Longrightarrow> c = 24 \<Longrightarrow> (100 * b + 4 * c + e + 1) mod 400 = 0 \<longleftrightarrow> b = 3"
    using assms by (cases "b = 3") simp_all
  ultimately show "leap ?y \<longleftrightarrow> e = 3 \<and> (c = 24 \<longrightarrow> b = 3)"
    unfolding leap_def m4 m100 m400 by satx
  let ?p = "400 * a + 100 * b + 4 * c + e"
  have "?p = e + 4 * (100 * a + 25 * b + c)" by simp
  then have "?p div 4 = e div 4 + (100 * a + 25 * b + c)" by (metis div_mult_self2 zero_neq_numeral add.commute)
  then have "?p div 4 = 100 * a + 25 * b + c" using assms by simp
  moreover have "?p = (4 * c + e) + 100 * (4 * a + b)" by simp
  then have "?p div 100 = (4 * c + e) div 100 + (4 * a + b)" by (metis div_mult_self2 zero_neq_numeral add.commute)
  then have "?p div 100 = 4 * a + b" using assms by simp
  moreover have "?p = (100 * b + 4 * c + e) + 400 * a" by simp
  then have "?p div 400 = (100 * b + 4 * c + e) div 400 + a" by (metis div_mult_self2 zero_neq_numeral add.commute)
  then have "?p div 400 = a" using assms by simp
  ultimately show "days_before ?y = 146097 * a + 36524 * b + 1461 * c + 365 * e"
    by (simp add: days_before_def Let_def)
qed

lemma year_day_correct:
  assumes "year_day d = (y, yday)"
  shows "d = days_before y + yday" "0 \<le> yday" "yday < 365 \<or> (yday = 365 \<and> leap y)"
proof -
  obtain a b c e where p: "0 \<le> b" "b \<le> 3" "0 \<le> c" "c \<le> 24" "0 \<le> e" "e \<le> 3"
    "y = 400 * a + 100 * b + 4 * c + e + 1"
    "d = 146097 * a + 36524 * b + 1461 * c + 365 * e + yday"
    "0 \<le> yday" "yday < 365 \<or> (yday = 365 \<and> e = 3 \<and> (c = 24 \<longrightarrow> b = 3))"
    using year_day_parts [OF assms] by metis
  with leap_parts [OF p(1-6), of a] show "d = days_before y + yday" "0 \<le> yday"
    "yday < 365 \<or> (yday = 365 \<and> leap y)" by auto
qed

lemma month_day_correct:
  assumes "month_day (month_lengths lp) 1 yday = (m, d)" "0 \<le> yday" "yday < 365 \<or> (yday = 365 \<and> lp)"
  shows "1 \<le> m \<and> m \<le> 12 \<and> 1 \<le> d \<and> d \<le> month_lengths lp ! nat (m - 1)
    \<and> yday = sum_list (take (nat (m - 1)) (month_lengths lp)) + (d - 1)"
  using assms
  by (cases lp) (auto simp: month_lengths_def numeral_eq_Suc split: if_splits)

lemma date_day_year_day:
  assumes "year_day n = (y, yday)" "month_day (month_lengths (leap y)) 1 yday = (m, d)"
  shows "date_day y m d = n" "1 \<le> m" "m \<le> 12" "1 \<le> d" "d \<le> days_in m y"
  using year_day_correct [OF assms(1)] month_day_correct [OF assms(2)]
  by (auto simp: date_day_def days_in_def)

lemma year_day_range:
  assumes "year_day n = (y, yday)" "0 \<le> n" "n < 3652059"
  shows "1 \<le> y" "y \<le> 9999"
proof -
  have le: "days_before u \<le> days_before v" if "u \<le> v" for u v
  proof -
    have "(u - 1) div 4 \<le> (v - 1) div 4" "(u - 1) div 400 \<le> (v - 1) div 400" using that by (simp_all add: zdiv_mono1)
    moreover have "(v - 1) div 100 - (u - 1) div 100 \<le> v - u"
      using that div_mult_mod_eq [of "v - 1" 100] div_mult_mod_eq [of "u - 1" 100]
        pos_mod_bound [of 100 "u - 1"] pos_mod_sign [of 100 "v - 1"] pos_mod_bound [of 100 "v - 1"]
      by linarith
    ultimately show ?thesis using that by (simp add: days_before_def Let_def)
  qed
  have n: "n = days_before y + yday" "0 \<le> yday" "yday \<le> 365"
    using year_day_correct [OF assms(1)] by auto
  show "y \<le> 9999"
  proof (rule ccontr)
    assume "\<not> y \<le> 9999"
    then have "days_before 10000 \<le> days_before y" by (intro le) simp
    with n assms show False by (simp add: days_before_def)
  qed
  show "1 \<le> y"
  proof (rule ccontr)
    assume "\<not> 1 \<le> y"
    then have y0: "y \<le> 0" by simp
    have "yday < 365 \<or> y = 0 \<or> y \<le> -1" using y0 by auto
    have "days_before y \<le> days_before 0" using y0 by (rule le)
    moreover have "days_before 0 = -366" by (simp add: days_before_def)
    ultimately show False using n assms by simp
  qed
qed

section \<open>What is written is read back\<close>

fun digits_of :: "nat \<Rightarrow> nat \<Rightarrow> string" where
  "digits_of 0 n = []"
| "digits_of (Suc k) n = digits_of k (n div 10) @ [digit (n mod 10)]"

lemma digits_of_zero: "digits_of k 0 = replicate k (digit 0)"
  by (induction k) (simp_all add: replicate_append_same)

lemma pad_digits_of: "n < 10 ^ k \<Longrightarrow> 0 < k \<Longrightarrow> pad k n = digits_of k n"
proof (induction k arbitrary: n)
  case (Suc k)
  show ?case
  proof (cases "n < 10")
    case True
    then have "nat_digits n = [digit n]" by (subst nat_digits.simps) simp
    with True show ?thesis by (simp add: pad_def digits_of_zero)
  next
    case False
    then have nd: "nat_digits n = nat_digits (n div 10) @ [digit (n mod 10)]" by (subst nat_digits.simps) simp
    have "0 < k" using False Suc.prems by (cases k) auto
    moreover have "n div 10 < 10 ^ k" using Suc.prems by (simp add: less_mult_imp_div_less)
    ultimately have "pad k (n div 10) = digits_of k (n div 10)" by (intro Suc.IH)
    then show ?thesis by (simp add: pad_def nd)
  qed
qed simp

lemma digits_of_digits: "list_all is_digit (digits_of k n)"
  by (induction k arbitrary: n) (simp_all add: is_digit_digit)

lemma length_digits_of [simp]: "length (digits_of k n) = k"
  by (induction k arbitrary: n) simp_all

lemma digits_value_digits_of: "digits_value (digits_of k n) = n mod 10 ^ k"
proof (induction k arbitrary: n)
  case (Suc k)
  then show ?case by (simp add: digits_value_snoc byte_digit mod_mult2_eq)
qed (simp add: digits_value_def)

lemma digits_of_2: "digits_of 2 n = [digit (n div 10 mod 10), digit (n mod 10)]"
  by (simp add: numeral_2_eq_2)

lemma getnum_pad:
  assumes "0 \<le> n" "n < 100"
  shows "getnum fixed (pad_int 2 n @ s) = Some (n, s)"
proof -
  have "pad_int 2 n = digits_of 2 (nat n)"
    using assms by (simp add: pad_int_def pad_digits_of)
  moreover have "digits_value (digits_of 2 (nat n)) = nat n"
    using assms by (simp add: digits_value_digits_of)
  ultimately show ?thesis
    using assms by (simp add: getnum_def digits_of_2 is_digit_digit)
qed

lemma get_year_pad:
  assumes "0 \<le> n" "n < 10000"
  shows "get_year (pad_int 4 n @ s) = Some (n, s)"
proof -
  have "pad_int 4 n = digits_of 4 (nat n)"
    using assms by (simp add: pad_int_def pad_digits_of)
  then show ?thesis
    using assms digits_of_digits [of 4 "nat n"] by (simp add: get_year_def digits_value_digits_of)
qed

lemma get_fraction_pad:
  assumes "0 \<le> n" "n < 1000000"
  shows "get_fraction (CHR ''.'' # pad_int 6 n @ ''Z'') = (n * 1000, ''Z'')"
proof -
  have p: "pad_int 6 n = digits_of 6 (nat n)"
    using assms by (simp add: pad_int_def pad_digits_of)
  have z: "\<not> is_digit CHR ''Z''" by (simp add: is_digit_def between_def byte_def)
  have d: "\<forall>c \<in> set (digits_of 6 (nat n)). is_digit c"
    using digits_of_digits [of 6 "nat n"] by (simp add: list_all_iff)
  have tw: "takeWhile is_digit (digits_of 6 (nat n) @ ''Z'') = digits_of 6 (nat n)"
    "dropWhile is_digit (digits_of 6 (nat n) @ ''Z'') = ''Z''"
    using d z by (simp_all add: takeWhile_append2 dropWhile_append2)
  have ne: "digits_of 6 (nat n) \<noteq> []" using length_digits_of [of 6 "nat n"] by (metis list.size(3) zero_neq_numeral)
  show ?thesis
    unfolding get_fraction_def p list.case Let_def tw
    using ne assms by (simp add: digits_value_digits_of)
qed

text \<open>The instants a four-digit year can spell.\<close>

definition spellable :: "time \<Rightarrow> bool" where
  "spellable t \<longleftrightarrow> 0 \<le> t \<and> t < 315537897600000000000"

lemma Parse_Format:
  assumes "spellable t"
  shows "ParseRFC3339 (Format t) = Some (At t)"
proof -
  define s where "s = t div 1000000000"
  define n where "n = s div 86400"
  define sod where "sod = s mod 86400"
  obtain y yday where y: "year_day n = (y, yday)" by (cases "year_day n")
  obtain m d where md: "month_day (month_lengths (leap y)) 1 yday = (m, d)"
    by (cases "month_day (month_lengths (leap y)) 1 yday")
  have s: "0 \<le> s" "s < 315537897600"
  proof -
    have t: "0 \<le> t" "t < 315537897600000000000" using assms by (simp_all add: spellable_def)
    show "0 \<le> s" using t by (simp add: s_def pos_imp_zdiv_nonneg_iff)
    have "s * 1000000000 \<le> t" using div_mult_mod_eq [of t 1000000000] by (simp add: s_def)
    with t show "s < 315537897600" by linarith
  qed
  then have n: "0 \<le> n" "n < 3652059" by (simp_all add: n_def pos_imp_zdiv_nonneg_iff)
  note date = date_day_year_day [OF y md] and yr = year_day_range [OF y n]
  have "days_in m y \<le> 31" using date(2,3) by (auto simp: days_in_def month_lengths_def nth_Cons' )
  then have d31: "d \<le> 31" using date(5) by simp
  have sod: "0 \<le> sod" "sod < 86400" by (simp_all add: sod_def)
  have h: "0 \<le> sod div 3600" "sod div 3600 < 24" using sod by (simp_all add: pos_imp_zdiv_nonneg_iff)
  have mi: "0 \<le> sod mod 3600 div 60" "sod mod 3600 div 60 < 60" by (simp_all add: pos_imp_zdiv_nonneg_iff)
  have se: "0 \<le> sod mod 60" "sod mod 60 < 60" by simp_all
  have us: "0 \<le> t mod 1000000000 div 1000" "t mod 1000000000 div 1000 < 1000000"
    by (simp_all add: pos_imp_zdiv_nonneg_iff)
  have F: "Format t = pad_int 4 y @ CHR ''-'' # pad_int 2 m @ CHR ''-'' # pad_int 2 d @ CHR ''T''
      # pad_int 2 (sod div 3600) @ CHR '':'' # pad_int 2 (sod mod 3600 div 60) @ CHR '':'' # pad_int 2 (sod mod 60)
      @ CHR ''.'' # pad_int 6 (t mod 1000000000 div 1000) @ ''Z''"
    using y md by (simp add: Format_def Let_def s_def n_def sod_def)
  have hms: "sod div 3600 * 3600 + sod mod 3600 div 60 * 60 + sod mod 60 = sod"
  proof -
    have "sod mod 3600 mod 60 = sod mod 60" by (simp add: mod_mod_cancel)
    then show ?thesis using div_mult_mod_eq [of sod 3600] div_mult_mod_eq [of "sod mod 3600" 60] by linarith
  qed
  have tt: "(n * 86400 + sod) * 1000000000 + t mod 1000000000 div 1000 * 1000 = At t"
  proof -
    have "n * 86400 + sod = s" by (simp add: n_def sod_def)
    moreover have "s * 1000000000 + t mod 1000000000 = t" by (simp add: s_def)
    moreover have "t mod 1000000000 mod 1000 = t mod 1000" by (simp add: mod_mod_cancel)
    moreover have "a = s' \<Longrightarrow> s' * g + u = t' \<Longrightarrow> w = v \<Longrightarrow> q * k + w = u \<Longrightarrow> p * k + v = t' \<Longrightarrow> a * g + q * k = p * k"
      for a s' g u t' w v q k p :: int by simp
    ultimately show ?thesis
      using div_mult_mod_eq [of "t mod 1000000000" 1000] div_mult_mod_eq [of t 1000]
      unfolding At_def by blast
  qed
  define H M S U where parts: "H = sod div 3600" "M = sod mod 3600 div 60" "S = sod mod 60"
    "U = t mod 1000000000 div 1000"
  have whole: "(n * 86400 + H * 3600 + M * 60 + S) * 1000000000 + U * 1000 = At t"
  proof -
    have "H * 3600 + M * 60 + S = sod" unfolding parts by (rule hms)
    then have e: "n * 86400 + H * 3600 + M * 60 + S = n * 86400 + sod" by (simp only: add.assoc)
    show ?thesis unfolding e parts(4) by (rule tt)
  qed
  have bnd: "0 \<le> H" "H < 24" "0 \<le> M" "M < 60" "0 \<le> S" "S < 60" "0 \<le> U" "U < 1000000"
    unfolding parts by (rule h mi se us)+
  have g: "get_year (pad_int 4 y @ r) = Some (y, r)" "getnum True (pad_int 2 m @ r) = Some (m, r)"
    "getnum True (pad_int 2 d @ r) = Some (d, r)" "getnum False (pad_int 2 H @ r) = Some (H, r)"
    "getnum True (pad_int 2 M @ r) = Some (M, r)" "getnum True (pad_int 2 S @ r) = Some (S, r)"
    "get_fraction (CHR ''.'' # pad_int 6 U @ ''Z'') = (U * 1000, ''Z'')" for r
    using yr date(2-4) d31 bnd by (simp_all add: get_year_pad getnum_pad get_fraction_pad)
  have lim: "\<not> (m \<le> 0 \<or> 12 < m)" "\<not> 24 \<le> H" "\<not> 60 \<le> M" "\<not> 60 \<le> S" "\<not> (d < 1 \<or> d > days_in m y)"
    using date bnd by simp_all
  have z: "get_zone ''Z'' = Some 0" by (simp add: get_zone_def)
  have sk: "skip_char c (c # r) = Some r" for c r by (simp add: skip_char_def)
  show ?thesis
    unfolding F ParseRFC3339_def opt_def parts [symmetric]
    by (simp only: g sk lim z Option.bind.simps(2) prod.case if_False Let_def date(1) diff_0_right whole)
qed

end
