(* ===== verification/Marshal.thy ===== *)
theory Marshal
  imports JsonText
begin

text \<open>
  How go/record.go writes a document (\<open>marshalJSON\<close>, \<open>marshalCompact\<close>) and how
  \<open>encoding/json\<close> reads it back into raw messages.  The encoder's tree is a \<open>json\<close>; the
  indented text of it parses to the tree again, and an object of it yields the texts of its
  members.
\<close>

section \<open>Writing\<close>

definition newline :: "string \<Rightarrow> nat \<Rightarrow> string" where
  "newline unit n = CHR 0x0A # concat (replicate n unit)"

text \<open>\<open>json.Indent\<close> with an empty prefix: what \<open>SetIndent\<close> makes of the compact text.\<close>

fun indented :: "string \<Rightarrow> nat \<Rightarrow> json \<Rightarrow> string" where
  "indented w n (JArr vs) =
     (if vs = [] then ''[]''
      else ''['' @ newline w (Suc n) @ join (CHR '','' # newline w (Suc n)) (map (indented w (Suc n)) vs)
           @ newline w n @ '']'')"
| "indented w n (JObj ms) =
     (if ms = [] then ''{}''
      else ''{'' @ newline w (Suc n)
           @ join (CHR '','' # newline w (Suc n))
               (map (\<lambda>(k, v). [CHR 0x22] @ k @ [CHR 0x22, CHR '':'', CHR '' ''] @ indented w (Suc n) v) ms)
           @ newline w n @ ''}'')"
| "indented w n v = print_json v"

text \<open>\<open>bytes.ReplaceAll\<close> for a pattern that is not empty.\<close>

function ReplaceAll :: "string \<Rightarrow> string \<Rightarrow> string \<Rightarrow> string" where
  "ReplaceAll old new [] = []"
| "ReplaceAll old new (c # s) =
     (if old \<noteq> [] \<and> take (length old) (c # s) = old
      then new @ ReplaceAll old new (drop (length old) (c # s))
      else c # ReplaceAll old new s)"
  by pat_completeness auto
termination
  by (relation "measure (\<lambda>(old, new, s). length s)") auto

definition line_separator :: string where
  "line_separator = [CHR 0xE2, CHR 0x80, CHR 0xA8]"

definition paragraph_separator :: string where
  "paragraph_separator = [CHR 0xE2, CHR 0x80, CHR 0xA9]"

definition escape_separators :: "string \<Rightarrow> string" where
  "escape_separators b =
     ReplaceAll paragraph_separator (u_escape 0x2029) (ReplaceAll line_separator (u_escape 0x2028) b)"

text \<open>The encoder's scanner refuses to indent a document nested too deep.\<close>

definition marshalJSON :: "json \<Rightarrow> string \<Rightarrow> string res" where
  "marshalJSON v indent =
     (if indent = [] then Inr (escape_separators (print_json v @ [CHR 0x0A]))
      else if depth v > max_nesting then Inl (ErrPlain ''json: exceeded max depth'')
      else Inr (escape_separators (indented indent 0 v @ [CHR 0x0A])))"

definition TrimSuffix :: "string \<Rightarrow> string \<Rightarrow> string" where
  "TrimSuffix s suf =
     (if length suf \<le> length s \<and> drop (length s - length suf) s = suf then take (length s - length suf) s else s)"

definition marshalCompact :: "json \<Rightarrow> string res" where
  "marshalCompact v = rbind (marshalJSON v []) (\<lambda>b. Inr (TrimSuffix b [CHR 0x0A]))"

section \<open>Reading raw messages\<close>

text \<open>The members of an object: the lexeme of each name and the text of each value, as it stands
  in the document.  One unit of fuel per member; every member takes a byte.\<close>

fun raw_loop :: "nat \<Rightarrow> string \<Rightarrow> (string \<times> string) list option" where
  "raw_loop 0 s = None"
| "raw_loop (Suc f) s =
     (case skip_ws s of
        [] \<Rightarrow> None
      | c # r \<Rightarrow>
          if c \<noteq> CHR 0x22 then None
          else (case scan_str r of
                  None \<Rightarrow> None
                | Some (k, q) \<Rightarrow>
                    if take 1 (skip_ws q) \<noteq> '':'' then None
                    else
                      let t = skip_ws (drop 1 (skip_ws q)) in
                      (case parse_value (2 * length t + 1) max_nesting t of
                         None \<Rightarrow> None
                       | Some (_, r') \<Rightarrow>
                           let raw = take (length t - length r') t in
                           (case skip_ws r' of
                              [] \<Rightarrow> None
                            | c' # q' \<Rightarrow>
                                if c' = CHR ''}'' then Some [(k, raw)]
                                else if c' = CHR '','' then map_option (\<lambda>ms. (k, raw) # ms) (raw_loop f q')
                                else None))))"

definition object_members :: "string \<Rightarrow> (string \<times> string) list option" where
  "object_members s = (case skip_ws s of
     [] \<Rightarrow> None
   | c # r \<Rightarrow>
       if c \<noteq> CHR ''{'' then None
       else if take 1 (skip_ws r) = ''}'' then Some []
       else raw_loop (length r) r)"

section \<open>The parser reads the indented text\<close>

definition white :: "string \<Rightarrow> bool" where
  "white w \<longleftrightarrow> list_all is_ws w"

lemma skip_white: "white w \<Longrightarrow> skip_ws (w @ s) = skip_ws s"
  by (induction w) (auto simp: white_def)

lemma white_newline: "white w \<Longrightarrow> white (newline w n)"
  by (induction n) (auto simp: white_def newline_def is_ws_def)

lemma num_end_white: "white w \<Longrightarrow> num_end r \<Longrightarrow> num_end (w @ r)"
  by (cases w) (auto simp: white_def is_ws_def num_end_def is_digit_def between_def byte_def)

lemma parse_value_skip: "white w \<Longrightarrow> parse_value f d (w @ s) = parse_value f d s"
  by (cases f) (simp_all add: skip_white)

lemma indented_head:
  assumes "wf_json v"
  obtains c t where "indented w n v = c # t" "\<not> is_ws c" "c \<noteq> CHR '']''" "c \<noteq> CHR ''}''"
proof (cases v)
  case (JArr vs)
  then show thesis using that by (cases "vs = []") (auto simp: is_ws_def)
next
  case (JObj ms)
  then show thesis using that by (cases "ms = []") (auto simp: is_ws_def)
qed (use print_json_head [of v] assms that in auto)

definition reads_in :: "string \<Rightarrow> json \<Rightarrow> bool" where
  "reads_in w v \<longleftrightarrow> (\<forall>n f d r. depth v \<le> d \<longrightarrow> num_end r \<longrightarrow> 2 * length (indented w n v @ r) + 1 \<le> f \<longrightarrow>
     parse_value f d (indented w n v @ r) = Some (v, r))"

lemma reads_inD:
  "reads_in w v \<Longrightarrow> depth v \<le> d \<Longrightarrow> num_end r \<Longrightarrow> 2 * length (indented w n v @ r) + 1 \<le> f \<Longrightarrow>
     parse_value f d (indented w n v @ r) = Some (v, r)"
  by (simp add: reads_in_def)

lemma parse_elems_indented:
  assumes "vs \<noteq> []" "\<forall>v \<in> set vs. reads_in w v \<and> depth v \<le> d" "white s1" "white s2"
    and "2 * length (s1 @ join (CHR '','' # s1) (map (indented w n) vs) @ s2 @ CHR '']'' # r) + 2 \<le> f"
  shows "parse_elems f d (s1 @ join (CHR '','' # s1) (map (indented w n) vs) @ s2 @ CHR '']'' # r) = Some (vs, r)"
  using assms
proof (induction vs arbitrary: f)
  case (Cons v vs)
  from Cons.prems obtain g where f: "f = Suc g" by (cases f) auto
  show ?case
  proof (cases "vs = []")
    case True
    have "parse_value g d (indented w n v @ s2 @ CHR '']'' # r) = Some (v, s2 @ CHR '']'' # r)"
      using Cons.prems f True by (intro reads_inD) (simp_all add: num_end_white)
    then show ?thesis
      using True f Cons.prems by (simp add: parse_value_skip skip_white is_ws_def)
  next
    case False
    let ?rest = "s1 @ join (CHR '','' # s1) (map (indented w n) vs) @ s2 @ CHR '']'' # r"
    have "parse_value g d (indented w n v @ CHR '','' # ?rest) = Some (v, CHR '','' # ?rest)"
      using Cons.prems f False by (intro reads_inD) (simp_all add: join_Cons)
    moreover have "parse_elems g d ?rest = Some (vs, r)"
      using Cons.prems f False by (intro Cons.IH) (simp_all add: join_Cons)
    ultimately show ?thesis
      using f False Cons.prems by (simp add: join_Cons parse_value_skip is_ws_def)
  qed
qed simp

definition member_line :: "string \<Rightarrow> nat \<Rightarrow> string \<times> json \<Rightarrow> string" where
  "member_line w n = (\<lambda>(k, v). [CHR 0x22] @ k @ [CHR 0x22, CHR '':'', CHR '' ''] @ indented w n v)"

lemma scan_str_lexeme_extend: "str_lexeme k \<Longrightarrow> scan_str (k @ CHR 0x22 # q) = Some (k, q)"
  using scan_str_extend [of "k @ [CHR 0x22]" k "[]" q] by (simp add: str_lexeme_def)

lemma parse_members_indented:
  assumes "ms \<noteq> []" "\<forall>(k, v) \<in> set ms. reads_in w v \<and> str_lexeme k \<and> depth v \<le> d" "white s1" "white s2"
    and "2 * length (s1 @ join (CHR '','' # s1) (map (member_line w n) ms) @ s2 @ CHR ''}'' # r) + 2 \<le> f"
  shows "parse_members f d (s1 @ join (CHR '','' # s1) (map (member_line w n) ms) @ s2 @ CHR ''}'' # r) = Some (ms, r)"
  using assms
proof (induction ms arbitrary: f)
  case (Cons m ms)
  obtain k v where m: "m = (k, v)" by (cases m)
  from Cons.prems obtain g where f: "f = Suc g" by (cases f) auto
  have k: "scan_str (k @ CHR 0x22 # q) = Some (k, q)" for q
    using Cons.prems m by (intro scan_str_lexeme_extend) simp
  have sp: "parse_value g d (CHR '' '' # q) = parse_value g d q" for q
    using parse_value_skip [of "'' ''" g d q] by (simp add: white_def is_ws_def)
  show ?case
  proof (cases "ms = []")
    case True
    have "parse_value g d (indented w n v @ s2 @ CHR ''}'' # r) = Some (v, s2 @ CHR ''}'' # r)"
      using Cons.prems f m True by (intro reads_inD) (simp_all add: member_line_def num_end_white)
    then show ?thesis
      using True m f k Cons.prems by (simp add: skip_white is_ws_def member_line_def sp)
  next
    case False
    let ?rest = "s1 @ join (CHR '','' # s1) (map (member_line w n) ms) @ s2 @ CHR ''}'' # r"
    have "parse_value g d (indented w n v @ CHR '','' # ?rest) = Some (v, CHR '','' # ?rest)"
      using Cons.prems f m False by (intro reads_inD) (simp_all add: join_Cons member_line_def)
    moreover have "parse_members g d ?rest = Some (ms, r)"
      using Cons.prems f m False by (intro Cons.IH) (simp_all add: join_Cons member_line_def)
    ultimately show ?thesis
      using f False m k Cons.prems by (simp add: join_Cons skip_white is_ws_def member_line_def sp)
  qed
qed simp

lemma indented_JObj:
  "ms \<noteq> [] \<Longrightarrow> indented w n (JObj ms) =
     ''{'' @ newline w (Suc n) @ join (CHR '','' # newline w (Suc n)) (map (member_line w (Suc n)) ms) @ newline w n @ ''}''"
  by (simp add: member_line_def case_prod_beta')

lemma reads_in_scalar:
  assumes "\<And>n. indented w n v = print_json v" "wf_json v"
  shows "reads_in w v"
  unfolding reads_in_def assms(1) using reads_wf [OF assms(2)] by (simp add: reads_def)

lemma reads_in_wf: "wf_json v \<Longrightarrow> white w \<Longrightarrow> reads_in w v"
proof (induction v)
  case (JArr vs)
  show ?case unfolding reads_in_def
  proof (intro allI impI)
    fix n f d r
    assume a: "depth (JArr vs) \<le> d" "num_end r" "2 * length (indented w n (JArr vs) @ r) + 1 \<le> f"
    then obtain g where f: "f = Suc g" by (cases f) auto
    show "parse_value f d (indented w n (JArr vs) @ r) = Some (JArr vs, r)"
    proof (cases vs)
      case Nil
      with a f show ?thesis by (simp add: is_ws_def)
    next
      case (Cons u us)
      have "foldr max (map depth vs) 0 \<le> d - 1" using a(1) by simp
      then have all: "\<forall>v \<in> set vs. reads_in w v \<and> depth v \<le> d - 1"
        using JArr by (simp add: list_all_iff foldr_max_le)
      have "parse_elems g (d - 1) (newline w (Suc n) @ join (CHR '','' # newline w (Suc n)) (map (indented w (Suc n)) vs)
          @ newline w n @ CHR '']'' # r) = Some (vs, r)"
        using Cons a f all JArr.prems by (intro parse_elems_indented) (simp_all add: white_newline)
      moreover have "wf_json u" using JArr.prems Cons by simp
      then obtain c t where ct: "indented w (Suc n) u = c # t" "\<not> is_ws c" "c \<noteq> CHR '']''" "c \<noteq> CHR ''}''"
        by (rule indented_head)
      moreover have "take 1 (skip_ws (newline w (Suc n) @ join (CHR '','' # newline w (Suc n)) (map (indented w (Suc n)) vs)
          @ newline w n @ CHR '']'' # r)) \<noteq> '']''"
        using ct Cons JArr.prems by (cases us) (simp_all add: skip_white white_newline)
      ultimately show ?thesis
        using a f Cons by (simp add: is_ws_def)
    qed
  qed
next
  case (JObj ms)
  show ?case unfolding reads_in_def
  proof (intro allI impI)
    fix n f d r
    assume a: "depth (JObj ms) \<le> d" "num_end r" "2 * length (indented w n (JObj ms) @ r) + 1 \<le> f"
    then obtain g where f: "f = Suc g" by (cases f) auto
    show "parse_value f d (indented w n (JObj ms) @ r) = Some (JObj ms, r)"
    proof (cases ms)
      case Nil
      with a f show ?thesis by (simp add: is_ws_def)
    next
      case (Cons m ms')
      have "foldr max (map (\<lambda>(k, v). depth v) ms) 0 \<le> d - 1" using a(1) by simp
      then have dm: "\<forall>(k, v) \<in> set ms. depth v \<le> d - 1" by (auto simp: foldr_max_le)
      have "\<forall>(k, v) \<in> set ms. reads_in w v \<and> str_lexeme k"
        using JObj by (fastforce simp: list_all_iff)
      with dm have all: "\<forall>(k, v) \<in> set ms. reads_in w v \<and> str_lexeme k \<and> depth v \<le> d - 1" by blast
      let ?t = "newline w (Suc n) @ join (CHR '','' # newline w (Suc n)) (map (member_line w (Suc n)) ms)
          @ newline w n @ CHR ''}'' # r"
      have t: "indented w n (JObj ms) @ r = CHR ''{'' # ?t"
        using Cons by (simp add: indented_JObj del: indented.simps)
      have "parse_members g (d - 1) ?t = Some (ms, r)"
        using Cons a(3) f all JObj.prems unfolding t
        by (intro parse_members_indented) (simp_all add: white_newline)
      moreover obtain t' where "join (CHR '','' # newline w (Suc n)) (map (member_line w (Suc n)) ms) = CHR 0x22 # t'"
        using Cons by (cases m; cases ms') (simp_all add: member_line_def)
      moreover from this have "take 1 (skip_ws ?t) \<noteq> ''}''"
        using JObj.prems by (simp add: skip_white white_newline is_ws_def)
      ultimately show ?thesis
        using a(1) f unfolding t by (simp add: is_ws_def)
    qed
  qed
qed (auto intro: reads_in_scalar)

lemma raw_loop_indented:
  assumes "ms \<noteq> []" "\<forall>(k, v) \<in> set ms. wf_json v \<and> str_lexeme k \<and> depth v \<le> max_nesting" "white w" "white s1" "white s2"
    and "length ms \<le> f"
  shows "raw_loop f (s1 @ join (CHR '','' # s1) (map (member_line w n) ms) @ s2 @ CHR ''}'' # r)
    = Some (map (\<lambda>(k, v). (k, indented w n v)) ms)"
  using assms
proof (induction ms arbitrary: f)
  case (Cons m ms)
  obtain k v where m: "m = (k, v)" by (cases m)
  from Cons.prems obtain g where f: "f = Suc g" by (cases f) auto
  have k: "scan_str (k @ CHR 0x22 # q) = Some (k, q)" for q
    using Cons.prems m by (intro scan_str_lexeme_extend) simp
  have wf: "wf_json v" "depth v \<le> max_nesting" using Cons.prems m by simp_all
  obtain c t where ct: "indented w n v = c # t" "\<not> is_ws c" "c \<noteq> CHR '']''" "c \<noteq> CHR ''}''"
    by (rule indented_head [OF wf(1)])
  have sk: "skip_ws (CHR '' '' # indented w n v @ q) = indented w n v @ q" for q
    using ct(2) skip_white [of "'' ''"] unfolding ct(1) by (simp add: white_def is_ws_def [of "CHR '' ''"])
  have v: "parse_value (Suc (2 * length (indented w n v @ q))) max_nesting (indented w n v @ q) = Some (v, q)"
    if "num_end q" for q
    using reads_inD [OF reads_in_wf [OF wf(1) Cons.prems(3)] wf(2) that, of n] by (simp del: parse_value.simps)
  show ?case
  proof (cases "ms = []")
    case True
    have e: "num_end (s2 @ CHR ''}'' # r)" using Cons.prems by (simp add: num_end_white)
    show ?thesis
      using True m f k sk v [OF e] Cons.prems by (simp add: skip_white is_ws_def member_line_def del: skip_ws.simps(2) parse_value.simps)
  next
    case False
    let ?rest = "s1 @ join (CHR '','' # s1) (map (member_line w n) ms) @ s2 @ CHR ''}'' # r"
    have "raw_loop g ?rest = Some (map (\<lambda>(k, v). (k, indented w n v)) ms)"
      using Cons.prems f False by (intro Cons.IH) simp_all
    then show ?thesis
      using f False m k sk v [of "CHR '','' # ?rest"] Cons.prems
      by (simp add: join_Cons skip_white is_ws_def member_line_def del: parse_value.simps)
  qed
qed simp

lemma object_members_indented:
  assumes "wf_json (JObj ms)" "depth (JObj ms) \<le> max_nesting" "white w"
  shows "object_members (indented w n (JObj ms) @ r) = Some (map (\<lambda>(k, v). (k, indented w (Suc n) v)) ms)"
proof (cases ms)
  case Nil
  then show ?thesis by (simp add: object_members_def is_ws_def)
next
  case (Cons m ms')
  let ?t = "newline w (Suc n) @ join (CHR '','' # newline w (Suc n)) (map (member_line w (Suc n)) ms)
      @ newline w n @ CHR ''}'' # r"
  have t: "indented w n (JObj ms) @ r = CHR ''{'' # ?t"
    using Cons by (simp add: indented_JObj del: indented.simps)
  have "foldr max (map (\<lambda>(k, v). depth v) ms) 0 \<le> max_nesting" using assms(2) by simp
  then have dm: "\<forall>(k, v) \<in> set ms. depth v \<le> max_nesting" by (auto simp: foldr_max_le)
  with assms(1) have all: "\<forall>(k, v) \<in> set ms. wf_json v \<and> str_lexeme k \<and> depth v \<le> max_nesting"
    by (auto simp: list_all_iff)
  have len: "length ms \<le> length (join (CHR '','' # s) (map (member_line w k) ms))" for s k
  proof (induction ms)
    case (Cons a l)
    then show ?case by (cases "l = []"; cases a) (auto simp: join_Cons member_line_def)
  qed simp
  have "raw_loop (length ?t) ?t = Some (map (\<lambda>(k, v). (k, indented w (Suc n) v)) ms)"
    using all assms(3) len [of "newline w (Suc n)" "Suc n"] Cons by (intro raw_loop_indented) (simp_all add: white_newline)
  moreover obtain t' where "join (CHR '','' # newline w (Suc n)) (map (member_line w (Suc n)) ms) = CHR 0x22 # t'"
    using Cons by (cases m; cases ms') (simp_all add: member_line_def)
  moreover from this have "take 1 (skip_ws ?t) \<noteq> ''}''"
    using assms(3) by (simp add: skip_white white_newline is_ws_def)
  ultimately show ?thesis
    unfolding t by (simp add: object_members_def is_ws_def del: raw_loop.simps)
qed

section \<open>Escaping across a finished document\<close>

text \<open>A pattern of bytes that are not ASCII occurs in no punctuation, so replacing it in a text
  replaces it in the lexemes.\<close>

definition wide :: "string \<Rightarrow> bool" where
  "wide s \<longleftrightarrow> list_all (\<lambda>c. 0x80 \<le> byte c) s"

definition ascii :: "string \<Rightarrow> bool" where
  "ascii s \<longleftrightarrow> list_all (\<lambda>c. byte c < 0x80) s"

lemma ReplaceAll_ascii_Cons:
  assumes "wide old" "byte c < 0x80"
  shows "ReplaceAll old new (c # s) = c # ReplaceAll old new s"
  using assms by (cases old) (auto simp: wide_def)

lemma ReplaceAll_ascii: "wide old \<Longrightarrow> ascii a \<Longrightarrow> ReplaceAll old new (a @ s) = a @ ReplaceAll old new s"
  by (induction a) (simp_all add: ascii_def ReplaceAll_ascii_Cons del: ReplaceAll.simps(2))

lemma ReplaceAll_split:
  assumes "wide old" "byte c < 0x80"
  shows "ReplaceAll old new (a @ c # b) = ReplaceAll old new a @ c # ReplaceAll old new b"
proof (induction "length a" arbitrary: a rule: less_induct)
  case less
  show ?case
  proof (cases a)
    case Nil
    with assms show ?thesis by (simp add: ReplaceAll_ascii_Cons del: ReplaceAll.simps(2))
  next
    case (Cons x a')
    have c: "c \<notin> set old" using assms by (auto simp: wide_def list_all_iff)
    have iff: "take (length old) (a @ c # b) = old \<longleftrightarrow> take (length old) a = old"
    proof (cases "length old \<le> length a")
      case False
      then have "c \<in> set (take (length old) (a @ c # b))" by (cases "length old - length a") auto
      moreover have "take (length old) a \<noteq> old"
      proof
        assume "take (length old) a = old"
        from arg_cong [OF this, of length] False show False by simp
      qed
      ultimately show ?thesis using c by metis
    qed simp
    show ?thesis
    proof (cases "old \<noteq> [] \<and> take (length old) a = old")
      case True
      then have le: "length old \<le> length a" by (metis length_take min.cobounded1 min_def)
      have "length (drop (length old) a) < length a" using True Cons by (cases old) auto
      from less [OF this] have "ReplaceAll old new (drop (length old) (a @ c # b))
          = ReplaceAll old new (drop (length old) a) @ c # ReplaceAll old new b"
        using le by simp
      with True iff Cons show ?thesis by simp
    next
      case False
      with less [of a'] iff Cons show ?thesis by auto
    qed
  qed
qed

lemma ReplaceAll_append_ascii: "wide old \<Longrightarrow> ascii b \<Longrightarrow> ReplaceAll old new (a @ b) = ReplaceAll old new a @ b"
proof (induction b arbitrary: a)
  case (Cons c b)
  then have c: "byte c < 0x80" "ascii b" by (simp_all add: ascii_def)
  have "ReplaceAll old new b = b" using ReplaceAll_ascii [OF Cons.prems(1) c(2), of new "[]"] by simp
  with ReplaceAll_split [OF Cons.prems(1) c(1)] show ?case by simp
qed simp

lemma ascii_append [simp]: "ascii (a @ b) \<longleftrightarrow> ascii a \<and> ascii b"
  by (simp add: ascii_def)

lemma is_ws_ascii: "is_ws c \<Longrightarrow> byte c < 0x80"
  by (auto simp: is_ws_def byte_def)

lemma ascii_newline: "white w \<Longrightarrow> ascii (newline w n)"
  using white_newline [of w n] is_ws_ascii unfolding white_def ascii_def list_all_iff by blast

text \<open>The lexemes of a tree, mapped.\<close>

fun map_lexemes :: "(string \<Rightarrow> string) \<Rightarrow> json \<Rightarrow> json" where
  "map_lexemes g (JStr l) = JStr (g l)"
| "map_lexemes g (JArr vs) = JArr (map (map_lexemes g) vs)"
| "map_lexemes g (JObj ms) = JObj (map (\<lambda>(k, v). (g k, map_lexemes g v)) ms)"
| "map_lexemes g v = v"

lemma ascii_scan_digits: "scan_digits s = (a, q) \<Longrightarrow> ascii a"
  by (fastforce simp: scan_digits_def ascii_def list_all_iff is_digit_def between_def dest: set_takeWhileD)

lemma byte_number_marks:
  "byte CHR ''-'' < 0x80" "byte CHR ''+'' < 0x80" "byte CHR ''.'' < 0x80" "byte CHR ''e'' < 0x80" "byte CHR ''E'' < 0x80"
  "byte CHR ''0'' < 0x80"
  by (simp_all add: byte_def)

lemma ascii_simps [simp]: "ascii []" "ascii (c # s) \<longleftrightarrow> byte c < 0x80 \<and> ascii s"
  by (simp_all add: ascii_def)

lemma ascii_scan_int: "scan_int s = Some (a, q) \<Longrightarrow> ascii a"
  by (auto simp: scan_int_def byte_number_marks dest: ascii_scan_digits split: list.splits if_splits)

lemma ascii_scan_frac: "scan_frac s = Some (a, q) \<Longrightarrow> ascii a"
  by (auto simp: scan_frac_def byte_number_marks Let_def dest: ascii_scan_digits split: list.splits if_splits prod.splits)

lemma ascii_scan_exp: "scan_exp s = Some (a, q) \<Longrightarrow> ascii a"
  by (auto simp: scan_exp_def byte_number_marks Let_def dest: ascii_scan_digits split: list.splits if_splits prod.splits)

lemma ascii_scan_num: "scan_num s = Some (a, q) \<Longrightarrow> ascii a"
  by (auto simp: scan_num_def byte_number_marks Let_def split: list.splits if_splits prod.splits option.splits
      dest!: ascii_scan_int ascii_scan_frac ascii_scan_exp)

lemma num_lexeme_ascii: "num_lexeme l \<Longrightarrow> ascii l"
  unfolding num_lexeme_def by (rule ascii_scan_num)

text \<open>Replacing a wide pattern leaves a string lexeme one.\<close>

lemma str_unit_wide:
  assumes "str_unit s = Some (u, q)" "\<not> ascii u"
  shows "\<exists>c. u = [c] \<and> 0x80 \<le> byte c"
proof -
  have h: "is_hex c \<Longrightarrow> byte c < 0x80" for c by (auto simp: is_hex_def is_digit_def between_def)
  have e: "simple_escape c \<Longrightarrow> byte c < 0x80" for c by (auto simp: simple_escape_def byte_def)
  have b: "byte CHR 0x5C < 0x80" "byte CHR ''u'' < 0x80" by (simp_all add: byte_def)
  have hs: "list_all is_hex w \<Longrightarrow> ascii w" for w using h unfolding ascii_def list_all_iff by blast
  obtain c r where s: "s = c # r" using assms(1) by (cases s) (simp_all add: str_unit_def)
  show ?thesis
  proof (cases "c = CHR 0x5C")
    case True
    then obtain e' r' where r: "r = e' # r'" using assms(1) s by (cases r) (simp_all add: str_unit_def)
    show ?thesis
    proof (cases "simple_escape e'")
      case True
      then have "u = [c, e']" using assms(1) s r \<open>c = CHR 0x5C\<close> by (simp add: str_unit_def)
      then show ?thesis using assms(2) \<open>c = CHR 0x5C\<close> b(1) e [OF True] by simp
    next
      case False
      then have u: "e' = CHR ''u''" "list_all is_hex (take 4 r')" "u = c # e' # take 4 r'"
        using assms(1) s r True by (simp_all add: str_unit_def split: if_splits)
      then show ?thesis using assms(2) b hs [OF u(2)] True by simp
    qed
  next
    case False
    then have "u = [c]" using assms(1) s by (simp add: str_unit_def split: if_splits)
    then show ?thesis using assms(2) by simp
  qed
qed

lemma transparent_ReplaceAll:
  assumes "wide old" "old \<noteq> []" "transparent new"
  shows "scan_str s = Some (l, q) \<Longrightarrow> transparent (ReplaceAll old new l)"
proof (induction "length s" arbitrary: s l rule: less_induct)
  case less
  show ?case
  proof (cases "l = []")
    case False
    then obtain u r l' where u: "str_unit s = Some (u, r)" "scan_str r = Some (l', q)" "l = u @ l'"
      using less.prems by (subst (asm) scan_str.simps) (auto split: if_splits option.splits)
    then have su: "s = u @ r" "u \<noteq> []" by (auto dest: str_unit_split)
    then have "length r < length s" by simp
    from less.hyps [OF this u(2)] have rest: "transparent (ReplaceAll old new l')" .
    have tu: "transparent u" using str_unit_extend [OF u(1), of "[]"] by (intro transparent_unit) simp
    show ?thesis
    proof (cases "ascii u")
      case True
      with u(3) assms(1) rest tu show ?thesis by (simp add: ReplaceAll_ascii transparent_append)
    next
      case False
      then obtain c where c: "u = [c]" "0x80 \<le> byte c" using str_unit_wide [OF u(1)] by blast
      show ?thesis
      proof (cases "take (length old) l = old")
        case True
        define l2 where "l2 = drop (length old) l"
        have l: "l = old @ l2" using True by (metis append_take_drop_id l2_def)
        have s: "s = old @ l2 @ CHR 0x22 # q" using scan_str_split [OF less.prems] l by simp
        have "transparent old" using assms(1) by (intro transparent_wide) (simp add: wide_def list_all_iff)
        then have "scan_str (l2 @ CHR 0x22 # q) = Some (l2, q)"
          using less.prems unfolding s l transparent_def by auto
        moreover have "length (l2 @ CHR 0x22 # q) < length s" using s assms(2) by simp
        ultimately have "transparent (ReplaceAll old new l2)" by (intro less.hyps)
        moreover have "ReplaceAll old new l = new @ ReplaceAll old new l2"
          using True assms(2) False l2_def u(3) c(1) by (cases l) simp_all
        ultimately show ?thesis using assms(3) by (simp add: transparent_append)
      next
        case False
        then have "ReplaceAll old new l = c # ReplaceAll old new l'" using u(3) c(1) by simp
        with transparent_append [OF tu rest] c show ?thesis by simp
      qed
    qed
  qed (simp add: transparent_Nil)
qed

lemma str_lexeme_transparent: "transparent l \<Longrightarrow> str_lexeme l"
  by (simp add: transparent_def str_lexeme_def scan_str_quote)

lemma str_lexeme_ReplaceAll: "wide old \<Longrightarrow> old \<noteq> [] \<Longrightarrow> transparent new \<Longrightarrow> str_lexeme l \<Longrightarrow> str_lexeme (ReplaceAll old new l)"
  unfolding str_lexeme_def [of l] by (blast intro: str_lexeme_transparent transparent_ReplaceAll)

lemma wf_map_lexemes: "(\<And>l. str_lexeme l \<Longrightarrow> str_lexeme (g l)) \<Longrightarrow> wf_json v \<Longrightarrow> wf_json (map_lexemes g v)"
proof (induction v)
  case (JArr vs)
  then show ?case by (simp add: list_all_iff)
next
  case (JObj ms)
  then show ?case by (fastforce simp: list_all_iff)
qed simp_all

lemma depth_map_lexemes [simp]: "depth (map_lexemes g v) = depth v"
proof (induction v)
  case (JArr vs)
  then have "map (\<lambda>v. depth (map_lexemes g v)) vs = map depth vs" by simp
  then show ?case by (simp only: map_lexemes.simps depth.simps map_map comp_def)
next
  case (JObj ms)
  then have "map (\<lambda>(k, v). depth (map_lexemes g v)) ms = map (\<lambda>(k, v). depth v) ms" by fastforce
  then have "map ((\<lambda>(k, v). depth v) \<circ> (\<lambda>(k, v). (g k, map_lexemes g v))) ms = map (\<lambda>(k, v). depth v) ms"
    by (simp only: comp_def case_prod_beta' fst_conv snd_conv)
  then show ?case by (simp only: map_lexemes.simps depth.simps map_map)
qed simp_all

lemma ReplaceAll_join:
  assumes "wide old" "ascii sep" "sep \<noteq> []"
  shows "ReplaceAll old new (join sep xs) = join sep (map (ReplaceAll old new) xs)"
proof (induction xs)
  case (Cons x xs)
  obtain c t where sep: "sep = c # t" using assms(3) by (cases sep) auto
  show ?case
  proof (cases "xs = []")
    case False
    have "ReplaceAll old new (x @ sep @ join sep xs) = ReplaceAll old new x @ sep @ ReplaceAll old new (join sep xs)"
      using assms sep ReplaceAll_split [OF assms(1), of c new x "t @ join sep xs"] by (simp add: ReplaceAll_ascii)
    with Cons False show ?thesis by (simp add: join_Cons)
  qed simp
qed simp

definition quoted :: "string \<Rightarrow> string" where
  "quoted l = CHR 0x22 # l @ [CHR 0x22]"

lemma byte_quote: "byte CHR 0x22 < 0x80"
  by (simp add: byte_def)

lemma ReplaceAll_quoted:
  assumes "wide old" "ascii t"
  shows "ReplaceAll old new (quoted l @ t) = quoted (ReplaceAll old new l) @ t"
  using assms ReplaceAll_split [OF assms(1) byte_quote, of new l t] ReplaceAll_append_ascii [OF assms, of new "[]"]
  by (simp add: quoted_def ReplaceAll_ascii_Cons byte_quote del: ReplaceAll.simps(2))

lemma ReplaceAll_enclosed:
  assumes "wide old" "ascii a" "ascii b"
  shows "ReplaceAll old new (a @ t @ b) = a @ ReplaceAll old new t @ b"
  using assms by (simp add: ReplaceAll_ascii ReplaceAll_append_ascii)

lemma punctuation_ascii: "ascii ''[''" "ascii '']''" "ascii ''{''" "ascii ''}''" "ascii '',''" "ascii '': ''" "ascii '':''"
  "ascii ''[]''" "ascii ''{}''" "ascii ''null''" "ascii ''true''" "ascii ''false''"
  by (simp_all add: ascii_def byte_def)

lemma ReplaceAll_ascii_only: "wide old \<Longrightarrow> ascii a \<Longrightarrow> ReplaceAll old new a = a"
  using ReplaceAll_ascii [of old a new "[]"] by simp

lemma ReplaceAll_member:
  assumes "wide old" "ascii sep"
  shows "ReplaceAll old new (quoted k @ sep @ t) = quoted (ReplaceAll old new k) @ sep @ ReplaceAll old new t"
proof -
  have "ReplaceAll old new (quoted k @ sep @ t) = CHR 0x22 # ReplaceAll old new (k @ CHR 0x22 # sep @ t)"
    using assms by (simp add: quoted_def ReplaceAll_ascii_Cons byte_quote del: ReplaceAll.simps(2))
  then show ?thesis
    using assms by (simp add: ReplaceAll_split byte_quote ReplaceAll_ascii quoted_def del: ReplaceAll.simps(2))
qed

definition scalar :: "json \<Rightarrow> bool" where
  "scalar v \<longleftrightarrow> (\<forall>vs. v \<noteq> JArr vs) \<and> (\<forall>ms. v \<noteq> JObj ms)"

lemma scalar_simps [simp]: "scalar JNull" "scalar (JBool b)" "scalar (JNum l)" "scalar (JStr l)"
  "\<not> scalar (JArr vs)" "\<not> scalar (JObj ms)"
  by (simp_all add: scalar_def)

lemma ReplaceAll_scalar:
  assumes "wide old" "scalar v" "wf_json v"
  shows "ReplaceAll old new (print_json v) = print_json (map_lexemes (ReplaceAll old new) v)"
proof -
  note a = ReplaceAll_ascii_only [OF assms(1)]
  show ?thesis
  proof (cases v)
    case (JStr l)
    then show ?thesis using ReplaceAll_quoted [OF assms(1), of "[]" new l] by (simp add: quoted_def)
  next
    case (JNum l)
    with assms(3) a show ?thesis by (simp add: num_lexeme_ascii)
  next
    case (JBool b)
    then show ?thesis
      using a [OF punctuation_ascii(11)] a [OF punctuation_ascii(12)] by (cases b) (simp_all only: print_json.simps map_lexemes.simps if_True if_False)
  next
    case JNull
    then show ?thesis using a [OF punctuation_ascii(10)] by (simp only: print_json.simps map_lexemes.simps)
  qed (use assms in simp_all)
qed

lemma indented_scalar: "scalar v \<Longrightarrow> indented w n v = print_json v" "scalar v \<Longrightarrow> scalar (map_lexemes g v)"
  by (cases v; simp)+

lemma ReplaceAll_print:
  assumes "wide old"
  shows "wf_json v \<Longrightarrow> ReplaceAll old new (print_json v) = print_json (map_lexemes (ReplaceAll old new) v)"
proof (induction v)
  case (JArr vs)
  have "map (ReplaceAll old new) (map print_json vs) = map (\<lambda>v. print_json (map_lexemes (ReplaceAll old new) v)) vs"
    using JArr by (simp add: list_all_iff)
  then show ?case
    by (simp only: print_json.simps map_lexemes.simps ReplaceAll_enclosed [OF assms punctuation_ascii(1,2)]
        ReplaceAll_join [OF assms punctuation_ascii(5)] map_map comp_def list.simps not_False_eq_True)
next
  case (JObj ms)
  have t: "member_text (k, v) = quoted k @ '':'' @ print_json v" for k v
    by (simp add: member_text_def quoted_def)
  have "\<forall>m \<in> set ms. ReplaceAll old new (member_text m) = member_text (ReplaceAll old new (fst m), map_lexemes (ReplaceAll old new) (snd m))"
  proof
    fix m assume m: "m \<in> set ms"
    obtain k v where kv: "m = (k, v)" by (cases m)
    have "wf_json v" using JObj.prems m kv by (auto simp: list_all_iff)
    then have "ReplaceAll old new (print_json v) = print_json (map_lexemes (ReplaceAll old new) v)"
      using JObj.IH [of m v] m kv by simp
    then show "ReplaceAll old new (member_text m) = member_text (ReplaceAll old new (fst m), map_lexemes (ReplaceAll old new) (snd m))"
      unfolding kv fst_conv snd_conv t by (simp only: ReplaceAll_member [OF assms punctuation_ascii(7)])
  qed
  then have "map (ReplaceAll old new) (map member_text ms)
      = map member_text (map (\<lambda>(k, v). (ReplaceAll old new k, map_lexemes (ReplaceAll old new) v)) ms)"
    by (simp add: case_prod_beta')
  then show ?case
    by (simp only: print_JObj map_lexemes.simps ReplaceAll_enclosed [OF assms punctuation_ascii(3,4)]
        ReplaceAll_join [OF assms punctuation_ascii(5)] list.simps not_False_eq_True)
qed (rule ReplaceAll_scalar [OF assms]; simp)+

lemma ReplaceAll_indented:
  assumes "wide old" "white w"
  shows "wf_json v \<Longrightarrow> ReplaceAll old new (indented w n v) = indented w n (map_lexemes (ReplaceAll old new) v)"
proof (induction v arbitrary: n)
  case (JArr vs)
  show ?case
  proof (cases "vs = []")
    case False
    have "map (ReplaceAll old new) (map (indented w (Suc n)) vs)
        = map (indented w (Suc n)) (map (map_lexemes (ReplaceAll old new)) vs)"
      using JArr by (simp add: list_all_iff)
    moreover have "ascii (''['' @ newline w (Suc n))" "ascii (newline w n @ '']'')" "ascii (CHR '','' # newline w (Suc n))"
      using assms(2) punctuation_ascii(1,2,5) by (simp_all add: ascii_newline)
    ultimately show ?thesis
      using False ReplaceAll_enclosed [OF assms(1), of "''['' @ newline w (Suc n)" "newline w n @ '']''"]
        ReplaceAll_join [OF assms(1), of "CHR '','' # newline w (Suc n)"]
      by (simp del: ReplaceAll.simps(2) map_map list.map_comp)
  next
    case True
    then show ?thesis
      using ReplaceAll_ascii_only [OF assms(1) punctuation_ascii(8)] by (simp del: ReplaceAll.simps(2))
  qed
next
  case (JObj ms)
  show ?case
  proof (cases "ms = []")
    case False
    have t: "member_line w k (a, v) = quoted a @ '': '' @ indented w k v" for k a v
      by (simp add: member_line_def quoted_def)
    have "\<forall>m \<in> set ms. ReplaceAll old new (member_line w (Suc n) m)
        = member_line w (Suc n) (ReplaceAll old new (fst m), map_lexemes (ReplaceAll old new) (snd m))"
    proof
      fix m assume m: "m \<in> set ms"
      obtain k v where kv: "m = (k, v)" by (cases m)
      have "wf_json v" using JObj.prems m kv by (auto simp: list_all_iff)
      then have "ReplaceAll old new (indented w (Suc n) v) = indented w (Suc n) (map_lexemes (ReplaceAll old new) v)"
        using JObj.IH [of m v] m kv by simp
      then show "ReplaceAll old new (member_line w (Suc n) m)
          = member_line w (Suc n) (ReplaceAll old new (fst m), map_lexemes (ReplaceAll old new) (snd m))"
        unfolding kv fst_conv snd_conv t by (simp only: ReplaceAll_member [OF assms(1) punctuation_ascii(6)])
    qed
    then have m: "map (ReplaceAll old new) (map (member_line w (Suc n)) ms)
        = map (member_line w (Suc n)) (map (\<lambda>(k, v). (ReplaceAll old new k, map_lexemes (ReplaceAll old new) v)) ms)"
      by (simp add: case_prod_beta')
    have a: "ascii (''{'' @ newline w (Suc n))" "ascii (newline w n @ ''}'')" "ascii (CHR '','' # newline w (Suc n))"
      using assms(2) punctuation_ascii(3,4,5) by (simp_all add: ascii_newline)
    have "indented w n (JObj ms) = (''{'' @ newline w (Suc n))
        @ join (CHR '','' # newline w (Suc n)) (map (member_line w (Suc n)) ms) @ (newline w n @ ''}'')"
      unfolding indented_JObj [OF False] by simp
    moreover have "indented w n (map_lexemes (ReplaceAll old new) (JObj ms)) = (''{'' @ newline w (Suc n))
        @ join (CHR '','' # newline w (Suc n))
            (map (member_line w (Suc n)) (map (\<lambda>(k, v). (ReplaceAll old new k, map_lexemes (ReplaceAll old new) v)) ms))
        @ (newline w n @ ''}'')"
      using False unfolding map_lexemes.simps by (subst indented_JObj) simp_all
    ultimately show ?thesis
      using ReplaceAll_enclosed [OF assms(1) a(1,2)] ReplaceAll_join [OF assms(1) a(3)] m
      by (simp only: list.distinct not_False_eq_True)
  next
    case True
    then show ?thesis
      using ReplaceAll_ascii_only [OF assms(1) punctuation_ascii(9)] by (simp del: ReplaceAll.simps(2))
  qed
qed (simp only: indented_scalar scalar_simps; rule ReplaceAll_scalar [OF assms(1)]; simp)+

section \<open>What \<open>marshalJSON\<close> writes\<close>

lemma wide_separators: "wide line_separator" "wide paragraph_separator"
  by (simp_all add: wide_def line_separator_def paragraph_separator_def byte_def)

lemma separators_nonempty: "line_separator \<noteq> []" "paragraph_separator \<noteq> []"
  by (simp_all add: line_separator_def paragraph_separator_def)

lemma map_lexemes_comp: "map_lexemes g (map_lexemes h v) = map_lexemes (\<lambda>l. g (h l)) v"
  by (induction v) (auto split: prod.splits; fastforce)+

lemma str_lexeme_escape_separators: "str_lexeme l \<Longrightarrow> str_lexeme (escape_separators l)"
  unfolding escape_separators_def
  by (intro str_lexeme_ReplaceAll wide_separators separators_nonempty transparent_u_escape)

lemma str_lexeme_escape_first: "str_lexeme l \<Longrightarrow> str_lexeme (ReplaceAll line_separator (u_escape 0x2028) l)"
  by (intro str_lexeme_ReplaceAll wide_separators separators_nonempty transparent_u_escape)

definition settled :: "json \<Rightarrow> json" where
  "settled v = map_lexemes escape_separators v"

lemma settled_wf: "wf_json v \<Longrightarrow> wf_json (settled v)"
  unfolding settled_def by (rule wf_map_lexemes) (rule str_lexeme_escape_separators)

lemma depth_settled [simp]: "depth (settled v) = depth v"
  by (simp add: settled_def)

lemma settled_eq: "settled v = map_lexemes (ReplaceAll paragraph_separator (u_escape 0x2029))
    (map_lexemes (ReplaceAll line_separator (u_escape 0x2028)) v)"
  by (simp add: settled_def map_lexemes_comp escape_separators_def [abs_def])

lemma escape_print:
  assumes "wf_json v" "ascii t"
  shows "escape_separators (print_json v @ t) = print_json (settled v) @ t"
proof -
  have "wf_json (map_lexemes (ReplaceAll line_separator (u_escape 0x2028)) v)"
    using assms(1) by (intro wf_map_lexemes str_lexeme_escape_first)
  with assms show ?thesis
    unfolding escape_separators_def settled_eq
    by (simp only: ReplaceAll_append_ascii wide_separators ReplaceAll_print)
qed

lemma escape_indented:
  assumes "wf_json v" "ascii t" "white w"
  shows "escape_separators (indented w n v @ t) = indented w n (settled v) @ t"
proof -
  have "wf_json (map_lexemes (ReplaceAll line_separator (u_escape 0x2028)) v)"
    using assms(1) by (intro wf_map_lexemes str_lexeme_escape_first)
  with assms show ?thesis
    unfolding escape_separators_def settled_eq
    by (simp only: ReplaceAll_append_ascii wide_separators ReplaceAll_indented)
qed

lemma ascii_end: "ascii [CHR 0x0A]"
  by (simp add: byte_def)

lemma marshalCompact_eq: "wf_json v \<Longrightarrow> marshalCompact v = Inr (print_json (settled v))"
  by (simp add: marshalCompact_def marshalJSON_def escape_print [OF _ ascii_end] TrimSuffix_def)

lemma marshalJSON_eq:
  "wf_json v \<Longrightarrow> white w \<Longrightarrow> w \<noteq> [] \<Longrightarrow> depth v \<le> max_nesting \<Longrightarrow>
     marshalJSON v w = Inr (indented w 0 (settled v) @ [CHR 0x0A])"
  by (simp add: marshalJSON_def escape_indented [OF _ ascii_end])

lemma marshalJSON_parse:
  assumes "wf_json v" "white w" "w \<noteq> []" "marshalJSON v w = Inr b"
  shows "parse_json b = Some (settled v)" "depth v \<le> max_nesting"
proof -
  show d: "depth v \<le> max_nesting" using assms(3,4) by (simp add: marshalJSON_def split: if_splits)
  have b: "b = indented w 0 (settled v) @ [CHR 0x0A]"
    using marshalJSON_eq [OF assms(1-3) d] assms(4) by simp
  have "num_end [CHR 0x0A]" by (simp add: num_end_def is_digit_def between_def byte_def)
  then show "parse_json b = Some (settled v)"
    unfolding b parse_json_def
    using reads_inD [OF reads_in_wf [OF settled_wf [OF assms(1)] assms(2)], of max_nesting "[CHR 0x0A]" 0] d
    by (simp add: is_ws_def del: parse_value.simps)
qed

text \<open>A string the encoder spells carries no separator to escape: a rune of it is either escaped
  already or another rune, and no rune ends in the first byte of a separator.\<close>

lemma ReplaceAll_pass:
  assumes "\<forall>c \<in> set w. c \<noteq> hd old" "old \<noteq> []"
  shows "ReplaceAll old new (w @ s) = w @ ReplaceAll old new s"
  using assms by (induction w) (auto simp: neq_Nil_conv)

lemma ReplaceAll_head:
  assumes "take (length old) (c # s) \<noteq> old"
  shows "ReplaceAll old new (c # s) = c # ReplaceAll old new s"
  using assms by simp

lemma ReplaceAll_rune:
  assumes "s \<noteq> []" "decode_rune s = (r, n)" "\<not> (r = RuneError \<and> n \<le> 1)" "take n s \<noteq> old"
    "old = [CHR 0xE2, CHR 0x80, z]"
  shows "ReplaceAll old new (take n s @ t) = take n s @ ReplaceAll old new t"
proof -
  have e2: "c \<noteq> CHR 0xE2" if "byte c < 0xE2 \<or> 0xE2 < byte c" for c using that by (auto simp: byte_def)
  have hd: "hd old = CHR 0xE2" "old \<noteq> []" using assms(5) by simp_all
  from assms(1-3) show ?thesis
  proof (cases rule: decode_rune_cases)
    case (one c q)
    then have "c \<noteq> CHR 0xE2" by (intro e2) simp
    with one hd show ?thesis by (subst ReplaceAll_pass) simp_all
  next
    case (two c0 c1 q)
    then have "c0 \<noteq> CHR 0xE2" "c1 \<noteq> CHR 0xE2" by (auto intro!: e2 simp: between_def)
    with two hd show ?thesis by (subst ReplaceAll_pass) simp_all
  next
    case (three c0 c1 c2 q)
    have c12: "c1 \<noteq> CHR 0xE2" "c2 \<noteq> CHR 0xE2" using three by (auto intro!: e2 simp: between_def split: if_splits)
    have "take 3 (c0 # c1 # c2 # t) \<noteq> old" using assms(4) three by simp
    then have "ReplaceAll old new (c0 # c1 # c2 # t) = c0 # ReplaceAll old new ([c1, c2] @ t)"
      using assms(5) by (subst ReplaceAll_head) simp_all
    also have "\<dots> = c0 # [c1, c2] @ ReplaceAll old new t"
      using c12 hd by (subst ReplaceAll_pass) simp_all
    finally show ?thesis using three by simp
  next
    case (four c0 c1 c2 c3 q)
    then have "c0 \<noteq> CHR 0xE2" "c1 \<noteq> CHR 0xE2" "c2 \<noteq> CHR 0xE2" "c3 \<noteq> CHR 0xE2"
      by (auto intro!: e2 simp: between_def split: if_splits)
    with four hd show ?thesis by (subst ReplaceAll_pass) simp_all
  qed
qed

lemma decode_separator:
  assumes "old = [CHR 0xE2, CHR 0x80, char_of (0x80 + y :: nat)]" "y < 0x40"
  shows "decode_rune (old @ t) = (0x2000 + y, 3)"
  using assms by (simp add: decode_rune_def Let_def between_def byte_of_char) (simp add: byte_def)

lemma ascii_u_escape: "ascii (u_escape k)"
proof -
  have "byte (hex_digit m) < 0x80" if "m < 16" for m
    using that by (simp add: hex_digit_def byte_def)
  then show ?thesis by (simp add: u_escape_def byte_def)
qed

lemma quote_rune_ascii_text: "r < 0x80 \<Longrightarrow> ascii (quote_rune h (r, w))"
  using ascii_u_escape by (auto simp: quote_rune_def byte_def)

lemma ReplaceAll_quote_rune:
  assumes "s \<noteq> []" "decode_rune s = (r, n)"
    "old = [CHR 0xE2, CHR 0x80, char_of (0x80 + y :: nat)]" "0x28 \<le> y" "y \<le> 0x29"
  shows "ReplaceAll old new (quote_rune h (r, take n s) @ t) = quote_rune h (r, take n s) @ ReplaceAll old new t"
proof -
  have w: "wide old" using assms(3-5) by (auto simp: wide_def byte_def)
  note a = ReplaceAll_ascii [OF w]
  have n: "n \<le> length s" "0 < n" using decode_rune_width [OF assms(1)] assms(2) by simp_all
  show ?thesis
  proof (cases "r < 0x80 \<or> (r = RuneError \<and> n \<le> 1) \<or> r = 0x2028 \<or> r = 0x2029")
    case True
    then have "ascii (quote_rune h (r, take n s))"
      using ascii_u_escape n quote_rune_ascii_text by (auto simp: quote_rune_def RuneError_def)
    then show ?thesis by (rule a)
  next
    case False
    then have "quote_rune h (r, take n s) = take n s" using n by (auto simp: quote_rune_def)
    moreover have "take n s \<noteq> old"
    proof
      assume "take n s = old"
      moreover from this have "s = old @ drop n s" by (metis append_take_drop_id)
      ultimately have "r = 0x2000 + y" using decode_separator [OF assms(3), of "drop n s"] assms(2,5) by simp
      with False assms(4,5) show False by auto
    qed
    ultimately show ?thesis
      using ReplaceAll_rune [OF assms(1,2) _ _ assms(3)] False by simp
  qed
qed

lemma ReplaceAll_quote_body:
  assumes "old = [CHR 0xE2, CHR 0x80, char_of (0x80 + y :: nat)]" "0x28 \<le> y" "y \<le> 0x29"
  shows "ReplaceAll old new (quote_body h s) = quote_body h s"
proof -
  have "ReplaceAll old new (concat (map (quote_rune h) us)) = concat (map (quote_rune h) us)"
    if "set us \<subseteq> set (runes s)" for us
    using that
  proof (induction us)
    case (Cons u us)
    obtain r w where u: "u = (r, w)" by (cases u)
    then have "(r, w) \<in> set (runes s)" using Cons.prems by simp
    then obtain s' n where "s' \<noteq> []" "decode_rune s' = (r, n)" "w = take n s'" by (blast dest: runes_decode)
    with Cons u ReplaceAll_quote_rune [OF _ _ assms] show ?case by simp
  qed simp
  then show ?thesis by (simp add: quote_body_def)
qed

lemma escape_quote_body [simp]: "escape_separators (quote_body h s) = quote_body h s"
proof -
  have e: "line_separator = [CHR 0xE2, CHR 0x80, char_of (0x80 + 0x28 :: nat)]"
    "paragraph_separator = [CHR 0xE2, CHR 0x80, char_of (0x80 + 0x29 :: nat)]"
    by (simp_all add: line_separator_def paragraph_separator_def char_of_eqI [symmetric] byte_def)
  show ?thesis
    unfolding escape_separators_def ReplaceAll_quote_body [OF e(1) order_refl, simplified]
    by (rule ReplaceAll_quote_body [OF e(2)]) simp_all
qed

section \<open>Escaping the separators is exact\<close>

lemma ReplaceAll_cont:
  assumes "list_all (\<lambda>c. between 0x80 c 0xBF) (take m (ReplaceAll old new s))" "m \<le> length (ReplaceAll old new s)"
    "new \<noteq> []" "byte (hd new) < 0x80"
  shows "take m (ReplaceAll old new s) = take m s \<and> m \<le> length s"
  using assms
proof (induction m arbitrary: s)
  case (Suc m)
  then obtain c t where s: "s = c # t" by (cases s) auto
  have no: "\<not> (old \<noteq> [] \<and> take (length old) s = old)"
  proof
    assume "old \<noteq> [] \<and> take (length old) s = old"
    then have "ReplaceAll old new s = new @ ReplaceAll old new (drop (length old) s)" using s by simp
    with Suc.prems(1,3,4) show False by (cases new) (auto simp: between_def)
  qed
  then have "ReplaceAll old new s = c # ReplaceAll old new t" using s by auto
  with Suc.IH [of t] Suc.prems s show ?case by simp
qed simp

lemma decode_rune_conts:
  assumes "s \<noteq> []" "decode_rune s = (r, n)" "\<not> (r = RuneError \<and> n \<le> 1)"
  shows "list_all (\<lambda>c. between 0x80 c 0xBF) (take (n - 1) (tl s)) \<and> 0 < n \<and> n \<le> length s"
  using assms
proof (cases rule: decode_rune_cases)
  case (three c0 c1 c2 t)
  then show ?thesis by (auto simp: between_def split: if_splits)
next
  case (four c0 c1 c2 c3 t)
  then show ?thesis by (auto simp: between_def split: if_splits)
qed auto

lemma decode_rune_replaced:
  assumes "decode_rune (c # r) = (RuneError, 1)" "new \<noteq> []" "byte (hd new) < 0x80"
  shows "decode_rune (c # ReplaceAll old new r) = (RuneError, 1)"
proof (rule ccontr)
  assume bad: "decode_rune (c # ReplaceAll old new r) \<noteq> (RuneError, 1)"
  obtain x n where xn: "decode_rune (c # ReplaceAll old new r) = (x, n)" by fastforce
  have n0: "0 < n" using decode_rune_width [of "c # ReplaceAll old new r"] xn by simp
  have valid: "\<not> (x = RuneError \<and> n \<le> 1)" using bad xn n0 by auto
  have k: "list_all (\<lambda>c. between 0x80 c 0xBF) (take (n - 1) (ReplaceAll old new r))" "n - 1 \<le> length (ReplaceAll old new r)"
    using decode_rune_conts [OF _ xn valid] by auto
  have "take (n - 1) (ReplaceAll old new r) = take (n - 1) r"
    using ReplaceAll_cont [OF k assms(2,3)] by simp
  then have "take n (c # ReplaceAll old new r) @ drop (n - 1) r = c # r"
    using n0 by (cases n) simp_all
  then have "decode_rune (c # r) = (x, n)"
    using decode_rune_prefix [OF _ xn valid, of "drop (n - 1) r"] by simp
  with assms(1) valid show False by simp
qed

lemma u_escape_head: "u_escape k = CHR 0x5C # tl (u_escape k)" "u_escape k \<noteq> []" "byte (hd (u_escape k)) < 0x80"
  by (simp_all add: u_escape_def byte_def)

lemma str_unit_backslash:
  assumes "str_unit (CHR 0x5C # r) = Some (u, q)"
  obtains (esc) e where "simple_escape e" "u = [CHR 0x5C, e]" "r = e # q"
  | (hex) h1 h2 h3 h4 where "u = [CHR 0x5C, CHR ''u'', h1, h2, h3, h4]" "r = CHR ''u'' # h1 # h2 # h3 # h4 # q"
      "is_hex h1" "is_hex h2" "is_hex h3" "is_hex h4"
proof -
  obtain e r' where r: "r = e # r'" using assms by (cases r) (simp_all add: str_unit_def)
  show thesis
  proof (cases "simple_escape e")
    case True
    with assms r esc show thesis by (simp add: str_unit_def)
  next
    case False
    with assms r have e: "e = CHR ''u''" "length (take 4 r') = 4" "list_all is_hex (take 4 r')" "u = CHR 0x5C # e # take 4 r'" "q = drop 4 r'"
      by (simp_all add: str_unit_def split: if_splits)
    then obtain h1 h2 h3 h4 where "take 4 r' = [h1, h2, h3, h4]"
      by (auto simp: length_Suc_conv numeral_eq_Suc simp del: length_take)
    moreover have "r' = take 4 r' @ q" using e by simp
    ultimately show thesis using e r hex by simp
  qed
qed

lemma scan_str_step:
  assumes "scan_str s = Some (l, q)" "l \<noteq> []"
  obtains u r l' where "str_unit s = Some (u, r)" "l = u @ l'" "scan_str r = Some (l', q)"
proof -
  have "(if take 1 s = [CHR 0x22] then Some ([], drop 1 s)
      else (case str_unit s of
              None \<Rightarrow> None
            | Some (u, q) \<Rightarrow> map_option (\<lambda>(l, t). (u @ l, t)) (scan_str q))) = Some (l, q)"
    using assms(1) scan_str.simps [of s] by simp
  with assms(2) that show thesis by (fastforce split: if_splits option.splits)
qed

lemma unquote_wide_step:
  assumes "decode_rune (c # t) = (ru, n)" "c \<noteq> CHR 0x5C" "0x80 \<le> byte c"
  shows "unquote (c # t) = encode_rune ru @ unquote (drop n (c # t))"
  using assms by (subst unquote.simps) simp

lemma decode_high:
  assumes "decode_rune (c # t) = (ru, n)" "0x80 \<le> byte c" "\<not> (ru = RuneError \<and> n \<le> 1)"
  shows "0x80 \<le> ru"
proof (rule ccontr)
  assume "\<not> 0x80 \<le> ru"
  then have "c # t = char_of ru # t" "ru < 0x80" using decode_rune_ascii_iff [OF _ assms(1)] by simp_all
  with assms(2) show False by (simp add: byte_of_char)
qed

locale separator =
  fixes old :: string and x y :: nat
  assumes old: "old = [CHR 0xE2, CHR 0x80, char_of (0x80 + y :: nat)]" and y: "0x28 \<le> y" "y \<le> 0x29"
    and x: "x = 0x2000 + y"
begin

lemma wide_old: "wide old"
  using y by (auto simp: old wide_def byte_def)

lemma pass_ascii: "ascii a \<Longrightarrow> ReplaceAll old new (a @ s) = a @ ReplaceAll old new s"
  by (rule ReplaceAll_ascii [OF wide_old])

lemma hit: "ReplaceAll old new (old @ s) = new @ ReplaceAll old new s"
  by (simp add: old)

lemma hex_ascii: "is_hex c \<Longrightarrow> byte c < 0x80"
  by (auto simp: is_hex_def is_digit_def between_def)

lemma esc_ascii: "simple_escape c \<Longrightarrow> byte c < 0x80"
  by (auto simp: simple_escape_def byte_def)

lemma low_surrogate_replaced:
  assumes "scan_str s = Some (l, q)"
  shows "low_surrogate (ReplaceAll old (u_escape x) l) = map_option (\<lambda>(u, t). (u, ReplaceAll old (u_escape x) t)) (low_surrogate l)"
proof (cases l)
  case Nil
  then show ?thesis by (simp add: low_surrogate_def)
next
  case (Cons c r)
  show ?thesis
  proof (cases "c = CHR 0x5C")
    case False
    then have none: "low_surrogate l = None" by (simp add: Cons low_surrogate_def split: list.splits)
    show ?thesis
    proof (cases "take (length old) l = old")
      case True
      then have "l = old @ drop (length old) l" by (metis append_take_drop_id)
      then have "ReplaceAll old (u_escape x) l = u_escape x @ ReplaceAll old (u_escape x) (drop (length old) l)"
        by (metis hit)
      moreover have "hex4 (hex_digit (x div 4096 mod 16)) (hex_digit (x div 256 mod 16)) (hex_digit (x div 16 mod 16)) (hex_digit (x mod 16)) = x"
        using y by (intro hex4_digits) (simp add: x)
      then have "low_surrogate (u_escape x @ t) = None" for t
        using y unfolding u_escape_def by (simp add: low_surrogate_def) (simp add: x)
      ultimately show ?thesis by (simp add: none)
    next
      case neq: False
      then have "ReplaceAll old (u_escape x) l = c # ReplaceAll old (u_escape x) r" by (simp add: Cons)
      with False none show ?thesis by (simp add: low_surrogate_def split: list.splits)
    qed
  next
    case True
    obtain u r' l' where u: "str_unit s = Some (u, r')" "l = u @ l'"
      using scan_str_step [OF assms] Cons by blast
    then have "str_unit (CHR 0x5C # tl l) = Some (u, l')"
    proof -
      have "str_unit l = Some (u, l')" using str_unit_extend [OF u(1), of l'] u(2) by simp
      moreover have "l = CHR 0x5C # tl l" using Cons True by simp
      ultimately show ?thesis by metis
    qed
    then show ?thesis
    proof (cases rule: str_unit_backslash)
      case (esc e)
      then have "e \<noteq> CHR ''u''" by (auto simp: simple_escape_def)
      moreover have "ReplaceAll old (u_escape x) ([CHR 0x5C, e] @ l') = [CHR 0x5C, e] @ ReplaceAll old (u_escape x) l'"
        using esc_ascii [OF esc(1)] by (intro pass_ascii) (simp add: byte_def)
      ultimately show ?thesis using esc u(2) by (simp add: low_surrogate_def split: list.splits del: ReplaceAll.simps)
    next
      case (hex h1 h2 h3 h4)
      have "ReplaceAll old (u_escape x) ([CHR 0x5C, CHR ''u'', h1, h2, h3, h4] @ l')
          = [CHR 0x5C, CHR ''u'', h1, h2, h3, h4] @ ReplaceAll old (u_escape x) l'"
        using hex hex_ascii by (intro pass_ascii) (simp add: byte_def [of "CHR 0x5C"] byte_def [of "CHR ''u''"])
      then show ?thesis using hex u(2) by (simp add: low_surrogate_def del: ReplaceAll.simps)
    qed
  qed
qed

lemma unquote_hex:
  "unquote (CHR 0x5C # CHR ''u'' # h1 # h2 # h3 # h4 # q) =
     (let u = hex4 h1 h2 h3 h4 in
      if 0xD800 \<le> u \<and> u \<le> 0xDFFF then
        (case low_surrogate q of
           Some (u2, t) \<Rightarrow>
             if u \<le> 0xDBFF
             then encode_rune (0x10000 + (u - 0xD800) * 1024 + (u2 - 0xDC00)) @ unquote t
             else encode_rune RuneError @ unquote q
         | None \<Rightarrow> encode_rune RuneError @ unquote q)
      else encode_rune u @ unquote q)"
  by (subst unquote.simps) (simp only: list.case if_True refl)

lemma unquote_replaced: "scan_str s = Some (l, q) \<Longrightarrow> unquote (ReplaceAll old (u_escape x) l) = unquote l"
proof (induction "length l" arbitrary: s l rule: less_induct)
  case less
  let ?R = "ReplaceAll old (u_escape x)"
  show ?case
  proof (cases l)
    case l: (Cons c r)
    have s: "s = l @ CHR 0x22 # q" using less.prems by (rule scan_str_split)
    have rest: "unquote (?R l') = unquote l'" if "l = w @ l'" "w \<noteq> []" "transparent w" for w l'
    proof -
      have "scan_str (l' @ CHR 0x22 # q) = Some (l', q)"
        using less.prems that(3) unfolding s that(1) transparent_def by auto
      moreover have "length l' < length l" using that by simp
      ultimately show ?thesis by (rule less.hyps [rotated])
    qed
    obtain u r' l1 where u: "str_unit s = Some (u, r')" "l = u @ l1" "scan_str r' = Some (l1, q)"
      using scan_str_step [OF less.prems] l by blast
    have ul: "str_unit l = Some (u, l1)" using str_unit_extend [OF u(1), of l1] u(2) by simp
    have tu: "transparent u" "u \<noteq> []" using str_unit_extend [OF u(1), of "[]"] str_unit_split [OF u(1)] by (auto intro: transparent_unit)
    have n1: "length r' < length s" using str_unit_split [OF u(1)] by simp
    note IH1 = rest [OF u(2) tu(2,1)]
    consider (sep) "take (length old) l = old" | (esc) "c = CHR 0x5C" "take (length old) l \<noteq> old"
      | (plain) "c \<noteq> CHR 0x5C" "byte c < 0x80" | (wide) "c \<noteq> CHR 0x5C" "0x80 \<le> byte c" "take (length old) l \<noteq> old"
      by linarith
    then show ?thesis
    proof cases
      case sep
      define l2 where "l2 = drop (length old) l"
      have l2: "l = old @ l2" using sep by (metis append_take_drop_id l2_def)
      have "transparent old" using wide_old by (intro transparent_wide) (simp add: wide_def list_all_iff)
      then have IH: "unquote (?R l2) = unquote l2" using l2 old by (intro rest) simp_all
      have "unquote (?R l) = encode_rune x @ unquote (?R l2)"
      proof -
        have "?R l = u_escape x @ ?R l2" using l2 by (metis hit)
        then show ?thesis using unquote_u_escape [of x] y by (simp add: x)
      qed
      moreover have "unquote l = encode_rune x @ unquote l2"
      proof -
        have d: "decode_rune (CHR 0xE2 # [CHR 0x80, char_of (0x80 + y)] @ l2) = (x, 3)"
          using decode_separator [OF old, of l2] y by (simp add: old x)
        have "l = CHR 0xE2 # [CHR 0x80, char_of (0x80 + y)] @ l2" using l2 old by simp
        then show ?thesis
          by (simp only:) (subst unquote.simps, simp add: d [simplified] byte_def)
      qed
      ultimately show ?thesis using IH by simp
    next
      case plain
      then have "?R l = c # ?R r" using wide_old unfolding l by (intro ReplaceAll_ascii_Cons)
      moreover have "u = [c]" "l1 = r" using ul plain l by (auto simp: str_unit_def split: if_splits)
      ultimately show ?thesis using IH1 plain l by (simp add: unquote_plain)
    next
      case esc
      from ul have "str_unit (CHR 0x5C # r) = Some (u, l1)" using l esc by simp
      then show ?thesis
      proof (cases rule: str_unit_backslash)
        case (esc e)
        have "?R ([CHR 0x5C, e] @ l1) = [CHR 0x5C, e] @ ?R l1"
          using esc_ascii [OF esc(1)] by (intro pass_ascii) (simp add: byte_def)
        then show ?thesis using esc(1,2) IH1 u(2) by (simp add: unquote_escape del: ReplaceAll.simps)
      next
        case (hex h1 h2 h3 h4)
        have pass: "?R (u @ l1) = u @ ?R l1"
          using hex hex_ascii by (intro pass_ascii) (simp add: byte_def [of "CHR 0x5C"] byte_def [of "CHR ''u''"])
        have low: "low_surrogate (?R l1) = map_option (\<lambda>(u, t). (u, ?R t)) (low_surrogate l1)"
          using u(3) by (rule low_surrogate_replaced)
        have t: "unquote (?R t) = unquote t" if "low_surrogate l1 = Some (u2, t)" for u2 t
        proof -
          obtain g1 g2 g3 g4 where g: "l1 = [CHR 0x5C, CHR ''u'', g1, g2, g3, g4] @ t" "is_hex g1" "is_hex g2" "is_hex g3" "is_hex g4"
            using \<open>low_surrogate l1 = Some (u2, t)\<close> by (auto simp: low_surrogate_def split: list.splits if_splits)
          have "transparent [CHR 0x5C, CHR ''u'', g1, g2, g3, g4]"
            using g by (intro transparent_unit) (simp add: str_unit_def simple_escape_def)
          then have "transparent (u @ [CHR 0x5C, CHR ''u'', g1, g2, g3, g4])" by (rule transparent_append [OF tu(1)])
          moreover have "l = (u @ [CHR 0x5C, CHR ''u'', g1, g2, g3, g4]) @ t" using u(2) g(1) by simp
          ultimately show ?thesis by (intro rest) simp_all
        qed
        have eR: "?R l = CHR 0x5C # CHR ''u'' # h1 # h2 # h3 # h4 # ?R l1" using pass u(2) hex(1) by simp
        have el: "l = CHR 0x5C # CHR ''u'' # h1 # h2 # h3 # h4 # l1" using u(2) hex(1) by simp
        note eR' = arg_cong [OF eR, of unquote] and el' = arg_cong [OF el, of unquote]
        show ?thesis
        proof (cases "low_surrogate l1")
          case None
          then show ?thesis
            unfolding eR' el' unquote_hex low by (simp only: option.map option.case IH1 Let_def)
        next
          case (Some p)
          obtain u2 t' where p: "p = (u2, t')" by (cases p)
          have "unquote (?R t') = unquote t'" using Some p by (intro t) simp
          with Some p show ?thesis
            unfolding eR' el' unquote_hex low by (simp only: option.map option.case prod.case IH1 Let_def)
        qed
      qed
    next
      case wide
      obtain ru n where d: "decode_rune l = (ru, n)" by fastforce
      have un: "unquote l = encode_rune ru @ unquote (drop n l)"
        using wide d l by (subst unquote.simps) simp
      have n: "0 < n" "n \<le> length l" using decode_rune_width [of l] d l by simp_all
      show ?thesis
      proof (cases "ru = RuneError \<and> n \<le> 1")
        case False
        have "take n l \<noteq> old"
        proof
          assume a: "take n l = old"
          then have "n = length old" using n(2) by (metis length_take min.absorb2)
          with a wide(3) show False by simp
        qed
        then have R: "?R l = take n l @ ?R (drop n l)"
          using ReplaceAll_rune [OF _ d False _ old, of "u_escape x" "drop n l"] l by simp
        have d': "decode_rune (?R l) = (ru, n)" unfolding R using decode_rune_prefix [OF _ d False] l by simp
        have "?R l = c # tl (?R l)" using R l n by (cases n) simp_all
        then have "unquote (?R l) = encode_rune ru @ unquote (drop n (?R l))"
          using wide d' unquote_wide_step by metis
        moreover have "drop n (?R l) = ?R (drop n l)" using R n by simp
        moreover have "unquote (?R (drop n l)) = unquote (drop n l)"
        proof (rule rest [of "take n l"])
          show "transparent (take n l)"
            using decode_rune_bytes [OF _ d False] l wide decode_high [of c r ru n] d False by (intro transparent_wide) simp
        qed (use n l in auto)
        ultimately show ?thesis using un by simp
      next
        case True
        then have n1: "n = 1" "ru = RuneError" using n by simp_all
        have R: "?R l = c # ?R r" using wide(3) l by auto
        have d1: "decode_rune (c # r) = (RuneError, 1)" using d n1 l by simp
        have "decode_rune (c # ?R r) = (RuneError, 1)"
          by (rule decode_rune_replaced [OF d1 u_escape_head(2,3)])
        then have "unquote (?R l) = encode_rune RuneError @ unquote (?R r)"
          unfolding R using unquote_wide_step [OF _ wide(1,2), of "?R r"] by simp
        moreover have "transparent [c]" using wide by (intro transparent_wide) simp
        then have "unquote (?R r) = unquote r" using l by (intro rest [of "[c]"]) simp_all
        ultimately show ?thesis using un n1 l by simp
      qed
    qed
  qed simp
qed

end

interpretation line_sep: separator line_separator "0x2028" "0x28"
  by unfold_locales (simp_all add: line_separator_def char_of_eqI [symmetric] byte_def)

interpretation paragraph_sep: separator paragraph_separator "0x2029" "0x29"
  by unfold_locales (simp_all add: paragraph_separator_def char_of_eqI [symmetric] byte_def)

lemma unquote_escape_separators: "str_lexeme l \<Longrightarrow> unquote (escape_separators l) = unquote l"
  using line_sep.unquote_replaced paragraph_sep.unquote_replaced str_lexeme_escape_first
  unfolding escape_separators_def str_lexeme_def by metis

end
