(* ===== verification/Codec.thy ===== *)
theory Codec
  imports Immutable TimeText Marshal
begin

text \<open>
  The codec of the record, go/record.go: \<open>Encode\<close>, \<open>EncodeProposal\<close>, \<open>Decode\<close>,
  \<open>DecodeProposal\<close> and \<open>decodeRecord\<close> with its reading of the old schema number, the text of a
  \<open>Timestamp\<close>, and the accessors of the opaque payloads.

  \<open>encoding/json\<close> is modelled for the record's own structs: a struct is written as the members
  of its fields in order (\<open>omitempty\<close> drops a zero value), and read by folding its members over
  the value there was, each matched to a field by its folded name.  A raw message keeps the text
  of its value as it stands in the document.  A decoding error of any kind becomes
  \<open>ErrInvalid\<close>, so the first one ends the fold here.  (Not modelled: the spare capacity of a
  slice that a third spelling of one member name could expose.)
\<close>

section \<open>The words of the record\<close>

definition state_text :: "state \<Rightarrow> string" where
  "state_text s = (case s of
     StatePending \<Rightarrow> ''pending'' | StateRunning \<Rightarrow> ''running'' | StateTransferred \<Rightarrow> ''transferred''
   | StateComplete \<Rightarrow> ''complete'' | StateFailed \<Rightarrow> ''failed'' | StateCancelled \<Rightarrow> ''cancelled''
   | StateOther t \<Rightarrow> t)"

definition state_of :: "string \<Rightarrow> state" where
  "state_of t =
     (if t = ''pending'' then StatePending else if t = ''running'' then StateRunning
      else if t = ''transferred'' then StateTransferred else if t = ''complete'' then StateComplete
      else if t = ''failed'' then StateFailed else if t = ''cancelled'' then StateCancelled
      else StateOther t)"

definition want_text :: "Want \<Rightarrow> string" where
  "want_text w = (case w of WantRun \<Rightarrow> ''run'' | WantPause \<Rightarrow> ''pause'' | WantCancel \<Rightarrow> ''cancel'' | WantOther t \<Rightarrow> t)"

definition want_of :: "string \<Rightarrow> Want" where
  "want_of t = (if t = ''run'' then WantRun else if t = ''pause'' then WantPause
     else if t = ''cancel'' then WantCancel else WantOther t)"

section \<open>Timestamps\<close>

definition MarshalTime :: "time \<Rightarrow> string" where
  "MarshalTime t = [CHR 0x22] @ Format t @ [CHR 0x22]"

definition TrimByte :: "char \<Rightarrow> string \<Rightarrow> string" where
  "TrimByte c s = rev (dropWhile (\<lambda>d. d = c) (rev (dropWhile (\<lambda>d. d = c) s)))"

definition UnmarshalTime :: "string \<Rightarrow> time res" where
  "UnmarshalTime b =
     (let s = TrimByte CHR 0x22 b in
      if s = [] \<or> s = ''null'' then Inr 0
      else case ParseRFC3339 s of None \<Rightarrow> Inl ErrInvalid | Some t \<Rightarrow> Inr t)"

section \<open>Writing\<close>

definition jstr :: "string \<Rightarrow> json" where
  "jstr s = JStr (quote_body False s)"

definition jint :: "int \<Rightarrow> json" where
  "jint n = JNum (FormatInt n)"

definition jtime :: "time \<Rightarrow> json" where
  "jtime t = JStr (Format t)"

definition jstrings :: "string list \<Rightarrow> json" where
  "jstrings xs = JArr (map jstr xs)"

definition member :: "bool \<Rightarrow> string \<Rightarrow> json \<Rightarrow> (string \<times> json) list" where
  "member present name v = (if present then [(name, v)] else [])"

definition pointer :: "string \<Rightarrow> ('a \<Rightarrow> json) \<Rightarrow> 'a option \<Rightarrow> (string \<times> json) list" where
  "pointer name enc x = (case x of None \<Rightarrow> [] | Some y \<Rightarrow> [(name, enc y)])"

definition encode_intent :: "Intent \<Rightarrow> json" where
  "encode_intent i = JObj (
     member True ''want'' (jstr (want_text (iWant i)))
     @ member (iBy i \<noteq> []) ''by'' (jstr (iBy i))
     @ member True ''at'' (jtime (iAt i)))"

definition encode_step :: "Step \<Rightarrow> json" where
  "encode_step s = JObj (
     member True ''name'' (jstr (sName s))
     @ member True ''ordinal'' (jint (sOrdinal s))
     @ member (sOf s \<noteq> 0) ''of'' (jint (sOf s))
     @ member (sDone s \<noteq> 0) ''done'' (jint (sDone s))
     @ member (sTotal s \<noteq> 0) ''total'' (jint (sTotal s)))"

definition encode_progress :: "Progress \<Rightarrow> json" where
  "encode_progress p = JObj (
     member True ''done'' (jint (pDone p))
     @ member (pTotal p \<noteq> 0) ''total'' (jint (pTotal p))
     @ member True ''updated_at'' (jtime (pUpdatedAt p))
     @ pointer ''step'' encode_step (pStep p))"

definition encode_recall :: "Recall \<Rightarrow> json" where
  "encode_recall rc = JObj (
     member True ''reason'' (jstr (rcReason rc))
     @ member (rcBy rc \<noteq> []) ''by'' (jstr (rcBy rc))
     @ member True ''at'' (jtime (rcAt rc))
     @ member True ''until'' (jtime (rcUntil rc)))"

definition encode_lease :: "Lease \<Rightarrow> json" where
  "encode_lease l = JObj (
     member True ''owner'' (jstr (lOwner l))
     @ member True ''epoch'' (jint (lEpoch l))
     @ member True ''expires_at'' (jtime (lExpiresAt l))
     @ pointer ''recall'' encode_recall (lRecall l))"

definition encode_delegation :: "Delegation \<Rightarrow> json" where
  "encode_delegation d = JObj (
     member True ''system'' (jstr (dSystem d))
     @ member True ''external_id'' (jstr (dExternalID d))
     @ member (dDelivered d) ''delivered'' (JBool True))"

definition encode_envelope :: "Envelope \<Rightarrow> json" where
  "encode_envelope e = JObj (
     member True ''schema'' (jstr (eSchema e))
     @ member (eActions e \<noteq> []) ''actions'' (jstrings (eActions e)))"

text \<open>A raw message: nil is written \<open>null\<close>, any other must be a JSON value.\<close>

definition raw_json :: "string \<Rightarrow> json res" where
  "raw_json raw = (if raw = [] then Inr JNull
     else case parse_json raw of None \<Rightarrow> Inl (ErrPlain ''json: invalid raw message'') | Some v \<Rightarrow> Inr v)"

fun encode_entries :: "string gomap \<Rightarrow> string list \<Rightarrow> (string \<times> json) list res" where
  "encode_entries m [] = Inr []"
| "encode_entries m (name # names) =
     rbind (raw_json (the (map_of m name))) (\<lambda>v.
     rbind (encode_entries m names) (\<lambda>ms. Inr ((quote_body False name, v) # ms)))"

definition encode_record :: "Record \<Rightarrow> json res" where
  "encode_record r =
     rbind (raw_json (rSpec r)) (\<lambda>spec.
     rbind (if rCheckpoint r = [] then Inr [] else rbind (raw_json (rCheckpoint r)) (\<lambda>v. Inr [(''checkpoint'', v)])) (\<lambda>checkpoint.
     rbind (if rExtensions r = [] then Inr []
            else rbind (encode_entries (rExtensions r) (gomap_keys (rExtensions r))) (\<lambda>ms. Inr [(''extensions'', JObj ms)])) (\<lambda>extensions.
     Inr (JObj (
       member True ''content'' (if rContent r = [] then JNull else jstrings (rContent r))
       @ member (rCritical r \<noteq> []) ''critical'' (jstrings (rCritical r))
       @ member True ''id'' (jstr (rID r))
       @ member True ''kind'' (jstr (rKind r))
       @ pointer ''envelope'' encode_envelope (rEnvelope r)
       @ member True ''state'' (jstr (state_text (rState r)))
       @ member True ''spec'' spec
       @ checkpoint
       @ member True ''progress'' (encode_progress (rProgress r))
       @ member True ''lease'' (encode_lease (rLease r))
       @ pointer ''delegation'' encode_delegation (rDelegation r)
       @ member (rRequires r \<noteq> []) ''requires'' (jstrings (rRequires r))
       @ member (rError r \<noteq> []) ''error'' (jstr (rError r))
       @ pointer ''intent'' encode_intent (rIntent r)
       @ extensions
       @ member True ''created_at'' (jtime (rCreatedAt r))
       @ member True ''updated_at'' (jtime (rUpdatedAt r)))))))"

definition marshalRecord :: "Record \<Rightarrow> string res" where
  "marshalRecord r = rbind (encode_record r) (\<lambda>v. marshalJSON v ''  '')"

text \<open>\<open>Encode\<close> rewrites the record it is called on: the result carries it too.\<close>

definition Encode :: "Record \<Rightarrow> (Record \<times> string) res" where
  "Encode r =
     rbind (canonicalise r) (\<lambda>c.
     rbind (Validate c) (\<lambda>_.
     rbind (marshalRecord c) (\<lambda>b. Inr (c, b))))"

definition EncodeProposal :: "Record \<Rightarrow> (Record \<times> string) res" where
  "EncodeProposal r = rbind (canonicalise r) (\<lambda>c. rbind (marshalRecord c) (\<lambda>b. Inr (c, b)))"

section \<open>Reading\<close>

text \<open>\<open>foldName\<close>: the runes of a name, each replaced by the least rune it is a case variant of, as
  far as one that is ASCII is concerned (U+017F folds to S, U+212A to K).\<close>

definition fold_rune :: "nat \<Rightarrow> nat" where
  "fold_rune r = (if 97 \<le> r \<and> r \<le> 122 then r - 32 else if r = 0x17F then 83 else if r = 0x212A then 75 else r)"

definition fold_name :: "string \<Rightarrow> nat list" where
  "fold_name name = map (\<lambda>(r, _). fold_rune r) (runes name)"

text \<open>The field a member name selects: the field of that very name, or the one whose name folds
  the same.\<close>

definition field_of :: "string list \<Rightarrow> string \<Rightarrow> string option" where
  "field_of names name =
     (if name \<in> set names then Some name else find (\<lambda>f. fold_name f = fold_name name) names)"

definition decode_string :: "string \<Rightarrow> json \<Rightarrow> string res" where
  "decode_string prev v = (case v of JNull \<Rightarrow> Inr prev | JStr l \<Rightarrow> Inr (unquote l) | _ \<Rightarrow> Inl ErrInvalid)"

definition decode_bool :: "bool \<Rightarrow> json \<Rightarrow> bool res" where
  "decode_bool prev v = (case v of JNull \<Rightarrow> Inr prev | JBool b \<Rightarrow> Inr b | _ \<Rightarrow> Inl ErrInvalid)"

definition decode_strings :: "string list \<Rightarrow> json \<Rightarrow> string list res" where
  "decode_strings prev v = decode_slice decode_string [] prev v"

text \<open>The value of a raw text, and a decoder of values applied to it.\<close>

definition value_of :: "(json \<Rightarrow> 'a res) \<Rightarrow> string \<Rightarrow> 'a res" where
  "value_of dec raw = (case parse_json raw of None \<Rightarrow> Inl ErrInvalid | Some v \<Rightarrow> dec v)"

fun fold_members :: "('s \<Rightarrow> string \<Rightarrow> string \<Rightarrow> 's res) \<Rightarrow> 's \<Rightarrow> (string \<times> string) list \<Rightarrow> 's res" where
  "fold_members step s [] = Inr s"
| "fold_members step s ((k, raw) # ms) = rbind (step s (unquote k) raw) (\<lambda>s'. fold_members step s' ms)"

definition decode_object :: "('s \<Rightarrow> string \<Rightarrow> string \<Rightarrow> 's res) \<Rightarrow> 's \<Rightarrow> string \<Rightarrow> 's res" where
  "decode_object step prev raw =
     (case parse_json raw of
        Some JNull \<Rightarrow> Inr prev
      | Some (JObj _) \<Rightarrow> (case object_members raw of None \<Rightarrow> Inl ErrInvalid | Some ms \<Rightarrow> fold_members step prev ms)
      | _ \<Rightarrow> Inl ErrInvalid)"

text \<open>\<open>DisallowUnknownFields\<close>: a member that matches no field is an error.\<close>

definition by_field :: "string list \<Rightarrow> ('s \<Rightarrow> string \<Rightarrow> string \<Rightarrow> 's res) \<Rightarrow> 's \<Rightarrow> string \<Rightarrow> string \<Rightarrow> 's res" where
  "by_field names step s name raw =
     (case field_of names name of None \<Rightarrow> Inl ErrInvalid | Some f \<Rightarrow> step s f raw)"

definition decode_pointer :: "('a \<Rightarrow> string \<Rightarrow> 'a res) \<Rightarrow> 'a \<Rightarrow> 'a option \<Rightarrow> string \<Rightarrow> 'a option res" where
  "decode_pointer dec zero prev raw =
     (if parse_json raw = Some JNull then Inr None
      else rbind (dec (case prev of None \<Rightarrow> zero | Some x \<Rightarrow> x) raw) (\<lambda>x. Inr (Some x)))"

definition intent_field :: "Intent \<Rightarrow> string \<Rightarrow> string \<Rightarrow> Intent res" where
  "intent_field i f raw =
     (if f = ''want'' then rbind (value_of (decode_string (want_text (iWant i))) raw) (\<lambda>x. Inr (i\<lparr>iWant := want_of x\<rparr>))
      else if f = ''by'' then rbind (value_of (decode_string (iBy i)) raw) (\<lambda>x. Inr (i\<lparr>iBy := x\<rparr>))
      else rbind (UnmarshalTime raw) (\<lambda>t. Inr (i\<lparr>iAt := t\<rparr>)))"

definition decode_intent :: "Intent \<Rightarrow> string \<Rightarrow> Intent res" where
  "decode_intent = decode_object (by_field [''want'', ''by'', ''at''] intent_field)"

definition step_field :: "Step \<Rightarrow> string \<Rightarrow> string \<Rightarrow> Step res" where
  "step_field s f raw =
     (if f = ''name'' then rbind (value_of (decode_string (sName s)) raw) (\<lambda>x. Inr (s\<lparr>sName := x\<rparr>))
      else if f = ''ordinal'' then rbind (value_of (decode_int (sOrdinal s)) raw) (\<lambda>n. Inr (s\<lparr>sOrdinal := n\<rparr>))
      else if f = ''of'' then rbind (value_of (decode_int (sOf s)) raw) (\<lambda>n. Inr (s\<lparr>sOf := n\<rparr>))
      else if f = ''done'' then rbind (value_of (decode_int (sDone s)) raw) (\<lambda>n. Inr (s\<lparr>sDone := n\<rparr>))
      else rbind (value_of (decode_int (sTotal s)) raw) (\<lambda>n. Inr (s\<lparr>sTotal := n\<rparr>)))"

definition decode_step :: "Step \<Rightarrow> string \<Rightarrow> Step res" where
  "decode_step = decode_object (by_field [''name'', ''ordinal'', ''of'', ''done'', ''total''] step_field)"

definition zero_step :: Step where
  "zero_step = \<lparr>sName = [], sOrdinal = 0, sOf = 0, sDone = 0, sTotal = 0\<rparr>"

definition progress_field :: "Progress \<Rightarrow> string \<Rightarrow> string \<Rightarrow> Progress res" where
  "progress_field p f raw =
     (if f = ''done'' then rbind (value_of (decode_int (pDone p)) raw) (\<lambda>n. Inr (p\<lparr>pDone := n\<rparr>))
      else if f = ''total'' then rbind (value_of (decode_int (pTotal p)) raw) (\<lambda>n. Inr (p\<lparr>pTotal := n\<rparr>))
      else if f = ''updated_at'' then rbind (UnmarshalTime raw) (\<lambda>t. Inr (p\<lparr>pUpdatedAt := t\<rparr>))
      else rbind (decode_pointer decode_step zero_step (pStep p) raw) (\<lambda>x. Inr (p\<lparr>pStep := x\<rparr>)))"

definition decode_progress :: "Progress \<Rightarrow> string \<Rightarrow> Progress res" where
  "decode_progress = decode_object (by_field [''done'', ''total'', ''updated_at'', ''step''] progress_field)"

definition recall_field :: "Recall \<Rightarrow> string \<Rightarrow> string \<Rightarrow> Recall res" where
  "recall_field rc f raw =
     (if f = ''reason'' then rbind (value_of (decode_string (rcReason rc)) raw) (\<lambda>x. Inr (rc\<lparr>rcReason := x\<rparr>))
      else if f = ''by'' then rbind (value_of (decode_string (rcBy rc)) raw) (\<lambda>x. Inr (rc\<lparr>rcBy := x\<rparr>))
      else if f = ''at'' then rbind (UnmarshalTime raw) (\<lambda>t. Inr (rc\<lparr>rcAt := t\<rparr>))
      else rbind (UnmarshalTime raw) (\<lambda>t. Inr (rc\<lparr>rcUntil := t\<rparr>)))"

definition decode_recall :: "Recall \<Rightarrow> string \<Rightarrow> Recall res" where
  "decode_recall = decode_object (by_field [''reason'', ''by'', ''at'', ''until''] recall_field)"

definition zero_recall :: Recall where
  "zero_recall = \<lparr>rcReason = [], rcBy = [], rcAt = 0, rcUntil = 0\<rparr>"

definition lease_field :: "Lease \<Rightarrow> string \<Rightarrow> string \<Rightarrow> Lease res" where
  "lease_field l f raw =
     (if f = ''owner'' then rbind (value_of (decode_string (lOwner l)) raw) (\<lambda>x. Inr (l\<lparr>lOwner := x\<rparr>))
      else if f = ''epoch'' then rbind (value_of (decode_int (lEpoch l)) raw) (\<lambda>n. Inr (l\<lparr>lEpoch := n\<rparr>))
      else if f = ''expires_at'' then rbind (UnmarshalTime raw) (\<lambda>t. Inr (l\<lparr>lExpiresAt := t\<rparr>))
      else rbind (decode_pointer decode_recall zero_recall (lRecall l) raw) (\<lambda>x. Inr (l\<lparr>lRecall := x\<rparr>)))"

definition decode_lease :: "Lease \<Rightarrow> string \<Rightarrow> Lease res" where
  "decode_lease = decode_object (by_field [''owner'', ''epoch'', ''expires_at'', ''recall''] lease_field)"

definition delegation_field :: "Delegation \<Rightarrow> string \<Rightarrow> string \<Rightarrow> Delegation res" where
  "delegation_field d f raw =
     (if f = ''system'' then rbind (value_of (decode_string (dSystem d)) raw) (\<lambda>x. Inr (d\<lparr>dSystem := x\<rparr>))
      else if f = ''external_id'' then rbind (value_of (decode_string (dExternalID d)) raw) (\<lambda>x. Inr (d\<lparr>dExternalID := x\<rparr>))
      else rbind (value_of (decode_bool (dDelivered d)) raw) (\<lambda>b. Inr (d\<lparr>dDelivered := b\<rparr>)))"

definition decode_delegation :: "Delegation \<Rightarrow> string \<Rightarrow> Delegation res" where
  "decode_delegation = decode_object (by_field [''system'', ''external_id'', ''delivered''] delegation_field)"

definition envelope_field :: "Envelope \<Rightarrow> string \<Rightarrow> string \<Rightarrow> Envelope res" where
  "envelope_field e f raw =
     (if f = ''schema'' then rbind (value_of (decode_string (eSchema e)) raw) (\<lambda>x. Inr (e\<lparr>eSchema := x\<rparr>))
      else rbind (value_of (decode_strings (eActions e)) raw) (\<lambda>xs. Inr (e\<lparr>eActions := xs\<rparr>)))"

definition decode_envelope :: "Envelope \<Rightarrow> string \<Rightarrow> Envelope res" where
  "decode_envelope = decode_object (by_field [''schema'', ''actions''] envelope_field)"

text \<open>A \<open>map[string]json.RawMessage\<close>: null empties it, an object is put into it.\<close>

definition decode_extensions :: "string gomap \<Rightarrow> string \<Rightarrow> string gomap res" where
  "decode_extensions prev raw =
     (if parse_json raw = Some JNull then Inr []
      else decode_object (\<lambda>m name raw. Inr (gomap_put name raw m)) prev raw)"

definition record_fields :: "string list" where
  "record_fields = [''content'', ''critical'', ''id'', ''kind'', ''envelope'', ''state'', ''spec'', ''checkpoint'',
     ''progress'', ''lease'', ''delegation'', ''requires'', ''error'', ''intent'', ''extensions'', ''created_at'', ''updated_at'']"

definition record_field :: "Record \<Rightarrow> string \<Rightarrow> string \<Rightarrow> Record res" where
  "record_field r f raw =
     (if f = ''content'' then rbind (value_of (decode_strings (rContent r)) raw) (\<lambda>xs. Inr (r\<lparr>rContent := xs\<rparr>))
      else if f = ''critical'' then rbind (value_of (decode_strings (rCritical r)) raw) (\<lambda>xs. Inr (r\<lparr>rCritical := xs\<rparr>))
      else if f = ''id'' then rbind (value_of (decode_string (rID r)) raw) (\<lambda>x. Inr (r\<lparr>rID := x\<rparr>))
      else if f = ''kind'' then rbind (value_of (decode_string (rKind r)) raw) (\<lambda>x. Inr (r\<lparr>rKind := x\<rparr>))
      else if f = ''envelope'' then
        rbind (decode_pointer decode_envelope \<lparr>eSchema = [], eActions = []\<rparr> (rEnvelope r) raw) (\<lambda>x. Inr (r\<lparr>rEnvelope := x\<rparr>))
      else if f = ''state'' then
        rbind (value_of (decode_string (state_text (rState r))) raw) (\<lambda>x. Inr (r\<lparr>rState := state_of x\<rparr>))
      else if f = ''spec'' then Inr (r\<lparr>rSpec := raw\<rparr>)
      else if f = ''checkpoint'' then Inr (r\<lparr>rCheckpoint := raw\<rparr>)
      else if f = ''progress'' then rbind (decode_progress (rProgress r) raw) (\<lambda>p. Inr (r\<lparr>rProgress := p\<rparr>))
      else if f = ''lease'' then rbind (decode_lease (rLease r) raw) (\<lambda>l. Inr (r\<lparr>rLease := l\<rparr>))
      else if f = ''delegation'' then
        rbind (decode_pointer decode_delegation \<lparr>dSystem = [], dExternalID = [], dDelivered = False\<rparr> (rDelegation r) raw)
          (\<lambda>x. Inr (r\<lparr>rDelegation := x\<rparr>))
      else if f = ''requires'' then rbind (value_of (decode_strings (rRequires r)) raw) (\<lambda>xs. Inr (r\<lparr>rRequires := xs\<rparr>))
      else if f = ''error'' then rbind (value_of (decode_string (rError r)) raw) (\<lambda>x. Inr (r\<lparr>rError := x\<rparr>))
      else if f = ''intent'' then
        rbind (decode_pointer decode_intent \<lparr>iWant = WantOther [], iBy = [], iAt = 0\<rparr> (rIntent r) raw)
          (\<lambda>x. Inr (r\<lparr>rIntent := x\<rparr>))
      else if f = ''extensions'' then rbind (decode_extensions (rExtensions r) raw) (\<lambda>m. Inr (r\<lparr>rExtensions := m\<rparr>))
      else if f = ''created_at'' then rbind (UnmarshalTime raw) (\<lambda>t. Inr (r\<lparr>rCreatedAt := t\<rparr>))
      else rbind (UnmarshalTime raw) (\<lambda>t. Inr (r\<lparr>rUpdatedAt := t\<rparr>)))"

text \<open>The decoder reads the first value of the stream and leaves the rest.\<close>

definition first_value :: "string \<Rightarrow> string option" where
  "first_value b = (case parse_value (2 * length b + 1) max_nesting b of
     None \<Rightarrow> None
   | Some (_, rest) \<Rightarrow> Some (take (length b - length rest) b))"

definition decode_document :: "string \<Rightarrow> Record res" where
  "decode_document b = (case first_value b of
     None \<Rightarrow> Inl ErrInvalid
   | Some doc \<Rightarrow> decode_object (by_field record_fields record_field) zero_record doc)"

section \<open>The schema number of old records\<close>

text \<open>\<open>json.Unmarshal\<close> into the shim: an error of the kind is ignored, but the pointer it was
  about to fill stays allocated.\<close>

definition legacy_member :: "int option \<Rightarrow> string \<times> json \<Rightarrow> int option" where
  "legacy_member prev = (\<lambda>(k, v).
     if field_of [''schema''] (unquote k) = None then prev
     else case v of
         JNull \<Rightarrow> None
       | JNum l \<Rightarrow> (case ParseInt l of Some n \<Rightarrow> Some n | None \<Rightarrow> Some (case prev of None \<Rightarrow> 0 | Some n \<Rightarrow> n))
       | _ \<Rightarrow> Some (case prev of None \<Rightarrow> 0 | Some n \<Rightarrow> n))"

definition legacy_schema :: "string \<Rightarrow> int option" where
  "legacy_schema b = (case parse_json b of Some (JObj ms) \<Rightarrow> foldl legacy_member None ms | _ \<Rightarrow> None)"

definition map_json :: "json gomap \<Rightarrow> json" where
  "map_json m = JObj (map (\<lambda>name. (quote_body False name, the (map_of m name))) (gomap_keys m))"

text \<open>The second attempt, without the member \<open>schema\<close>.\<close>

definition decode_stripped :: "string \<Rightarrow> Record res" where
  "decode_stripped b =
     rbind (unmarshal_map b) (\<lambda>raw.
     rbind (marshalCompact (map_json (gomap_delete ''schema'' raw))) (\<lambda>stripped.
     decode_document stripped))"

definition legacy_content :: "int \<Rightarrow> Record \<Rightarrow> Record res" where
  "legacy_content schema r = (case legacySchemas schema of
     None \<Rightarrow> Inl ErrUnknownSchema
   | Some features \<Rightarrow>
       let r = r\<lparr>rContent := features, rCritical := filter (\<lambda>m. m \<noteq> FeatureStep) features\<rparr>
       in Inr (if rDelegation r \<noteq> None
               then r\<lparr>rContent := rContent r @ [FeatureDelegation], rCritical := rCritical r @ [FeatureDelegation]\<rparr>
               else r))"

definition decodeRecord :: "string \<Rightarrow> Record res" where
  "decodeRecord b =
     rbind (refuseDeepNesting b) (\<lambda>_.
     rbind (refuseDuplicateNames b) (\<lambda>_.
     let legacy = legacy_schema b in
     rbind (case decode_document b of
         Inr r \<Rightarrow> Inr r
       | Inl _ \<Rightarrow> (case legacy of None \<Rightarrow> Inl ErrInvalid | Some _ \<Rightarrow> decode_stripped b)) (\<lambda>r.
     rbind (case legacy of
         Some schema \<Rightarrow> if rContent r = [] then legacy_content schema r else Inr r
       | None \<Rightarrow> Inr r) (\<lambda>r.
     if \<not> snd (Understands (rCritical r)) then Inl ErrUnknownSchema else Inr r))))"

definition Decode :: "string \<Rightarrow> Record res" where
  "Decode b = rbind (decodeRecord b) (\<lambda>r. rbind (Validate r) (\<lambda>_. Inr r))"

definition DecodeProposal :: "string \<Rightarrow> Record res" where
  "DecodeProposal b = decodeRecord b"

section \<open>The opaque payloads\<close>

text \<open>\<open>unmarshal\<close> is \<open>json.Unmarshal\<close> into the caller's own type.\<close>

definition DecodeSpec :: "(string \<Rightarrow> 'a res) \<Rightarrow> Record \<Rightarrow> 'a res" where
  "DecodeSpec unmarshal r = (if rSpec r = [] then Inl ErrInvalid else unmarshal (rSpec r))"

definition DecodeCheckpoint :: "(string \<Rightarrow> 'a res) \<Rightarrow> 'a \<Rightarrow> Record \<Rightarrow> 'a res" where
  "DecodeCheckpoint unmarshal prev r = (if rCheckpoint r = [] then Inr prev else unmarshal (rCheckpoint r))"

definition SetSpec :: "json \<Rightarrow> Record \<Rightarrow> Record res" where
  "SetSpec v r = rbind (marshalCompact v) (\<lambda>b. Inr (r\<lparr>rSpec := b\<rparr>))"

definition SetCheckpoint :: "json \<Rightarrow> Record \<Rightarrow> Record res" where
  "SetCheckpoint v r = rbind (marshalCompact v) (\<lambda>b. Inr (r\<lparr>rCheckpoint := b\<rparr>))"

end
