(* ===== verification/CodecRoundtrip.thy ===== *)
theory CodecRoundtrip
  imports Codec
begin

text \<open>
  What \<open>Encode\<close> writes, \<open>Decode\<close> reads: for every struct of the record, the decoder applied to
  the indented text of the encoder's tree gives the struct back, and for the record the same up
  to the layout of the opaque payloads.
\<close>

section \<open>Trees the encoder writes\<close>

definition layout :: string where
  "layout = ''  ''"

lemma layout_white: "white layout" "layout \<noteq> []"
  by (simp_all add: layout_def white_def is_ws_def)

definition plain :: "string \<Rightarrow> bool" where
  "plain k \<longleftrightarrow> list_all (\<lambda>c. between 97 c 122 \<or> c = CHR ''_'') k"

text \<open>A tree that escaping leaves alone and that every scan accepts.\<close>

definition sound :: "json \<Rightarrow> bool" where
  "sound v \<longleftrightarrow> wf_json v \<and> settled v = v \<and> dup_free v"

lemma plain_byte: "plain k \<Longrightarrow> c \<in> set k \<Longrightarrow> 0x20 \<le> byte c \<and> byte c < 0x80 \<and> c \<noteq> CHR 0x22 \<and> c \<noteq> CHR 0x5C"
  by (auto simp: plain_def list_all_iff between_def byte_def)

lemma plain_ascii: "plain k \<Longrightarrow> ascii k"
  using plain_byte by (auto simp: ascii_def list_all_iff)

lemma lexeme_ascii:
  assumes "\<forall>c \<in> set k. 0x20 \<le> byte c \<and> byte c < 0x80 \<and> c \<noteq> CHR 0x22 \<and> c \<noteq> CHR 0x5C"
  shows "str_lexeme k"
proof -
  have "transparent k"
    using assms
  proof (induction k)
    case (Cons c k)
    then have "transparent [c]" by (intro transparent_unit) (auto simp: str_unit_def)
    with Cons transparent_append [of "[c]" k] show ?case by simp
  qed (simp add: transparent_Nil)
  then show ?thesis by (rule str_lexeme_transparent)
qed

lemma plain_lexeme: "plain k \<Longrightarrow> str_lexeme k"
  using plain_byte by (intro lexeme_ascii) blast

lemma unquote_ascii:
  "\<forall>c \<in> set k. byte c < 0x80 \<and> c \<noteq> CHR 0x5C \<Longrightarrow> unquote k = k"
  by (induction k) (auto simp: unquote_plain)

lemma unquote_plain_name: "plain k \<Longrightarrow> unquote k = k"
  using plain_byte by (intro unquote_ascii) blast

lemma escape_ascii: "ascii k \<Longrightarrow> escape_separators k = k"
  by (simp add: escape_separators_def ReplaceAll_ascii_only wide_separators)

lemma settled_simps [simp]:
  "settled JNull = JNull" "settled (JBool b) = JBool b" "settled (JNum l) = JNum l" "settled (JStr l) = JStr (escape_separators l)"
  "settled (JArr vs) = JArr (map settled vs)" "settled (JObj ms) = JObj (map (\<lambda>(k, v). (escape_separators k, settled v)) ms)"
  by (simp_all add: settled_def)

lemma sound_JObj:
  assumes "\<forall>(k, v) \<in> set ms. plain k \<and> sound v" "distinct (map fst ms)"
  shows "sound (JObj ms)"
proof -
  have "map (\<lambda>(k, v). (escape_separators k, settled v)) ms = ms"
    using assms(1) by (intro map_idI) (auto simp: sound_def escape_ascii plain_ascii)
  moreover have u: "map (\<lambda>(k, _). unquote k) ms = map fst ms"
    using assms(1) by (auto simp: unquote_plain_name)
  have "distinct (map (\<lambda>(k, _). unquote k) ms)" unfolding u by (rule assms(2))
  moreover have "wf_json (JObj ms)" "list_all (\<lambda>(_, v). dup_free v) ms"
    using assms(1) by (auto simp: sound_def list_all_iff plain_lexeme)
  ultimately show ?thesis
    by (simp add: sound_def del: wf_json.simps)
qed

lemma sound_jstr [simp]: "sound (jstr s)"
  by (simp add: sound_def jstr_def str_lexeme_quote_body)

lemma sound_jint [simp]: "sound (jint n)"
  by (simp add: sound_def jint_def num_lexeme_FormatInt)

lemma digits_chars: "list_all is_digit w \<Longrightarrow> c \<in> set w \<Longrightarrow> 0x20 \<le> byte c \<and> byte c < 0x80 \<and> c \<noteq> CHR 0x22 \<and> c \<noteq> CHR 0x5C"
  by (auto simp: list_all_iff is_digit_def between_def byte_def)

lemma pad_chars: "c \<in> set (pad w n) \<Longrightarrow> 0x20 \<le> byte c \<and> byte c < 0x80 \<and> c \<noteq> CHR 0x22 \<and> c \<noteq> CHR 0x5C"
proof -
  have "list_all is_digit (pad w n)"
    using is_digit_digit [of 0] nat_digits_digits [of n] by (auto simp: pad_def list_all_iff)
  then show "c \<in> set (pad w n) \<Longrightarrow> ?thesis" by (rule digits_chars)
qed

lemma Format_chars: "c \<in> set (Format t) \<Longrightarrow> 0x20 \<le> byte c \<and> byte c < 0x80 \<and> c \<noteq> CHR 0x22 \<and> c \<noteq> CHR 0x5C"
proof -
  have p: "c \<in> set (pad_int w n) \<Longrightarrow> 0x20 \<le> byte c \<and> byte c < 0x80 \<and> c \<noteq> CHR 0x22 \<and> c \<noteq> CHR 0x5C" for w n
    using pad_chars [of c w] by (auto simp: pad_int_def byte_def split: if_splits)
  have m: "c \<in> set ''-T:.Z'' \<Longrightarrow> 0x20 \<le> byte c \<and> byte c < 0x80 \<and> c \<noteq> CHR 0x22 \<and> c \<noteq> CHR 0x5C"
    by (auto simp: byte_def)
  assume "c \<in> set (Format t)"
  then have "c \<in> set ''-T:.Z'' \<or> (\<exists>w n. c \<in> set (pad_int w n))"
    unfolding Format_def Let_def by (auto split: prod.splits)
  with p m show ?thesis by blast
qed

lemma sound_jtime [simp]: "sound (jtime t)"
  using Format_chars [of _ t]
  by (auto simp: sound_def jtime_def escape_ascii ascii_def list_all_iff intro: lexeme_ascii)

lemma sound_jstrings [simp]: "sound (jstrings xs)"
  using sound_jstr by (simp add: sound_def jstrings_def list_all_iff)

lemma depth_leaves [simp]: "depth (jstr s) = 0" "depth (jint n) = 0" "depth (jtime t) = 0"
  by (simp_all add: jstr_def jint_def jtime_def)

lemma depth_jstrings [simp]: "depth (jstrings xs) = 1"
proof -
  have "foldr max (map (\<lambda>s. 0 :: nat) xs) 0 = 0" by (induction xs) auto
  then show ?thesis by (simp add: jstrings_def comp_def)
qed

lemma depth_JObj_le: "(\<forall>(k, v) \<in> set ms. depth v \<le> d) \<Longrightarrow> depth (JObj ms) \<le> Suc d"
  using foldr_max_le [of "map (\<lambda>(k, v). depth v) ms" d] by auto

lemma set_member [simp]: "set (member p k v) = (if p then {(k, v)} else {})"
  by (simp add: member_def)

lemma set_pointer [simp]: "set (pointer k enc x) = (case x of None \<Rightarrow> {} | Some y \<Rightarrow> {(k, enc y)})"
  by (simp add: pointer_def split: option.splits)

lemma map_fst_member [simp]: "map fst (member p k v) = (if p then [k] else [])"
  "map fst (pointer k enc x) = (if x = None then [] else [k])"
  by (simp_all add: member_def pointer_def split: option.splits)

lemma plain_names [simp]:
  "plain ''want''" "plain ''by''" "plain ''at''" "plain ''name''" "plain ''ordinal''" "plain ''of''" "plain ''done''"
  "plain ''total''" "plain ''updated_at''" "plain ''step''" "plain ''reason''" "plain ''until''" "plain ''owner''"
  "plain ''epoch''" "plain ''expires_at''" "plain ''recall''" "plain ''system''" "plain ''external_id''"
  "plain ''delivered''" "plain ''schema''" "plain ''actions''" "plain ''content''" "plain ''critical''" "plain ''id''"
  "plain ''kind''" "plain ''envelope''" "plain ''state''" "plain ''spec''" "plain ''checkpoint''" "plain ''progress''"
  "plain ''lease''" "plain ''delegation''" "plain ''requires''" "plain ''error''" "plain ''intent''" "plain ''extensions''"
  "plain ''created_at''"
  by (simp_all add: plain_def between_def byte_def)

lemma encode_sound [simp]:
  "sound (encode_intent i)" "sound (encode_step s)" "sound (encode_recall rc)" "sound (encode_delegation d)"
  "sound (encode_envelope e)"
  unfolding encode_intent_def encode_step_def encode_recall_def encode_delegation_def encode_envelope_def
  by (rule sound_JObj; simp add: sound_def [of "JBool True"])+

lemma encode_sound2 [simp]: "sound (encode_progress p)" "sound (encode_lease l)"
  unfolding encode_progress_def encode_lease_def
  by (rule sound_JObj; simp split: option.splits)+

lemma encode_depth:
  "depth (encode_intent i) \<le> 1" "depth (encode_step s) \<le> 1" "depth (encode_recall rc) \<le> 1"
  "depth (encode_delegation d) \<le> 1" "depth (encode_envelope e) \<le> 2"
  unfolding encode_intent_def encode_step_def encode_recall_def encode_delegation_def encode_envelope_def
    One_nat_def numeral_2_eq_2
  by (rule depth_JObj_le; simp)+

lemma encode_depth2: "depth (encode_progress p) \<le> 2" "depth (encode_lease l) \<le> 2"
  unfolding encode_progress_def encode_lease_def numeral_2_eq_2
  by (rule depth_JObj_le; use encode_depth(2,3) in \<open>simp split: option.splits\<close>)+

section \<open>Reading one value back\<close>

lemma parse_indented:
  assumes "wf_json v" "white w" "depth v \<le> max_nesting"
  shows "parse_json (indented w n v) = Some v"
  using reads_inD [OF reads_in_wf [OF assms(1,2)] assms(3), of "[]" n "2 * length (indented w n v) + 1"]
  by (simp add: parse_json_def del: parse_value.simps)

definition texts :: "nat \<Rightarrow> (string \<times> json) list \<Rightarrow> (string \<times> string) list" where
  "texts n ms = map (\<lambda>(k, v). (k, indented layout n v)) ms"

lemma texts_simps [simp]:
  "texts n [] = []" "texts n (xs @ ys) = texts n xs @ texts n ys"
  "texts n ((k, v) # ms) = (k, indented layout n v) # texts n ms"
  "texts n (member p k v) = (if p then [(k, indented layout n v)] else [])"
  "texts n (pointer k enc x) = (case x of None \<Rightarrow> [] | Some y \<Rightarrow> [(k, indented layout n (enc y))])"
  by (simp_all add: texts_def member_def pointer_def split: option.splits)

lemma fold_members_append:
  "fold_members step s (xs @ ys) = rbind (fold_members step s xs) (\<lambda>s'. fold_members step s' ys)"
  by (induction step s xs rule: fold_members.induct) (auto simp: rbind_def split: sum.splits)

lemma decode_object_indented:
  assumes "wf_json (JObj ms)" "depth (JObj ms) \<le> max_nesting"
  shows "decode_object step prev (indented layout n (JObj ms)) = fold_members step prev (texts (Suc n) ms)"
  using parse_indented [OF assms(1) layout_white(1) assms(2), of n]
    object_members_indented [OF assms(1,2) layout_white(1), of n "[]"]
  by (simp add: decode_object_def texts_def del: indented.simps)

definition timely :: "time \<Rightarrow> bool" where
  "timely t \<longleftrightarrow> spellable t \<and> At t = t"

lemma shallow_parse:
  assumes "sound v" "depth v \<le> 2"
  shows "parse_json (indented layout n v) = Some v"
  using assms by (intro parse_indented layout_white) (simp_all add: sound_def max_nesting_def)

lemma read_jstr [simp]: "ValidString s \<Longrightarrow> value_of (decode_string p) (indented layout n (jstr s)) = Inr s"
  using shallow_parse [OF sound_jstr [of s], of n]
  by (simp add: value_of_def decode_string_def jstr_def unquote_quote_body)

lemma read_jint [simp]: "int64 i \<Longrightarrow> value_of (decode_int p) (indented layout n (jint i)) = Inr i"
  using shallow_parse [OF sound_jint [of i], of n]
  by (simp add: value_of_def decode_int_def jint_def ParseInt_FormatInt)

lemma read_bool [simp]: "value_of (decode_bool p) (indented layout n (JBool b)) = Inr b"
  using shallow_parse [of "JBool b" n] by (simp add: value_of_def decode_bool_def sound_def)

lemma decode_elems_strings:
  "list_all ValidString xs \<Longrightarrow> decode_elems decode_string z prev (map jstr xs) = Inr xs"
  by (induction xs arbitrary: prev) (simp_all add: decode_string_def jstr_def unquote_quote_body)

lemma read_jstrings [simp]:
  "list_all ValidString xs \<Longrightarrow> value_of (decode_strings p) (indented layout n (jstrings xs)) = Inr xs"
  using shallow_parse [OF sound_jstrings [of xs], of n, unfolded depth_jstrings]
  by (simp add: value_of_def) (simp add: decode_strings_def decode_slice_def jstrings_def decode_elems_strings)

lemma TrimByte_quoted: "c \<notin> set s \<Longrightarrow> TrimByte c ([c] @ s @ [c]) = s"
proof -
  assume a: "c \<notin> set s"
  have d: "dropWhile (\<lambda>d. d = c) (t @ [c]) = t @ [c]" if "c \<notin> set t" "t \<noteq> []" for t
    using that by (cases t) auto
  show ?thesis
  proof (cases "s = []")
    case False
    have "dropWhile (\<lambda>d. d = c) (rev s) = rev s" using a False by (cases "rev s") auto
    with a False d show ?thesis by (simp add: TrimByte_def)
  qed (simp add: TrimByte_def)
qed

lemma read_jtime [simp]: "timely t \<Longrightarrow> UnmarshalTime (indented layout n (jtime t)) = Inr t"
proof -
  assume t: "timely t"
  have q: "CHR 0x22 \<notin> set (Format t)" using Format_chars [of "CHR 0x22" t] by auto
  have "TrimByte CHR 0x22 (indented layout n (jtime t)) = Format t"
    using TrimByte_quoted [OF q] by (simp add: jtime_def)
  moreover have "ParseRFC3339 (Format t) = Some t" using t Parse_Format by (simp add: timely_def)
  moreover from this have "Format t \<noteq> []" "Format t \<noteq> ''null''"
    by (auto simp: ParseRFC3339_def get_year_def opt_def is_digit_def between_def byte_def)
  ultimately show ?thesis by (simp add: UnmarshalTime_def Let_def)
qed

lemma by_field_plain [simp]: "f \<in> set names \<Longrightarrow> by_field names step s f raw = step s f raw"
  by (simp add: by_field_def field_of_def)

section \<open>Reading the structs back\<close>

definition fit_intent :: "Intent \<Rightarrow> bool" where
  "fit_intent i \<longleftrightarrow> ValidWant (iWant i) \<and> ValidString (iBy i) \<and> timely (iAt i)"

definition fit_step :: "Step \<Rightarrow> bool" where
  "fit_step s \<longleftrightarrow> ValidString (sName s) \<and> int64 (sOrdinal s) \<and> int64 (sOf s) \<and> int64 (sDone s) \<and> int64 (sTotal s)"

definition fit_progress :: "Progress \<Rightarrow> bool" where
  "fit_progress p \<longleftrightarrow> int64 (pDone p) \<and> int64 (pTotal p) \<and> timely (pUpdatedAt p) \<and> pred_option fit_step (pStep p)"

definition fit_recall :: "Recall \<Rightarrow> bool" where
  "fit_recall rc \<longleftrightarrow> ValidString (rcReason rc) \<and> ValidString (rcBy rc) \<and> timely (rcAt rc) \<and> timely (rcUntil rc)"

definition fit_lease :: "Lease \<Rightarrow> bool" where
  "fit_lease l \<longleftrightarrow> ValidString (lOwner l) \<and> int64 (lEpoch l) \<and> timely (lExpiresAt l) \<and> pred_option fit_recall (lRecall l)"

definition fit_delegation :: "Delegation \<Rightarrow> bool" where
  "fit_delegation d \<longleftrightarrow> ValidString (dSystem d) \<and> ValidString (dExternalID d)"

definition fit_envelope :: "Envelope \<Rightarrow> bool" where
  "fit_envelope e \<longleftrightarrow> ValidString (eSchema e) \<and> list_all ValidString (eActions e)"

lemma ValidString_words:
  "ValidString ''run''" "ValidString ''pause''" "ValidString ''cancel''" "ValidString ''pending''" "ValidString ''running''"
  "ValidString ''transferred''" "ValidString ''complete''" "ValidString ''failed''" "ValidString ''cancelled''"
  by (simp_all add: byte_def)

lemma want_of_text: "ValidWant w \<Longrightarrow> want_of (want_text w) = w \<and> ValidString (want_text w)"
  by (cases w) (simp_all add: ValidWant_def want_of_def want_text_def ValidString_words del: ValidString_ascii)

lemma state_of_text: "ValidState s \<Longrightarrow> state_of (state_text s) = s \<and> ValidString (state_text s)"
  by (cases s) (simp_all add: ValidState_def state_of_def state_text_def ValidString_words del: ValidString_ascii)

lemma sound_wf: "sound v \<Longrightarrow> wf_json v"
  by (simp add: sound_def)

lemma decode_object_sound:
  assumes "sound (JObj ms)" "depth (JObj ms) \<le> 2"
  shows "decode_object step prev (indented layout n (JObj ms)) = fold_members step prev (texts (Suc n) ms)"
  using assms by (intro decode_object_indented sound_wf) (simp_all add: max_nesting_def)

lemma fold_members_one [simp]:
  "fold_members step s (if p then [(k, raw)] else []) = (if p then step s (unquote k) raw else Inr s)"
  by (auto simp: rbind_def split: sum.splits)

lemma fold_members_option [simp]:
  "fold_members step s (case x of None \<Rightarrow> [] | Some y \<Rightarrow> [(k, f y)]) = (case x of None \<Rightarrow> Inr s | Some y \<Rightarrow> step s (unquote k) (f y))"
  by (auto simp: rbind_def split: sum.splits option.splits)

lemma rbind_if_Inr [simp]: "rbind (if p then Inr x else Inr y) f = f (if p then x else y)"
  by simp

lemma rbind_option_Inr: "rbind (case x of None \<Rightarrow> Inr s | Some y \<Rightarrow> Inr (g y)) f = f (case x of None \<Rightarrow> s | Some y \<Rightarrow> g y)"
  by (simp split: option.splits)

lemma decode_encode_intent:
  assumes "fit_intent i"
  shows "decode_intent \<lparr>iWant = WantOther [], iBy = [], iAt = 0\<rparr> (indented layout n (encode_intent i)) = Inr i"
proof -
  obtain w b a where i: "i = \<lparr>iWant = w, iBy = b, iAt = a\<rparr>" by (cases i)
  have "sound (encode_intent i)" "depth (encode_intent i) \<le> 2" using encode_depth(1) [of i] by simp_all
  note d = decode_object_sound [OF this [unfolded encode_intent_def]]
  show ?thesis
    using assms want_of_text [of w] unfolding decode_intent_def encode_intent_def d
    by (simp add: i fit_intent_def fold_members_append unquote_plain_name intent_field_def)
qed

lemma decode_encode_step:
  assumes "fit_step s"
  shows "decode_step zero_step (indented layout n (encode_step s)) = Inr s"
proof -
  obtain nm a b c d where s: "s = \<lparr>sName = nm, sOrdinal = a, sOf = b, sDone = c, sTotal = d\<rparr>" by (cases s)
  have "sound (encode_step s)" "depth (encode_step s) \<le> 2" using encode_depth(2) [of s] by simp_all
  note d = decode_object_sound [OF this [unfolded encode_step_def]]
  show ?thesis
    using assms unfolding decode_step_def encode_step_def d
    by (simp add: s zero_step_def fit_step_def fold_members_append unquote_plain_name step_field_def)
qed

lemma decode_encode_recall:
  assumes "fit_recall rc"
  shows "decode_recall zero_recall (indented layout n (encode_recall rc)) = Inr rc"
proof -
  obtain a b c d where rc: "rc = \<lparr>rcReason = a, rcBy = b, rcAt = c, rcUntil = d\<rparr>" by (cases rc)
  have "sound (encode_recall rc)" "depth (encode_recall rc) \<le> 2" using encode_depth(3) [of rc] by simp_all
  note d = decode_object_sound [OF this [unfolded encode_recall_def]]
  show ?thesis
    using assms unfolding decode_recall_def encode_recall_def d
    by (simp add: rc zero_recall_def fit_recall_def fold_members_append unquote_plain_name recall_field_def)
qed

lemma decode_encode_delegation:
  assumes "fit_delegation x"
  shows "decode_delegation \<lparr>dSystem = [], dExternalID = [], dDelivered = False\<rparr> (indented layout n (encode_delegation x)) = Inr x"
proof -
  obtain a b c where x: "x = \<lparr>dSystem = a, dExternalID = b, dDelivered = c\<rparr>" by (cases x)
  have "sound (encode_delegation x)" "depth (encode_delegation x) \<le> 2" using encode_depth(4) [of x] by simp_all
  note d = decode_object_sound [OF this [unfolded encode_delegation_def]]
  show ?thesis
    using assms unfolding decode_delegation_def encode_delegation_def d
    by (simp add: x fit_delegation_def fold_members_append unquote_plain_name delegation_field_def del: indented.simps)
qed

lemma decode_encode_envelope:
  assumes "fit_envelope x"
  shows "decode_envelope \<lparr>eSchema = [], eActions = []\<rparr> (indented layout n (encode_envelope x)) = Inr x"
proof -
  obtain a b where x: "x = \<lparr>eSchema = a, eActions = b\<rparr>" by (cases x)
  have "sound (encode_envelope x)" "depth (encode_envelope x) \<le> 2" using encode_depth(5) [of x] by simp_all
  note d = decode_object_sound [OF this [unfolded encode_envelope_def]]
  show ?thesis
    using assms unfolding decode_envelope_def encode_envelope_def d
    by (simp add: x fit_envelope_def fold_members_append unquote_plain_name envelope_field_def)
qed

lemma decode_pointer_encoded:
  assumes "sound (enc x)" "depth (enc x) \<le> 2" "enc x \<noteq> JNull" "dec zero (indented layout n (enc x)) = Inr x"
  shows "decode_pointer dec zero None (indented layout n (enc x)) = Inr (Some x)"
  using assms shallow_parse [OF assms(1,2)] by (simp add: decode_pointer_def)

lemma encode_not_null: "encode_intent i \<noteq> JNull" "encode_step s \<noteq> JNull" "encode_recall rc \<noteq> JNull"
  "encode_delegation d \<noteq> JNull" "encode_envelope e \<noteq> JNull"
  by (simp_all add: encode_intent_def encode_step_def encode_recall_def encode_delegation_def encode_envelope_def)

lemma decode_encode_progress:
  assumes "fit_progress p"
  shows "decode_progress zero_progress (indented layout n (encode_progress p)) = Inr p"
proof -
  obtain a b c st where p: "p = \<lparr>pDone = a, pTotal = b, pUpdatedAt = c, pStep = st\<rparr>" by (cases p)
  note d = decode_object_sound [OF encode_sound2(1) [of p, unfolded encode_progress_def] encode_depth2(1) [of p, unfolded encode_progress_def]]
  have st: "decode_pointer decode_step zero_step None (indented layout k (encode_step x)) = Inr (Some x)"
    if "st = Some x" for x k
    using assms that encode_depth(2) [of x]
    by (intro decode_pointer_encoded decode_encode_step) (simp_all add: p fit_progress_def encode_not_null)
  show ?thesis
    using assms unfolding decode_progress_def encode_progress_def d
    by (simp add: p zero_progress_def fit_progress_def fold_members_append unquote_plain_name progress_field_def st
        split: option.splits)
qed

lemma decode_encode_lease:
  assumes "fit_lease l"
  shows "decode_lease zero_lease (indented layout n (encode_lease l)) = Inr l"
proof -
  obtain a b c rc where l: "l = \<lparr>lOwner = a, lEpoch = b, lExpiresAt = c, lRecall = rc\<rparr>" by (cases l)
  note d = decode_object_sound [OF encode_sound2(2) [of l, unfolded encode_lease_def] encode_depth2(2) [of l, unfolded encode_lease_def]]
  have rc: "decode_pointer decode_recall zero_recall None (indented layout k (encode_recall x)) = Inr (Some x)"
    if "rc = Some x" for x k
    using assms that encode_depth(3) [of x]
    by (intro decode_pointer_encoded decode_encode_recall) (simp_all add: l fit_lease_def encode_not_null)
  show ?thesis
    using assms unfolding decode_lease_def encode_lease_def d
    by (simp add: l zero_lease_def fit_lease_def fold_members_append unquote_plain_name lease_field_def rc
        split: option.splits)
qed

section \<open>Reading the record back\<close>

definition shallow :: "nat \<Rightarrow> string \<Rightarrow> bool" where
  "shallow d raw \<longleftrightarrow> (case parse_json raw of None \<Rightarrow> True | Some v \<Rightarrow> depth v \<le> d)"

text \<open>A record the format can hold: valid UTF-8, numbers of 64 bits, instants of whole microseconds
  in the years 1 to 9999, and payloads that stay within the depth the reader allows (\<open>Encode\<close>
  does not check any of it).\<close>

definition fit_record :: "Record \<Rightarrow> bool" where
  "fit_record r \<longleftrightarrow>
     list_all ValidString (rContent r) \<and> list_all ValidString (rCritical r) \<and> ValidString (rID r) \<and> ValidString (rKind r)
   \<and> pred_option fit_envelope (rEnvelope r) \<and> shallow 63 (rSpec r) \<and> shallow 63 (rCheckpoint r)
   \<and> fit_progress (rProgress r) \<and> fit_lease (rLease r) \<and> pred_option fit_delegation (rDelegation r)
   \<and> list_all ValidString (rRequires r) \<and> ValidString (rError r) \<and> pred_option fit_intent (rIntent r)
   \<and> gomap_wf (rExtensions r) \<and> list_all (\<lambda>(k, raw). ValidString k \<and> shallow 62 raw) (rExtensions r)
   \<and> timely (rCreatedAt r) \<and> timely (rUpdatedAt r)"

definition payload :: "string \<Rightarrow> json" where
  "payload raw = the (parse_json raw)"

definition respell :: "nat \<Rightarrow> string \<Rightarrow> string" where
  "respell n raw = indented layout n (settled (payload raw))"

text \<open>The record as it comes back: the payloads laid out the way the document is.\<close>

definition respelled :: "Record \<Rightarrow> Record" where
  "respelled r = r\<lparr>rSpec := respell 1 (rSpec r),
     rCheckpoint := if rCheckpoint r = [] then [] else respell 1 (rCheckpoint r),
     rExtensions := map (\<lambda>k. (k, respell 2 (the (map_of (rExtensions r) k)))) (gomap_keys (rExtensions r))\<rparr>"

definition record_members :: "Record \<Rightarrow> json \<Rightarrow> json \<Rightarrow> json \<Rightarrow> (string \<times> json) list" where
  "record_members r spec checkpoint extensions =
       member True ''content'' (jstrings (rContent r))
       @ member (rCritical r \<noteq> []) ''critical'' (jstrings (rCritical r))
       @ member True ''id'' (jstr (rID r))
       @ member True ''kind'' (jstr (rKind r))
       @ pointer ''envelope'' encode_envelope (rEnvelope r)
       @ member True ''state'' (jstr (state_text (rState r)))
       @ member True ''spec'' spec
       @ member (rCheckpoint r \<noteq> []) ''checkpoint'' checkpoint
       @ member True ''progress'' (encode_progress (rProgress r))
       @ member True ''lease'' (encode_lease (rLease r))
       @ pointer ''delegation'' encode_delegation (rDelegation r)
       @ member (rRequires r \<noteq> []) ''requires'' (jstrings (rRequires r))
       @ member (rError r \<noteq> []) ''error'' (jstr (rError r))
       @ pointer ''intent'' encode_intent (rIntent r)
       @ member (rExtensions r \<noteq> []) ''extensions'' extensions
       @ member True ''created_at'' (jtime (rCreatedAt r))
       @ member True ''updated_at'' (jtime (rUpdatedAt r))"

definition entries :: "(json \<Rightarrow> json) \<Rightarrow> string gomap \<Rightarrow> (string \<times> json) list" where
  "entries g m = map (\<lambda>k. (quote_body False k, g (payload (the (map_of m k))))) (gomap_keys m)"

definition record_tree :: "(json \<Rightarrow> json) \<Rightarrow> Record \<Rightarrow> json" where
  "record_tree g r = JObj (record_members r (g (payload (rSpec r))) (g (payload (rCheckpoint r))) (JObj (entries g (rExtensions r))))"

lemma good_value_payload: "good_value raw \<Longrightarrow> parse_json raw = Some (payload raw) \<and> dup_free (payload raw) \<and> wf_json (payload raw) \<and> raw \<noteq> []"
proof -
  assume "good_value raw"
  then obtain v where v: "parse_json raw = Some v" "dup_free v" by (auto simp: good_value_def)
  have "parse_json [] = None" by code_simp
  with v have "raw \<noteq> []" by auto
  with v parse_json_wf [OF v(1)] show ?thesis by (simp add: payload_def)
qed

lemma good_values:
  assumes "well_formed r"
  shows "good_value (rSpec r)" "rCheckpoint r \<noteq> [] \<Longrightarrow> good_value (rCheckpoint r)"
    "k \<in> set (gomap_keys (rExtensions r)) \<Longrightarrow> good_value (the (map_of (rExtensions r) k))"
proof -
  show "good_value (rSpec r)" "rCheckpoint r \<noteq> [] \<Longrightarrow> good_value (rCheckpoint r)"
    using assms by (auto simp: well_formed_def)
  assume "k \<in> set (gomap_keys (rExtensions r))"
  then have "k \<in> fst ` set (rExtensions r)" by simp
  then obtain raw where "map_of (rExtensions r) k = Some raw" by (cases "map_of (rExtensions r) k") (auto simp: map_of_eq_None_iff)
  with assms show "good_value (the (map_of (rExtensions r) k))"
    by (auto simp: well_formed_def dest: map_of_SomeD)
qed

lemma raw_json_good: "good_value raw \<Longrightarrow> raw_json raw = Inr (payload raw)"
  using good_value_payload [of raw] by (simp add: raw_json_def)

lemma encode_entries_good:
  "\<forall>k \<in> set ks. good_value (the (map_of m k)) \<Longrightarrow>
     encode_entries m ks = Inr (map (\<lambda>k. (quote_body False k, payload (the (map_of m k)))) ks)"
  by (induction ks) (simp_all add: raw_json_good)

lemma encode_record_tree: "well_formed r \<Longrightarrow> encode_record r = Inr (record_tree (\<lambda>v. v) r)"
proof -
  assume wf: "well_formed r"
  then have "rContent r \<noteq> []" by (simp add: well_formed_def)
  with good_values [OF wf] show ?thesis
    by (simp add: encode_record_def raw_json_good encode_entries_good record_tree_def record_members_def entries_def member_def)
qed

lemma settled_entries: "map (\<lambda>(k, v). (escape_separators k, settled v)) (entries (\<lambda>v. v) m) = entries settled m"
  by (simp add: entries_def)

lemma settled_members:
  "map (\<lambda>(k, v). (escape_separators k, settled v)) (record_members r a b (JObj c))
     = record_members r (settled a) (settled b) (settled (JObj c))"
proof -
  have e: "escape_separators k = k" if "plain k" for k using that by (simp add: escape_ascii plain_ascii)
  have m: "map (\<lambda>(k, v). (escape_separators k, settled v)) (member p k v) = member p k (settled v)" if "plain k" for p k v
    using e [OF that] by (simp add: member_def)
  have q: "map (\<lambda>(k, v). (escape_separators k, settled v)) (pointer k enc x) = pointer k enc x"
    if "plain k" "\<And>y. sound (enc y)" for k and enc :: "'a \<Rightarrow> json" and x
    using e [OF that(1)] that(2) by (simp add: pointer_def sound_def split: option.splits)
  have s: "settled (jstr t) = jstr t" "settled (jstrings ts) = jstrings ts" "settled (jtime i) = jtime i"
    "settled (encode_progress p) = encode_progress p" "settled (encode_lease l) = encode_lease l" for t ts i p l
    using sound_jstr sound_jstrings sound_jtime encode_sound2 by (simp_all only: sound_def)
  show ?thesis
    unfolding record_members_def map_append by (simp only: m q s plain_names encode_sound)
qed

lemma settled_tree: "settled (record_tree (\<lambda>v. v) r) = record_tree settled r"
  unfolding record_tree_def settled_simps settled_members settled_entries ..

lemma dup_free_settled: "wf_json v \<Longrightarrow> dup_free (settled v) = dup_free v"
proof (induction v)
  case (JArr vs)
  then show ?case by (simp add: list_all_iff)
next
  case (JObj ms)
  have "map (\<lambda>(k, _). unquote k) (map (\<lambda>(k, v). (escape_separators k, settled v)) ms) = map (\<lambda>(k, _). unquote k) ms"
    using JObj.prems by (auto simp: list_all_iff unquote_escape_separators)
  moreover have "list_all (\<lambda>(_, v). dup_free v) (map (\<lambda>(k, v). (escape_separators k, settled v)) ms) = list_all (\<lambda>(_, v). dup_free v) ms"
    using JObj by (fastforce simp: list_all_iff)
  ultimately show ?case by (simp only: settled_simps dup_free.simps)
qed simp_all

lemma record_members_names:
  "distinct (map fst (record_members r a b c))" "fst ` set (record_members r a b c) \<subseteq> set record_fields"
  by (simp_all add: record_members_def record_fields_def image_Un split: option.splits)

lemma record_members_all:
  assumes "(k, v) \<in> set (record_members r a b c)"
  shows "sound v \<and> depth v \<le> 2 \<or> v = a \<or> (v = b \<and> rCheckpoint r \<noteq> []) \<or> (v = c \<and> rExtensions r \<noteq> [])"
proof -
  have d: "depth (encode_intent i) \<le> 2" "depth (encode_delegation x) \<le> 2" "depth (encode_envelope e) \<le> 2"
    "depth (encode_progress p) \<le> 2" "depth (encode_lease l) \<le> 2" for i x e p l
    using encode_depth(1) [of i] encode_depth(4) [of x] encode_depth(5) [of e] encode_depth2(1) [of p] encode_depth2(2) [of l]
    by simp_all
  from assms show ?thesis
    unfolding record_members_def set_append
    by (elim UnE; simp add: d split: if_splits option.splits)
qed

lemma record_fields_plain: "k \<in> set record_fields \<Longrightarrow> plain k"
  unfolding record_fields_def by (simp only: list.set insert_iff empty_iff) (elim disjE; simp)

lemma fit_depths:
  assumes "fit_record r" "well_formed r"
  shows "depth (payload (rSpec r)) \<le> 63" "rCheckpoint r \<noteq> [] \<Longrightarrow> depth (payload (rCheckpoint r)) \<le> 63"
    "k \<in> set (gomap_keys (rExtensions r)) \<Longrightarrow> depth (payload (the (map_of (rExtensions r) k))) \<le> 62"
    "k \<in> set (gomap_keys (rExtensions r)) \<Longrightarrow> ValidString k"
proof -
  note good = good_values [OF assms(2), THEN good_value_payload]
  show "depth (payload (rSpec r)) \<le> 63" "rCheckpoint r \<noteq> [] \<Longrightarrow> depth (payload (rCheckpoint r)) \<le> 63"
    using assms(1) good(1,2) by (auto simp: fit_record_def shallow_def)
  assume k: "k \<in> set (gomap_keys (rExtensions r))"
  then obtain raw where raw: "map_of (rExtensions r) k = Some raw"
    by (cases "map_of (rExtensions r) k") (auto simp: map_of_eq_None_iff)
  then have "ValidString k \<and> shallow 62 raw"
    using assms(1) by (auto simp: fit_record_def list_all_iff dest: map_of_SomeD)
  with good(3) [OF k] raw show "depth (payload (the (map_of (rExtensions r) k))) \<le> 62" "ValidString k"
    by (auto simp: shallow_def)
qed

definition keeps_tree :: "(json \<Rightarrow> json) \<Rightarrow> bool" where
  "keeps_tree g \<longleftrightarrow> (\<forall>v. wf_json v \<longrightarrow> wf_json (g v) \<and> dup_free (g v) = dup_free v \<and> depth (g v) = depth v)"

lemma keeps_treeD: "keeps_tree g \<Longrightarrow> wf_json v \<Longrightarrow> wf_json (g v)" "keeps_tree g \<Longrightarrow> wf_json v \<Longrightarrow> dup_free (g v) = dup_free v"
  "keeps_tree g \<Longrightarrow> wf_json v \<Longrightarrow> depth (g v) = depth v"
  by (simp_all add: keeps_tree_def)

lemma keeps_tree_settled [simp]: "keeps_tree settled"
  by (simp add: keeps_tree_def settled_wf dup_free_settled)

lemma keeps_tree_id [simp]: "keeps_tree (\<lambda>v. v)"
  by (simp add: keeps_tree_def)

lemma entries_clean:
  assumes "fit_record r" "well_formed r" "keeps_tree g"
  shows "wf_json (JObj (entries g (rExtensions r)))" "dup_free (JObj (entries g (rExtensions r)))"
    "depth (JObj (entries g (rExtensions r))) \<le> 63"
proof -
  let ?m = "rExtensions r"
  note good = good_values(3) [OF assms(2), THEN good_value_payload] and fit = fit_depths(3,4) [OF assms(1,2)]
  have "map (\<lambda>(k, _). unquote k) (entries g ?m) = gomap_keys ?m"
    using fit(2) by (auto simp: entries_def unquote_quote_body intro!: map_idI)
  then have d: "distinct (map (\<lambda>(k, _). unquote k) (entries g ?m))"
    using assms(1) distinct_gomap_keys [of ?m] by (simp only: fit_record_def)
  have "list_all (\<lambda>(_, v). dup_free v) (entries g ?m)"
    using good by (auto simp: entries_def list_all_iff keeps_treeD [OF assms(3)] simp del: set_gomap_keys)
  with d show "dup_free (JObj (entries g ?m))" by (simp only: dup_free.simps)
  show "wf_json (JObj (entries g ?m))"
    using good by (auto simp: entries_def list_all_iff str_lexeme_quote_body keeps_treeD [OF assms(3)] simp del: set_gomap_keys)
  have "depth (JObj (entries g ?m)) \<le> Suc 62"
    using fit(1) good by (intro depth_JObj_le) (auto simp: entries_def keeps_treeD [OF assms(3)] simp del: set_gomap_keys)
  then show "depth (JObj (entries g ?m)) \<le> 63" by (simp del: depth.simps)
qed

lemma record_tree_clean:
  assumes "fit_record r" "well_formed r" "keeps_tree g"
  shows "wf_json (record_tree g r)" "dup_free (record_tree g r)" "depth (record_tree g r) \<le> 64"
proof -
  let ?ms = "record_members r (g (payload (rSpec r))) (g (payload (rCheckpoint r))) (JObj (entries g (rExtensions r)))"
  note good = good_values(1,2) [OF assms(2), THEN good_value_payload] and fit = fit_depths(1,2) [OF assms(1,2)]
  have all: "wf_json v \<and> dup_free v \<and> depth v \<le> 63 \<and> plain k" if "(k, v) \<in> set ?ms" for k v
  proof -
    have "plain k" using that record_members_names(2) record_fields_plain by (metis fst_conv image_eqI subsetD)
    moreover have "wf_json v \<and> dup_free v \<and> depth v \<le> 63"
      using record_members_all [OF that] good fit entries_clean [OF assms]
      by (auto simp: sound_def keeps_treeD [OF assms(3)] simp del: depth.simps wf_json.simps dup_free.simps)
    ultimately show ?thesis by blast
  qed
  show "wf_json (record_tree g r)"
    using all plain_lexeme unfolding record_tree_def by (auto simp: list_all_iff)
  have "map (\<lambda>(k, _). unquote k) ?ms = map fst ?ms"
    using all by (auto simp: unquote_plain_name)
  then have "distinct (map (\<lambda>(k, _). unquote k) ?ms)" using record_members_names(1) by metis
  moreover have "list_all (\<lambda>(_, v). dup_free v) ?ms" using all by (auto simp: list_all_iff)
  ultimately show "dup_free (record_tree g r)" unfolding record_tree_def by (simp only: dup_free.simps)
  have "depth (JObj ?ms) \<le> Suc 63" using all by (intro depth_JObj_le) blast
  then show "depth (record_tree g r) \<le> 64" unfolding record_tree_def by (simp del: depth.simps)
qed

text \<open>The extensions.\<close>

lemma fold_put:
  "distinct (map fst m @ map (unquote \<circ> fst) ms) \<Longrightarrow>
     fold_members (\<lambda>m name raw. Inr (gomap_put name raw m)) m ms = Inr (m @ map (\<lambda>(k, raw). (unquote k, raw)) ms)"
proof (induction ms arbitrary: m)
  case (Cons p ms)
  obtain k raw where p: "p = (k, raw)" by (cases p)
  have "unquote k \<notin> fst ` set m" using Cons.prems p by auto
  then have "gomap_put (unquote k) raw m = m @ [(unquote k, raw)]"
    by (induction m) auto
  with Cons.IH [of "m @ [(unquote k, raw)]"] Cons.prems p show ?case by simp
qed simp

lemma decode_extensions_indented:
  assumes "fit_record r" "well_formed r"
  shows "decode_extensions [] (indented layout 1 (JObj (entries settled (rExtensions r))))
    = Inr (map (\<lambda>k. (k, respell 2 (the (map_of (rExtensions r) k)))) (gomap_keys (rExtensions r)))"
proof -
  let ?m = "rExtensions r"
  have d: "depth (JObj (entries settled ?m)) \<le> max_nesting"
    using entries_clean(3) [OF assms keeps_tree_settled] by (simp add: max_nesting_def del: depth.simps)
  note wf = entries_clean(1) [OF assms keeps_tree_settled]
  have u: "map (unquote \<circ> fst) (texts 2 (entries settled ?m)) = gomap_keys ?m"
    using fit_depths(4) [OF assms] by (auto simp: texts_def entries_def unquote_quote_body intro!: map_idI)
  have "map (\<lambda>(k, raw). (unquote k, raw)) (texts 2 (entries settled ?m))
      = map (\<lambda>k. (k, respell 2 (the (map_of ?m k)))) (gomap_keys ?m)"
    using fit_depths(4) [OF assms] by (auto simp: texts_def entries_def unquote_quote_body respell_def)
  moreover have "distinct (map fst [] @ map (unquote \<circ> fst) (texts 2 (entries settled ?m)))"
    unfolding u using assms(1) distinct_gomap_keys [of ?m] by (simp add: fit_record_def)
  ultimately show ?thesis
    using parse_indented [OF wf layout_white(1) d, of 1] decode_object_indented [OF wf d, of "\<lambda>m name raw. Inr (gomap_put name raw m)" "[]" 1]
      fold_put [of "[]" "texts 2 (entries settled ?m)"]
    by (simp add: decode_extensions_def numeral_2_eq_2 del: indented.simps)
qed

text \<open>The fields, one after the other.\<close>

definition read_part :: "Record \<Rightarrow> (string \<times> json) list \<Rightarrow> Record res" where
  "read_part s ms = fold_members (by_field record_fields record_field) s (texts 1 ms)"

lemma read_part_append: "read_part s (xs @ ys) = rbind (read_part s xs) (\<lambda>s'. read_part s' ys)"
  by (simp add: read_part_def fold_members_append)

lemma read_part_member:
  assumes "k \<in> set record_fields"
  shows "read_part s (member p k v) = (if p then record_field s k (indented layout 1 v) else Inr s)"
  using assms record_fields_plain [OF assms] by (simp add: read_part_def unquote_plain_name)

lemma read_part_pointer:
  assumes "k \<in> set record_fields"
  shows "read_part s (pointer k enc x) = (case x of None \<Rightarrow> Inr s | Some y \<Rightarrow> record_field s k (indented layout 1 (enc y)))"
  using assms record_fields_plain [OF assms] by (cases x) (simp_all add: read_part_def unquote_plain_name rbind_def split: sum.splits)

lemma record_fields_mem [simp]:
  "''content'' \<in> set record_fields" "''critical'' \<in> set record_fields" "''id'' \<in> set record_fields" "''kind'' \<in> set record_fields"
  "''envelope'' \<in> set record_fields" "''state'' \<in> set record_fields" "''spec'' \<in> set record_fields"
  "''checkpoint'' \<in> set record_fields" "''progress'' \<in> set record_fields" "''lease'' \<in> set record_fields"
  "''delegation'' \<in> set record_fields" "''requires'' \<in> set record_fields" "''error'' \<in> set record_fields"
  "''intent'' \<in> set record_fields" "''extensions'' \<in> set record_fields" "''created_at'' \<in> set record_fields"
  "''updated_at'' \<in> set record_fields"
  by (simp_all add: record_fields_def)

lemmas part_simps = read_part_member read_part_pointer record_field_def

lemma read_strings:
  "list_all ValidString x \<Longrightarrow> read_part s (member True ''content'' (jstrings x)) = Inr (s\<lparr>rContent := x\<rparr>)"
  "list_all ValidString x \<Longrightarrow> rCritical s = [] \<Longrightarrow> read_part s (member (x \<noteq> []) ''critical'' (jstrings x)) = Inr (s\<lparr>rCritical := x\<rparr>)"
  "list_all ValidString x \<Longrightarrow> rRequires s = [] \<Longrightarrow> read_part s (member (x \<noteq> []) ''requires'' (jstrings x)) = Inr (s\<lparr>rRequires := x\<rparr>)"
  by (cases s; simp add: part_simps)+

lemma read_texts:
  "ValidString x \<Longrightarrow> read_part s (member True ''id'' (jstr x)) = Inr (s\<lparr>rID := x\<rparr>)"
  "ValidString x \<Longrightarrow> read_part s (member True ''kind'' (jstr x)) = Inr (s\<lparr>rKind := x\<rparr>)"
  "ValidString x \<Longrightarrow> rError s = [] \<Longrightarrow> read_part s (member (x \<noteq> []) ''error'' (jstr x)) = Inr (s\<lparr>rError := x\<rparr>)"
  "ValidState t \<Longrightarrow> read_part s (member True ''state'' (jstr (state_text t))) = Inr (s\<lparr>rState := t\<rparr>)"
  using state_of_text [of t] by (cases s; simp add: part_simps)+

lemma read_times:
  "timely t \<Longrightarrow> read_part s (member True ''created_at'' (jtime t)) = Inr (s\<lparr>rCreatedAt := t\<rparr>)"
  "timely t \<Longrightarrow> read_part s (member True ''updated_at'' (jtime t)) = Inr (s\<lparr>rUpdatedAt := t\<rparr>)"
  by (simp_all add: part_simps)

lemma read_payloads:
  "read_part s (member True ''spec'' v) = Inr (s\<lparr>rSpec := indented layout 1 v\<rparr>)"
  "rCheckpoint s = [] \<Longrightarrow> read_part s (member p ''checkpoint'' v) = Inr (s\<lparr>rCheckpoint := if p then indented layout 1 v else []\<rparr>)"
  by (cases s; simp add: part_simps)+

lemma read_structs:
  "fit_progress p \<Longrightarrow> rProgress s = zero_progress \<Longrightarrow> read_part s (member True ''progress'' (encode_progress p)) = Inr (s\<lparr>rProgress := p\<rparr>)"
  "fit_lease l \<Longrightarrow> rLease s = zero_lease \<Longrightarrow> read_part s (member True ''lease'' (encode_lease l)) = Inr (s\<lparr>rLease := l\<rparr>)"
  by (simp_all add: part_simps decode_encode_progress decode_encode_lease)

lemma read_pointers:
  "pred_option fit_envelope e \<Longrightarrow> rEnvelope s = None \<Longrightarrow> read_part s (pointer ''envelope'' encode_envelope e) = Inr (s\<lparr>rEnvelope := e\<rparr>)"
  "pred_option fit_delegation d \<Longrightarrow> rDelegation s = None \<Longrightarrow> read_part s (pointer ''delegation'' encode_delegation d) = Inr (s\<lparr>rDelegation := d\<rparr>)"
  "pred_option fit_intent i \<Longrightarrow> rIntent s = None \<Longrightarrow> read_part s (pointer ''intent'' encode_intent i) = Inr (s\<lparr>rIntent := i\<rparr>)"
proof -
  have p1: "decode_pointer decode_envelope \<lparr>eSchema = [], eActions = []\<rparr> None (indented layout 1 (encode_envelope x)) = Inr (Some x)"
    if "fit_envelope x" for x
    using that encode_depth(5) [of x] by (intro decode_pointer_encoded decode_encode_envelope) (simp_all add: encode_not_null)
  have p2: "decode_pointer decode_delegation \<lparr>dSystem = [], dExternalID = [], dDelivered = False\<rparr> None
      (indented layout 1 (encode_delegation x)) = Inr (Some x)" if "fit_delegation x" for x
    using that encode_depth(4) [of x] by (intro decode_pointer_encoded decode_encode_delegation) (simp_all add: encode_not_null)
  have p3: "decode_pointer decode_intent \<lparr>iWant = WantOther [], iBy = [], iAt = 0\<rparr> None
      (indented layout 1 (encode_intent x)) = Inr (Some x)" if "fit_intent x" for x
    using that encode_depth(1) [of x] by (intro decode_pointer_encoded decode_encode_intent) (simp_all add: encode_not_null)
  show "pred_option fit_envelope e \<Longrightarrow> rEnvelope s = None \<Longrightarrow> read_part s (pointer ''envelope'' encode_envelope e) = Inr (s\<lparr>rEnvelope := e\<rparr>)"
    using p1 by (cases s; cases e) (simp_all add: part_simps)
  show "pred_option fit_delegation d \<Longrightarrow> rDelegation s = None \<Longrightarrow> read_part s (pointer ''delegation'' encode_delegation d) = Inr (s\<lparr>rDelegation := d\<rparr>)"
    using p2 by (cases s; cases d) (simp_all add: part_simps)
  show "pred_option fit_intent i \<Longrightarrow> rIntent s = None \<Longrightarrow> read_part s (pointer ''intent'' encode_intent i) = Inr (s\<lparr>rIntent := i\<rparr>)"
    using p3 by (cases s; cases i) (simp_all add: part_simps)
qed

lemma read_extensions:
  assumes "decode_extensions [] (indented layout 1 v) = Inr m" "rExtensions s = []"
  shows "read_part s (member p ''extensions'' v) = Inr (s\<lparr>rExtensions := if p then m else []\<rparr>)"
  using assms by (cases s) (simp add: part_simps)

lemma decode_record_members:
  assumes "fit_record r" "well_formed r"
  shows "read_part zero_record (record_members r (settled (payload (rSpec r))) (settled (payload (rCheckpoint r)))
        (JObj (entries settled (rExtensions r)))) = Inr (respelled r)"
proof -
  have st: "ValidState (rState r)" using assms(2) by (simp add: well_formed_def)
  have fit: "list_all ValidString (rContent r)" "list_all ValidString (rCritical r)" "ValidString (rID r)" "ValidString (rKind r)"
    "fit_progress (rProgress r)" "fit_lease (rLease r)" "list_all ValidString (rRequires r)" "ValidString (rError r)"
    "timely (rCreatedAt r)" "timely (rUpdatedAt r)" "pred_option fit_envelope (rEnvelope r)"
    "pred_option fit_delegation (rDelegation r)" "pred_option fit_intent (rIntent r)"
    using assms(1) by (simp_all add: fit_record_def)
  note ext = read_extensions [OF decode_extensions_indented [OF assms]]
  have zero: "rCritical zero_record = []" "rRequires zero_record = []" "rError zero_record = []" "rCheckpoint zero_record = []"
    "rProgress zero_record = zero_progress" "rLease zero_record = zero_lease" "rEnvelope zero_record = None"
    "rDelegation zero_record = None" "rIntent zero_record = None" "rExtensions zero_record = []"
    by (simp_all add: zero_record_def)
  have "respelled r = zero_record\<lparr>rContent := rContent r, rCritical := rCritical r, rID := rID r, rKind := rKind r,
      rEnvelope := rEnvelope r, rState := rState r, rSpec := indented layout 1 (settled (payload (rSpec r))),
      rCheckpoint := if rCheckpoint r \<noteq> [] then indented layout 1 (settled (payload (rCheckpoint r))) else [],
      rProgress := rProgress r, rLease := rLease r, rDelegation := rDelegation r, rRequires := rRequires r,
      rError := rError r, rIntent := rIntent r,
      rExtensions := if rExtensions r \<noteq> [] then map (\<lambda>k. (k, respell 2 (the (map_of (rExtensions r) k)))) (gomap_keys (rExtensions r)) else [],
      rCreatedAt := rCreatedAt r, rUpdatedAt := rUpdatedAt r\<rparr>"
    by (cases r) (simp add: respelled_def zero_record_def respell_def gomap_keys_def)
  then show ?thesis
    unfolding record_members_def
    by (simp add: read_part_append read_strings read_texts read_times read_payloads read_structs read_pointers ext fit st zero)
qed

section \<open>The round trip\<close>

lemma legacy_none:
  assumes "fst ` set ms \<subseteq> set record_fields"
  shows "foldl legacy_member None ms = None"
proof -
  have f: "fold_name k = map (\<lambda>c. fold_rune (byte c)) k" if "plain k" for k
    using plain_byte [OF that] by (induction k) (auto simp: fold_name_def)
  have n: "field_of [''schema''] (unquote k) = None" if "k \<in> set record_fields" for k
  proof -
    have "k \<noteq> ''schema'' \<and> map (\<lambda>c. fold_rune (byte c)) ''schema'' \<noteq> map (\<lambda>c. fold_rune (byte c)) k"
      using that unfolding record_fields_def
      by (simp only: list.set insert_iff empty_iff) (elim disjE; simp add: fold_rune_def byte_def)
    then show ?thesis
      using record_fields_plain [OF that] f [of k] f [of "''schema''"] by (simp add: field_of_def unquote_plain_name)
  qed
  from assms show ?thesis
    by (induction ms) (auto simp: legacy_member_def n)
qed

lemma TrimSpace_head:
  assumes "byte c < 0x80" "\<not> IsSpace (byte c)"
  shows "\<exists>t'. TrimSpace (c # t) = c # t'"
proof -
  let ?sp = "\<lambda>(r, _ :: string). IsSpace r"
  have r: "runes (c # t) = (byte c, [c]) # runes t" using assms(1) by simp
  have d: "dropWhile ?sp (runes (c # t)) = (byte c, [c]) # runes t" unfolding r using assms(2) by simp
  have "\<exists>xs. dropWhile ?sp (us @ [(byte c, [c])]) = xs @ [(byte c, [c])]" for us
    using assms(2) by (induction us) auto
  then obtain xs where "dropWhile ?sp (rev ((byte c, [c]) # runes t)) = xs @ [(byte c, [c])]" by auto
  then show ?thesis unfolding TrimSpace_def Let_def d by simp
qed

lemma num_lexeme_head': "num_lexeme l \<Longrightarrow> \<exists>c t. l = c # t \<and> (c = CHR ''-'' \<or> is_digit c)"
proof -
  have "is_digit CHR ''0''" by (simp add: is_digit_def between_def byte_def)
  then show "num_lexeme l \<Longrightarrow> ?thesis"
    by (auto simp: num_lexeme_def scan_num_def scan_int_def split: list.splits if_splits option.splits)
qed

lemma indented_not_null:
  assumes "wf_json v" "v \<noteq> JNull"
  shows "TrimSpace (indented w n v) \<noteq> ''null''"
proof -
  have "\<exists>c t. indented w n v = c # t \<and> byte c < 0x80 \<and> \<not> IsSpace (byte c) \<and> c \<noteq> CHR ''n''"
  proof (cases v)
    case (JNum l)
    then obtain c t where "l = c # t" "c = CHR ''-'' \<or> is_digit c"
      using num_lexeme_head' [of l] assms(1) by auto
    with JNum show ?thesis by (auto simp: IsSpace_def is_digit_def between_def byte_def)
  next
    case (JArr vs)
    then show ?thesis by (cases "vs = []") (auto simp: IsSpace_def byte_def)
  next
    case (JObj ms)
    then show ?thesis by (cases "ms = []") (auto simp: IsSpace_def byte_def)
  qed (use assms in \<open>auto simp: IsSpace_def byte_def\<close>)
  then show ?thesis using TrimSpace_head by (metis list.inject)
qed

lemma respell_good:
  assumes "good_value raw" "depth (payload raw) \<le> 64"
  shows "parse_json (respell n raw) = Some (settled (payload raw))" "good_value (respell n raw)"
proof -
  note g = good_value_payload [OF assms(1)]
  show p: "parse_json (respell n raw) = Some (settled (payload raw))"
    unfolding respell_def using g assms(2) by (intro parse_indented layout_white settled_wf) (simp_all add: max_nesting_def)
  with g show "good_value (respell n raw)" by (simp add: good_value_def dup_free_settled)
qed

lemma well_formed_respelled:
  assumes "fit_record c" "well_formed c"
  shows "well_formed (respelled c)" "TrimSpace (rSpec (respelled c)) \<noteq> ''null''"
proof -
  note good = good_values [OF assms(2)] and fit = fit_depths [OF assms]
  have spec: "parse_json (respell 1 (rSpec c)) = Some (settled (payload (rSpec c)))" "good_value (respell 1 (rSpec c))"
    using respell_good [OF good(1)] fit(1) by simp_all
  have cp: "rCheckpoint c \<noteq> [] \<Longrightarrow> good_value (respell 1 (rCheckpoint c))"
    using respell_good(2) [OF good(2)] fit(2) by force
  have ext: "good_value (respell 2 (the (map_of (rExtensions c) k)))" if "k \<in> set (gomap_keys (rExtensions c))" for k
    using respell_good(2) [OF good(3) [OF that]] fit(3) [OF that] by simp
  have null: "payload (rSpec c) \<noteq> JNull"
    using assms(2) good_value_payload [OF good(1)] by (auto simp: well_formed_def)
  have sn: "settled v = JNull \<Longrightarrow> v = JNull" for v by (cases v) auto
  have names: "\<forall>k \<in> set (gomap_keys (rExtensions c)). \<not> blank k" using assms(2) by (auto simp: well_formed_def)
  show "well_formed (respelled c)"
    using assms(2) spec cp ext null sn names
    unfolding well_formed_def respelled_def by (auto simp del: set_gomap_keys)
  show "TrimSpace (rSpec (respelled c)) \<noteq> ''null''"
  proof -
    have "wf_json (settled (payload (rSpec c)))" "settled (payload (rSpec c)) \<noteq> JNull"
      using null sn good_value_payload [OF good(1)] settled_wf by blast+
    then show ?thesis using indented_not_null by (simp add: respelled_def respell_def)
  qed
qed

lemma well_formed_Validate:
  assumes "well_formed r" "TrimSpace (rSpec r) \<noteq> ''null''"
  shows "Validate r = Inr ()"
proof -
  note good = good_values(1,2) [OF assms(1), THEN good_value_payload]
  have spec: "rSpec r \<noteq> []" "Valid (rSpec r)" "refuseDuplicateNames (rSpec r) = Inr ()"
    using good(1) by (auto simp: Valid_parse refuseDuplicateNames_valid)
  have cp: "rCheckpoint r = [] \<or> Valid (rCheckpoint r)" "refuseDuplicateNames (rCheckpoint r) = Inr ()"
    using good(2) by (cases "rCheckpoint r = []"; auto simp: Valid_parse refuseDuplicateNames_valid)+
  have parts: "validate_content r = Inr ()" "validate_extensions (rExtensions r) = Inr ()"
    "validate_step (pStep (rProgress r)) = Inr ()" "validate_delegation (rDelegation r) = Inr ()"
    "validate_recall (lRecall (rLease r)) = Inr ()"
    using assms(1) by (auto simp: well_formed_def validate_content_ok validate_extensions_iff validate_parts_ok good_value_def)
  show ?thesis
    using assms spec cp parts
    by (auto simp: Validate_def well_formed_def split: option.splits)
qed

lemma Decode_marshalled:
  assumes "fit_record c" "Validate c = Inr ()" "marshalRecord c = Inr b"
  shows "Decode b = Inr (respelled c)"
proof -
  have wf: "well_formed c" using assms(2) by (rule Validate_well_formed)
  let ?t = "record_tree (\<lambda>v. v) c" and ?T = "record_tree settled c"
  note t = record_tree_clean [OF assms(1) wf keeps_tree_id] and T = record_tree_clean [OF assms(1) wf keeps_tree_settled]
  have m: "marshalJSON ?t layout = Inr b"
    using assms(3) by (simp add: marshalRecord_def encode_record_tree [OF wf] layout_def)
  have b: "b = indented layout 0 ?T @ [CHR 0x0A]"
    using marshalJSON_eq [OF t(1) layout_white] t(3) m by (simp add: settled_tree max_nesting_def)
  have p: "parse_json b = Some ?T"
    using marshalJSON_parse(1) [OF t(1) layout_white m] by (simp add: settled_tree)
  have scans: "refuseDeepNesting b = Inr ()" "refuseDuplicateNames b = Inr ()"
    using refuseDeepNesting_valid [OF p] refuseDuplicateNames_valid [OF p] T by (simp_all add: depthLimit_def)
  obtain ms where ms: "?T = JObj ms" "fst ` set ms \<subseteq> set record_fields"
    using record_members_names(2) by (simp add: record_tree_def)
  have legacy: "legacy_schema b = None"
    unfolding legacy_schema_def p ms(1) using legacy_none [OF ms(2)] by simp
  have e: "num_end [CHR 0x0A]" by (simp add: num_end_def is_digit_def between_def byte_def)
  have "parse_value (2 * length b + 1) max_nesting b = Some (?T, [CHR 0x0A])"
    unfolding b by (rule reads_inD [OF reads_in_wf [OF T(1) layout_white(1)] _ e]) (use T(3) in \<open>simp_all add: max_nesting_def\<close>)
  then have f: "first_value b = Some (indented layout 0 ?T)"
    by (simp add: first_value_def b del: parse_value.simps)
  have d: "depth ?T \<le> max_nesting" using T(3) by (simp add: max_nesting_def)
  have doc: "decode_document b = Inr (respelled c)"
    using decode_record_members [OF assms(1) wf] decode_object_indented [OF T(1) [unfolded record_tree_def] d [unfolded record_tree_def],
        of "by_field record_fields record_field" zero_record 0]
    unfolding decode_document_def f by (simp add: record_tree_def read_part_def del: indented.simps)
  have "set (rCritical (respelled c)) \<subseteq> set known"
    using wf by (auto simp: well_formed_def respelled_def neverCritical_def known_def)
  then have "decodeRecord b = Inr (respelled c)"
    by (simp add: decodeRecord_def scans legacy doc Understands_iff)
  then show ?thesis
    using well_formed_Validate [OF well_formed_respelled [OF assms(1) wf]] by (simp add: Decode_def)
qed

end
