(* ===== verification/CodecSafety.thy ===== *)
theory CodecSafety
  imports CodecRoundtrip
begin

text \<open>
  The properties of the record's codec: the round trip, what a record has passed once it is in,
  and the errors it can be refused with.
\<close>

section \<open>The round trip\<close>

text \<open>The record as read back says what the one written said: every field but the opaque payloads
  is the same, and a payload is the same tree with its line separators escaped.\<close>

definition same_document :: "Record \<Rightarrow> Record \<Rightarrow> bool" where
  "same_document c q \<longleftrightarrow>
     q = c\<lparr>rSpec := rSpec q, rCheckpoint := rCheckpoint q, rExtensions := rExtensions q\<rparr>
   \<and> parse_json (rSpec q) = map_option settled (parse_json (rSpec c))
   \<and> (if rCheckpoint c = [] then rCheckpoint q = []
      else parse_json (rCheckpoint q) = map_option settled (parse_json (rCheckpoint c)))
   \<and> dom (map_of (rExtensions q)) = dom (map_of (rExtensions c))
   \<and> (\<forall>k x y. map_of (rExtensions c) k = Some x \<longrightarrow> map_of (rExtensions q) k = Some y \<longrightarrow>
        parse_json y = map_option settled (parse_json x))"

lemma map_of_pairs: "map_of (map (\<lambda>k. (k, f k)) ks) k = (if k \<in> set ks then Some (f k) else None)"
  by (induction ks) auto

lemma respelled_same_document:
  assumes "fit_record c" "well_formed c"
  shows "same_document c (respelled c)"
proof -
  note good = good_values [OF assms(2)] and fit = fit_depths [OF assms]
  have p: "parse_json raw = Some (payload raw)" if "good_value raw" for raw
    using good_value_payload [OF that] by simp
  have spec: "parse_json (respell 1 (rSpec c)) = Some (settled (payload (rSpec c)))"
    using respell_good(1) [OF good(1)] fit(1) by simp
  have cp: "parse_json (respell 1 (rCheckpoint c)) = Some (settled (payload (rCheckpoint c)))" if "rCheckpoint c \<noteq> []"
    using respell_good(1) [OF good(2) [OF that]] fit(2) [OF that] by simp
  have ext: "parse_json (respell 2 x) = map_option settled (parse_json x)" if "map_of (rExtensions c) k = Some x" for k x
  proof -
    have k: "k \<in> set (gomap_keys (rExtensions c))" using map_of_SomeD [OF that] by force
    have "the (map_of (rExtensions c) k) = x" using that by simp
    then show ?thesis
      using respell_good(1) [OF good(3) [OF k]] fit(3) [OF k] p [OF good(3) [OF k]] by simp
  qed
  have names: "dom (map_of (rExtensions (respelled c))) = dom (map_of (rExtensions c))"
    by (simp add: respelled_def dom_map_of_conv_image_fst image_image)
  show ?thesis
    unfolding same_document_def
  proof (intro conjI allI impI)
    show "respelled c = c\<lparr>rSpec := rSpec (respelled c), rCheckpoint := rCheckpoint (respelled c), rExtensions := rExtensions (respelled c)\<rparr>"
      by (simp add: respelled_def)
    show "parse_json (rSpec (respelled c)) = map_option settled (parse_json (rSpec c))"
      using spec p [OF good(1)] by (simp add: respelled_def)
    show "if rCheckpoint c = [] then rCheckpoint (respelled c) = []
        else parse_json (rCheckpoint (respelled c)) = map_option settled (parse_json (rCheckpoint c))"
      using cp p [OF good(2)] by (simp add: respelled_def)
    show "parse_json y = map_option settled (parse_json x)"
      if "map_of (rExtensions c) k = Some x" "map_of (rExtensions (respelled c)) k = Some y" for k x y
      using ext [OF that(1)] that by (auto simp: respelled_def map_of_pairs split: if_splits)
  qed (rule names)
qed

lemma Encode_parts:
  "Encode r = Inr (c, b) \<longleftrightarrow> canonicalise r = Inr c \<and> Validate c = Inr () \<and> marshalRecord c = Inr b"
  by (auto simp: Encode_def res_simps)

text \<open>C1: What \<open>Encode\<close> writes \<open>Decode\<close> reads.  For a record the format can hold (valid UTF-8,
  instants of whole microseconds in the years 1 to 9999, payloads no deeper than the reader
  allows), decoding the bytes gives back the record \<open>Encode\<close> left behind: every field is the
  same, and every opaque payload is the same JSON tree, laid out as the document is, with only
  its raw line separators escaped; no string of it changes its meaning.\<close>

theorem Encode_Decode:
  assumes "Encode r = Inr (c, b)" "fit_record c"
  shows "\<exists>q. Decode b = Inr q \<and> same_document c q"
  using assms Decode_marshalled respelled_same_document Validate_well_formed unfolding Encode_parts by blast

lemma marshalRecord_total:
  assumes "well_formed c" "fit_record c"
  obtains b where "marshalRecord c = Inr b"
proof -
  note t = record_tree_clean [OF assms(2,1) keeps_tree_id]
  have "marshalJSON (record_tree (\<lambda>v. v) c) layout = Inr (indented layout 0 (settled (record_tree (\<lambda>v. v) c)) @ [CHR 0x0A])"
    using t(3) by (intro marshalJSON_eq [OF t(1) layout_white]) (simp add: max_nesting_def)
  with that show thesis by (simp add: marshalRecord_def encode_record_tree [OF assms(1)] layout_def)
qed

definition sample_job :: Record where
  "sample_job = sample\<lparr>rIntent := Some \<lparr>iWant = WantPause, iBy = ''me'', iAt = 0\<rparr>\<rparr>"

lemma sample_job_canonical:
  "canonicalise sample_job = Inr (describe sample_job)"
  by (simp add: canonicalise_def canonicalCheckpoint_def sample_job_def sample_simps)

lemma parse_braces: "parse_json ''{}'' = Some (JObj [])"
  by code_simp

lemma sample_job_valid: "Validate (describe sample_job) = Inr ()"
  by (rule well_formed_Validate)
    (simp_all add: well_formed_def good_value_def parse_braces sample_job_def eval_record ValidWant_def)

lemma sample_job_fit: "fit_record (describe sample_job)"
  by (simp add: fit_record_def sample_job_def eval_record fit_intent_def fit_progress_def fit_lease_def ValidWant_def
      timely_def spellable_def At_def int64_def shallow_def parse_braces gomap_wf_def) code_simp

theorem Encode_Decode_witness:
  "\<exists>b q. Encode sample_job = Inr (describe sample_job, b) \<and> Decode b = Inr q \<and> same_document (describe sample_job) q"
proof -
  obtain b where "marshalRecord (describe sample_job) = Inr b"
    using marshalRecord_total [OF Validate_well_formed [OF sample_job_valid] sample_job_fit] .
  then have e: "Encode sample_job = Inr (describe sample_job, b)"
    by (simp add: Encode_parts sample_job_canonical sample_job_valid)
  from Encode_Decode [OF this sample_job_fit] e show ?thesis by blast
qed

section \<open>A record no reader accepts\<close>

fun nested :: "nat \<Rightarrow> json" where
  "nested 0 = JArr []"
| "nested (Suc n) = JArr [nested n]"

lemma nested_props: "wf_json (nested n)" "depth (nested n) = Suc n" "dup_free (nested n)" "settled (nested n) = nested n"
  "nested n \<noteq> JNull"
  by (induction n) simp_all

lemma record_tree_wf:
  assumes "well_formed r"
  shows "wf_json (record_tree (\<lambda>v. v) r)"
proof -
  note good = good_values [OF assms, THEN good_value_payload]
  have e: "wf_json (JObj (entries (\<lambda>v. v) (rExtensions r)))"
    using good(3) by (auto simp: entries_def list_all_iff str_lexeme_quote_body simp del: set_gomap_keys)
  have "wf_json v \<and> plain k"
    if "(k, v) \<in> set (record_members r (payload (rSpec r)) (payload (rCheckpoint r)) (JObj (entries (\<lambda>v. v) (rExtensions r))))" for k v
  proof -
    have "plain k" using that record_members_names(2) record_fields_plain by (metis fst_conv image_eqI subsetD)
    moreover have "wf_json v" using record_members_all [OF that] good e by (auto simp: sound_def simp del: wf_json.simps)
    ultimately show ?thesis by blast
  qed
  then show ?thesis using plain_lexeme unfolding record_tree_def by (auto simp: list_all_iff)
qed

lemma depth_JObj_member: "(k, v) \<in> set ms \<Longrightarrow> depth v < depth (JObj ms)"
  using foldr_max_le [of "map (\<lambda>(k, v). depth v) ms" "foldr max (map (\<lambda>(k, v). depth v) ms) 0"] by fastforce

text \<open>The writer does not count the depth the reader limits: a record whose payload reaches the
  limit is written, and the bytes are refused by the very next \<open>Decode\<close>.\<close>

lemma Encode_too_deep:
  assumes "Encode r = Inr (c, b)" "64 \<le> depth (payload (rSpec c))"
  shows "Decode b = Inl ErrInvalid"
proof -
  have c: "well_formed c" "marshalRecord c = Inr b" using assms(1) Validate_well_formed unfolding Encode_parts by blast+
  let ?t = "record_tree (\<lambda>v. v) c"
  have m: "marshalJSON ?t layout = Inr b"
    using c by (simp add: marshalRecord_def encode_record_tree layout_def)
  note p = marshalJSON_parse [OF record_tree_wf [OF c(1)] layout_white m]
  have "(''spec'', payload (rSpec c)) \<in> set (record_members c (payload (rSpec c)) x y)" for x y
    by (simp add: record_members_def)
  from depth_JObj_member [OF this, of "payload (rCheckpoint c)" "JObj (entries (\<lambda>v. v) (rExtensions c))"]
  have "64 < depth ?t" using assms(2) unfolding record_tree_def by linarith
  then have "refuseDeepNesting b \<noteq> Inr ()"
    using refuseDeepNesting_valid [OF p(1)] by (simp add: depthLimit_def)
  then have "refuseDeepNesting b = Inl ErrInvalid" using refuseDeepNesting_cases by blast
  then show ?thesis by (simp add: Decode_def decodeRecord_def)
qed

definition deep_job :: Record where
  "deep_job = sample\<lparr>rSpec := print_json (nested 63)\<rparr>"

lemma deep_job_spec: "parse_json (rSpec deep_job) = Some (nested 63)"
  using parse_print [OF nested_props(1), of 63] by (simp add: deep_job_def nested_props(2) max_nesting_def)

lemma deep_job_encodes: "\<exists>b. Encode deep_job = Inr (describe deep_job, b)"
proof -
  have head: "\<exists>t. rSpec deep_job = CHR ''['' # t" by (simp add: deep_job_def numeral_eq_Suc)
  then obtain t where t: "rSpec deep_job = CHR ''['' # t" by blast
  have "TrimSpace (rSpec deep_job) \<noteq> ''null''"
    using TrimSpace_head [of "CHR ''[''" t] unfolding t by (auto simp: byte_def IsSpace_def)
  moreover have w: "well_formed (describe deep_job)"
    using deep_job_spec nested_props(3,5)
    by (simp add: well_formed_def good_value_def describe_keeps) (simp add: deep_job_def eval_record)
  ultimately have v: "Validate (describe deep_job) = Inr ()"
    by (intro well_formed_Validate) (simp_all add: describe_keeps)
  have "depth (record_tree (\<lambda>v. v) (describe deep_job)) \<le> max_nesting"
  proof -
    have s: "payload (rSpec (describe deep_job)) = nested 63" using deep_job_spec by (simp add: payload_def describe_keeps)
    have "\<forall>(k, v) \<in> set (record_members (describe deep_job) (nested 63) x (JObj [])). depth v \<le> 64" if "x = JNull" for x
      using record_members_all [of _ _ "describe deep_job" "nested 63" x "JObj []"] that by (fastforce simp: nested_props(2))
    then have "\<forall>(k, v) \<in> set (record_members (describe deep_job) (nested 63) JNull (JObj [])). depth v \<le> 64" by blast
    moreover have "record_tree (\<lambda>v. v) (describe deep_job) = JObj (record_members (describe deep_job) (nested 63) JNull (JObj []))"
      unfolding record_tree_def s by (simp add: record_members_def member_def describe_keeps) (simp add: deep_job_def eval_record)
    ultimately show ?thesis using depth_JObj_le by (fastforce simp: max_nesting_def simp del: depth.simps)
  qed
  then have "marshalJSON (record_tree (\<lambda>v. v) (describe deep_job)) layout
      = Inr (indented layout 0 (settled (record_tree (\<lambda>v. v) (describe deep_job))) @ [CHR 0x0A])"
    by (rule marshalJSON_eq [OF record_tree_wf [OF w] layout_white])
  then obtain b where "marshalRecord (describe deep_job) = Inr b"
    by (simp add: marshalRecord_def encode_record_tree [OF w] layout_def)
  moreover have "canonicalise deep_job = Inr (describe deep_job)"
    by (simp add: canonicalise_def canonicalCheckpoint_def deep_job_def sample_simps)
  ultimately show ?thesis using v by (auto simp: Encode_parts)
qed


section \<open>The doors\<close>

definition only_invalid :: "'a res \<Rightarrow> bool" where
  "only_invalid x \<longleftrightarrow> (\<forall>e. x = Inl e \<longrightarrow> e = ErrInvalid)"

lemma only_invalid_intros:
  "only_invalid (Inr x)" "only_invalid (Inl ErrInvalid)"
  "only_invalid y \<Longrightarrow> (\<And>x. only_invalid (g x)) \<Longrightarrow> only_invalid (rbind y g)"
  "only_invalid y \<Longrightarrow> only_invalid z \<Longrightarrow> only_invalid (if p then y else z)"
  by (auto simp: only_invalid_def rbind_def split: sum.splits)

lemma only_invalid_leaves:
  "only_invalid (decode_string prev v)" "only_invalid (decode_bool b v)" "only_invalid (decode_int n v)" "only_invalid (UnmarshalTime raw)"
  by (auto simp: decode_string_def decode_bool_def decode_int_def UnmarshalTime_def Let_def only_invalid_def
      split: json.splits option.splits if_splits)

lemma only_invalid_elems: "(\<And>p v. only_invalid (dec p v)) \<Longrightarrow> only_invalid (decode_elems dec z prev vs)"
  by (induction dec z prev vs rule: decode_elems.induct) (simp_all add: only_invalid_intros)

lemma only_invalid_strings: "only_invalid (decode_strings prev v)"
  unfolding decode_strings_def decode_slice_def
  by (cases v) (simp_all add: only_invalid_intros only_invalid_elems only_invalid_leaves)

lemma only_invalid_value: "(\<And>v. only_invalid (dec v)) \<Longrightarrow> only_invalid (value_of dec raw)"
  by (simp add: value_of_def only_invalid_intros split: option.splits)

lemma only_invalid_fold: "(\<And>s k raw. only_invalid (step s k raw)) \<Longrightarrow> only_invalid (fold_members step s ms)"
  by (induction step s ms rule: fold_members.induct) (simp_all add: only_invalid_intros)

lemma only_invalid_object: "(\<And>s k raw. only_invalid (step s k raw)) \<Longrightarrow> only_invalid (decode_object step s raw)"
  unfolding decode_object_def by (simp add: only_invalid_intros only_invalid_fold split: option.splits json.splits)

lemma only_invalid_by_field: "(\<And>s k raw. only_invalid (step s k raw)) \<Longrightarrow> only_invalid (by_field names step s k raw)"
  by (simp add: by_field_def only_invalid_intros split: option.splits)

lemma only_invalid_pointer: "(\<And>s raw. only_invalid (dec s raw)) \<Longrightarrow> only_invalid (decode_pointer dec z prev raw)"
  by (simp add: decode_pointer_def only_invalid_intros)

lemmas only_invalid_rules = only_invalid_leaves only_invalid_strings only_invalid_value only_invalid_object
  only_invalid_by_field only_invalid_pointer

lemma only_invalid_structs:
  "only_invalid (decode_intent i raw)" "only_invalid (decode_step s raw)" "only_invalid (decode_recall rc raw)"
  "only_invalid (decode_delegation d raw)" "only_invalid (decode_envelope e raw)" "only_invalid (decode_extensions m raw)"
  unfolding decode_intent_def decode_step_def decode_recall_def decode_delegation_def decode_envelope_def decode_extensions_def
    intent_field_def step_field_def recall_field_def delegation_field_def envelope_field_def
  by (intro only_invalid_intros only_invalid_rules)+

lemma only_invalid_structs2: "only_invalid (decode_progress p raw)" "only_invalid (decode_lease l raw)"
  unfolding decode_progress_def decode_lease_def progress_field_def lease_field_def
  by (intro only_invalid_intros only_invalid_rules only_invalid_structs)+

lemma only_invalid_record: "only_invalid (record_field r k raw)"
  unfolding record_field_def
  by (intro only_invalid_intros only_invalid_rules only_invalid_structs only_invalid_structs2)

lemma only_invalid_document: "only_invalid (decode_document b)"
  unfolding decode_document_def
  by (simp add: only_invalid_intros only_invalid_object only_invalid_by_field only_invalid_record split: option.splits)

lemma only_invalid_stripped: "only_invalid (decode_stripped b)"
proof -
  have "only_invalid (unmarshal_map b)" by (simp add: unmarshal_map_def only_invalid_intros split: option.splits json.splits)
  moreover have "only_invalid (marshalCompact v)" for v by (simp add: marshalCompact_def marshalJSON_def only_invalid_intros)
  ultimately show ?thesis unfolding decode_stripped_def by (intro only_invalid_intros only_invalid_document)
qed

lemma decodeRecord_guards:
  assumes "decodeRecord b = Inr r"
  shows "refuseDeepNesting b = Inr ()" "refuseDuplicateNames b = Inr ()" "set (rCritical r) \<subseteq> set known"
  using assms by (auto simp: decodeRecord_def Let_def res_simps Understands_iff split: if_splits)

lemma decodeRecord_errors: "decodeRecord b = Inl e \<Longrightarrow> e = ErrInvalid \<or> e = ErrUnknownSchema"
proof -
  assume a: "decodeRecord b = Inl e"
  have scans: "only_invalid (refuseDeepNesting b)" "only_invalid (refuseDuplicateNames b)"
    using refuseDeepNesting_cases [of b] refuseDuplicateNames_no_panic' [of b] by (auto simp: only_invalid_def)
  have doc: "only_invalid (case decode_document b of Inr r \<Rightarrow> Inr r
       | Inl _ \<Rightarrow> (case legacy_schema b of None \<Rightarrow> Inl ErrInvalid | Some _ \<Rightarrow> decode_stripped b))"
    using only_invalid_stripped by (simp add: only_invalid_intros split: sum.splits option.splits)
  have leg: "legacy_content n r = Inl x \<Longrightarrow> x = ErrUnknownSchema" for n r x
    by (auto simp: legacy_content_def Let_def split: option.splits)
  from a show ?thesis
    using scans doc leg unfolding decodeRecord_def Let_def
    by (auto simp: res_simps only_invalid_def split: if_splits option.splits)
qed

text \<open>C26: \<open>Decode\<close> is total and lets in only what this package can act on.  It answers a record or
  one of two sentinels; a record it returns came from a document nested at most 64 deep whose
  objects repeat no name, is well formed, and marks critical only features this implementation
  understands (\<open>DecodeProposal\<close> promises all of it but the well-formedness).\<close>

theorem Decode_guards:
  "case Decode b of
     Inl e \<Rightarrow> e = ErrInvalid \<or> e = ErrUnknownSchema
   | Inr r \<Rightarrow> DecodeProposal b = Inr r \<and> refuseDeepNesting b = Inr () \<and> refuseDuplicateNames b = Inr ()
       \<and> well_formed r \<and> set (rCritical r) \<subseteq> set known"
proof (cases "Decode b")
  case (Inl e)
  then have "decodeRecord b = Inl e \<or> (\<exists>r. Validate r = Inl e)" by (auto simp: Decode_def res_simps)
  then have "e = ErrInvalid \<or> e = ErrUnknownSchema"
  proof
    assume "\<exists>r. Validate r = Inl e"
    then obtain r where r: "Validate r = Inl e" ..
    have "validate_content r \<in> {Inr (), Inl ErrInvalid, Inl ErrUnknownSchema}"
      by (auto simp: validate_content_def Let_def)
    from Validate_cases [OF this] r show ?thesis by auto
  qed (rule decodeRecord_errors)
  with Inl show ?thesis by simp
next
  case (Inr r)
  then have "decodeRecord b = Inr r" "Validate r = Inr ()" by (auto simp: Decode_def res_simps)
  with Inr decodeRecord_guards [of b r] Validate_well_formed [of r] show ?thesis by (simp add: DecodeProposal_def)
qed

end
