(* ===== verification/WireReader.thy ===== *)
theory WireReader
  imports Json
begin

text \<open>
  The reader and the writer primitives of the service protocol, go/rec/rec.go: the bytes of a
  message are walked once, left to right, every refusal naming a word and the offset it was
  decided at.

  A \<open>reader\<close> of the code is a buffer and a position; the bytes before the position are only
  read again to slice a raw value out, so the model keeps what is left of the buffer and the
  position.  \<open>at\<close> answers 0 at the end of the buffer, as the code does.  The walk over a nested
  value takes fuel: \<open>skipValue_enough\<close> in WireText shows that the fuel \<open>rawValue\<close> and the message
  decoders give is never used up.
\<close>

section \<open>Refusals and the state of a reader\<close>

datatype refusal = Refusal string nat

record reader =
  r_left :: string
  r_pos :: nat
  r_depth :: nat

type_synonym 'a reads = "refusal + 'a"

definition and_then :: "'a reads \<Rightarrow> ('a \<Rightarrow> 'b reads) \<Rightarrow> 'b reads" where
  "and_then x f = (case x of Inl e \<Rightarrow> Inl e | Inr y \<Rightarrow> f y)"

lemma and_then_simps [simp]:
  "and_then (Inl e) f = Inl e"
  "and_then (Inr x) f = f x"
  by (simp_all add: and_then_def)

lemma and_then_Inr [res_simps]: "and_then x f = Inr z \<longleftrightarrow> (\<exists>y. x = Inr y \<and> f y = Inr z)"
  by (cases x) auto

lemma and_then_Inl [res_simps]: "and_then x f = Inl e \<longleftrightarrow> x = Inl e \<or> (\<exists>y. x = Inr y \<and> f y = Inl e)"
  by (cases x) auto

definition refuse :: "string \<Rightarrow> reader \<Rightarrow> 'a reads" where
  "refuse word r = Inl (Refusal word (r_pos r))"

lemma refuse_neq_Inr [simp]: "refuse word r \<noteq> Inr x"
  by (simp add: refuse_def)

definition at_byte :: "reader \<Rightarrow> char" where
  "at_byte r = (case r_left r of [] \<Rightarrow> CHR 0x00 | c # _ \<Rightarrow> c)"

definition step :: "nat \<Rightarrow> reader \<Rightarrow> reader" where
  "step n r = r\<lparr>r_left := drop n (r_left r), r_pos := r_pos r + n\<rparr>"

definition ws :: "reader \<Rightarrow> reader" where
  "ws r = step (length (takeWhile is_ws (r_left r))) r"

definition wire_depthLimit :: nat where
  "wire_depthLimit = 64"

definition enter :: "reader \<Rightarrow> reader reads" where
  "enter r = (let r = r\<lparr>r_depth := r_depth r + 1\<rparr> in
     if wire_depthLimit < r_depth r then refuse ''depth_exceeded'' r else Inr r)"

definition leave :: "reader \<Rightarrow> reader" where
  "leave r = r\<lparr>r_depth := r_depth r - 1\<rparr>"

section \<open>Strings\<close>

definition appendRune :: "string \<Rightarrow> nat \<Rightarrow> string" where
  "appendRune out cp =
     (let b = (\<lambda>n. char_of (n :: nat)) in
      if cp < 0x80 then out @ [b cp]
      else if cp < 0x800 then out @ [b (0xC0 + cp div 64), b (0x80 + cp mod 64)]
      else if cp < 0x10000 then out @ [b (0xE0 + cp div 4096), b (0x80 + cp div 64 mod 64), b (0x80 + cp mod 64)]
      else out @ [b (0xF0 + cp div 262144), b (0x80 + cp div 4096 mod 64), b (0x80 + cp div 64 mod 64),
                  b (0x80 + cp mod 64)])"

text \<open>The continuation bytes of one rune: \<open>None\<close> where one is missing or is not one.\<close>

fun conts :: "nat \<Rightarrow> nat \<Rightarrow> string \<Rightarrow> nat option" where
  "conts 0 cp s = Some cp"
| "conts (Suc k) cp [] = None"
| "conts (Suc k) cp (c # s) = (if byte c div 64 \<noteq> 2 then None else conts k (cp * 64 + byte c mod 64) s)"

text \<open>The width the first byte announces and the bits it carries.\<close>

definition lead_byte :: "char \<Rightarrow> (nat \<times> nat) option" where
  "lead_byte c =
     (if byte c div 32 = 0x6 then Some (2, byte c mod 32)
      else if byte c div 16 = 0xE then Some (3, byte c mod 16)
      else if byte c div 8 = 0x1E then Some (4, byte c mod 8)
      else None)"

definition lowest :: "nat \<Rightarrow> nat" where
  "lowest n = [0, 0, 0x80, 0x800, 0x10000] ! n"

function validUTF8 :: "string \<Rightarrow> bool" where
  "validUTF8 [] = True"
| "validUTF8 (c # s) =
     (if byte c < 0x80 then validUTF8 s
      else case lead_byte c of
        None \<Rightarrow> False
      | Some (n, bits) \<Rightarrow>
          (case conts (n - 1) bits s of
             None \<Rightarrow> False
           | Some cp \<Rightarrow>
               \<not> (cp < lowest n \<or> 0x10FFFF < cp \<or> (0xD800 \<le> cp \<and> cp \<le> 0xDFFF)) \<and> validUTF8 (drop (n - 1) s)))"
  by pat_completeness auto
termination
  by (relation "measure length") auto

definition hex4_at :: "reader \<Rightarrow> (nat \<times> reader) reads" where
  "hex4_at r = (case r_left r of
     h1 # h2 # h3 # h4 # _ \<Rightarrow>
       if is_hex h1 \<and> is_hex h2 \<and> is_hex h3 \<and> is_hex h4 then Inr (hex4 h1 h2 h3 h4, step 4 r)
       else refuse ''bad_string'' r
   | _ \<Rightarrow> refuse ''bad_string'' r)"

text \<open>The reader stands on the backslash.\<close>

definition escape_at :: "string \<Rightarrow> reader \<Rightarrow> (string \<times> reader) reads" where
  "escape_at out r = (let r = step 1 r in
     case r_left r of
       [] \<Rightarrow> refuse ''malformed'' r
     | c # _ \<Rightarrow>
         let r = step 1 r in
         if c = CHR 0x22 \<or> c = CHR 0x5C \<or> c = CHR ''/'' then Inr (out @ [c], r)
         else if c = CHR ''b'' then Inr (out @ [CHR 0x08], r)
         else if c = CHR ''f'' then Inr (out @ [CHR 0x0C], r)
         else if c = CHR ''n'' then Inr (out @ [CHR 0x0A], r)
         else if c = CHR ''r'' then Inr (out @ [CHR 0x0D], r)
         else if c = CHR ''t'' then Inr (out @ [CHR 0x09], r)
         else if c = CHR ''u'' then
           and_then (hex4_at r) (\<lambda>(u, r).
             if 0xDC00 \<le> u \<and> u \<le> 0xDFFF then refuse ''bad_string'' r
             else if 0xD800 \<le> u \<and> u \<le> 0xDBFF then
               (if take 2 (r_left r) \<noteq> [CHR 0x5C, CHR ''u''] then refuse ''bad_string'' r
                else and_then (hex4_at (step 2 r)) (\<lambda>(lo, r).
                  if lo < 0xDC00 \<or> 0xDFFF < lo then refuse ''bad_string'' r
                  else Inr (appendRune out (0x10000 + (u - 0xD800) * 1024 + (lo - 0xDC00)), r)))
             else Inr (appendRune out u, r))
         else refuse ''bad_string'' r)"

lemma hex4_at_left: "hex4_at r = Inr (u, r') \<Longrightarrow> r' = step 4 r"
  by (auto simp: hex4_at_def split: list.splits if_splits)

lemma step_simps [simp]:
  "r_left (step n r) = drop n (r_left r)"
  "r_pos (step n r) = r_pos r + n"
  "r_depth (step n r) = r_depth r"
  by (simp_all add: step_def)

lemma escape_at_shorter:
  assumes "r_left r \<noteq> []" "escape_at out r = Inr (out', r')"
  shows "length (r_left r') < length (r_left r)"
proof -
  obtain c s where "r_left r = c # s"
    using assms(1) by (cases "r_left r") auto
  with assms(2) show ?thesis
    by (auto simp: escape_at_def Let_def and_then_Inr dest!: hex4_at_left split: list.splits if_splits prod.splits)
qed

function str_loop :: "string \<Rightarrow> reader \<Rightarrow> (string \<times> reader) reads" where
  "str_loop out r = (case r_left r of
     [] \<Rightarrow> refuse ''malformed'' r
   | c # _ \<Rightarrow>
       if c = CHR 0x22 then
         (let r = step 1 r in if validUTF8 out then Inr (out, r) else refuse ''bad_string'' r)
       else if byte c < 0x20 then refuse ''bad_string'' r
       else if c = CHR 0x5C then
         (case escape_at out r of Inl e \<Rightarrow> Inl e | Inr (out', r') \<Rightarrow> str_loop out' r')
       else str_loop (out @ [c]) (step 1 r))"
  by pat_completeness auto
termination
  by (relation "measure (\<lambda>(out, r). length (r_left r))") (auto dest: escape_at_shorter [rotated])

declare str_loop.simps [simp del]

definition str_at :: "reader \<Rightarrow> (string \<times> reader) reads" where
  "str_at r = (if at_byte r \<noteq> CHR 0x22 then refuse ''wrong_type'' r else str_loop [] (step 1 r))"

section \<open>Numbers and literals\<close>

function integer_digits :: "nat \<Rightarrow> reader \<Rightarrow> (nat \<times> reader) reads" where
  "integer_digits u r =
     (if is_digit (at_byte r) then
        (if 922337203685477580 < u then refuse ''number_spelling'' r
         else integer_digits (u * 10 + (byte (at_byte r) - 48)) (step 1 r))
      else Inr (u, r))"
  by pat_completeness auto
termination
  by (relation "measure (\<lambda>(u, r). length (r_left r))")
     (auto simp: at_byte_def is_digit_def between_def byte_def split: list.splits)

declare integer_digits.simps [simp del]

definition integer :: "int \<Rightarrow> int \<Rightarrow> reader \<Rightarrow> (int \<times> reader) reads" where
  "integer least most r =
     (if at_byte r \<noteq> CHR ''-'' \<and> \<not> is_digit (at_byte r) then refuse ''wrong_type'' r
      else
        let neg = (at_byte r = CHR ''-''); r = (if neg then step 1 r else r) in
        if \<not> is_digit (at_byte r) then refuse ''malformed'' r
        else and_then (if at_byte r = CHR ''0'' then Inr (0, step 1 r) else integer_digits 0 r) (\<lambda>(u, r).
          let c = at_byte r; answer = (\<lambda>n :: int. if n < least \<or> most < n then refuse ''number_spelling'' r else Inr (n, r)) in
          if c = CHR ''.'' \<or> c = CHR ''e'' \<or> c = CHR ''E'' \<or> is_digit c then refuse ''number_spelling'' r
          else if neg \<and> u = 0 then refuse ''number_spelling'' r
          else if neg \<and> u = 2 ^ 63 then answer (- (2 ^ 63))
          else if 2 ^ 63 - 1 < u then refuse ''number_spelling'' r
          else if neg then answer (- int u)
          else answer (int u)))"

definition literal :: "string \<Rightarrow> reader \<Rightarrow> reader reads" where
  "literal word r =
     (if take (length word) (r_left r) \<noteq> word then refuse ''malformed'' r else Inr (step (length word) r))"

definition boolean :: "reader \<Rightarrow> (bool \<times> reader) reads" where
  "boolean r =
     (if at_byte r = CHR ''t'' then and_then (literal ''true'' r) (\<lambda>r. Inr (True, r))
      else if at_byte r = CHR ''f'' then and_then (literal ''false'' r) (\<lambda>r. Inr (False, r))
      else refuse ''wrong_type'' r)"

definition digits_at :: "reader \<Rightarrow> nat" where
  "digits_at r = length (takeWhile is_digit (r_left r))"

definition someDigits :: "reader \<Rightarrow> reader reads" where
  "someDigits r = (let n = digits_at r in
     if n = 0 then refuse ''number_spelling'' r else Inr (step n r))"

definition skip_sign :: "reader \<Rightarrow> reader" where
  "skip_sign r = (if at_byte r = CHR ''+'' \<or> at_byte r = CHR ''-'' then step 1 r else r)"

definition skipNumber :: "reader \<Rightarrow> reader reads" where
  "skipNumber r =
     (let r = (if at_byte r = CHR ''-'' then step 1 r else r) in
      and_then (if at_byte r = CHR ''0'' then Inr (step 1 r)
                else if is_digit (at_byte r) then Inr (step (digits_at r) r)
                else refuse ''number_spelling'' r) (\<lambda>r.
      and_then (if at_byte r = CHR ''.'' then someDigits (step 1 r) else Inr r) (\<lambda>r.
      if at_byte r = CHR ''e'' \<or> at_byte r = CHR ''E'' then someDigits (skip_sign (step 1 r)) else Inr r)))"

section \<open>Values that are carried and not interpreted\<close>

definition skipString :: "reader \<Rightarrow> reader reads" where
  "skipString r = and_then (str_at r) (\<lambda>(_, r). Inr r)"

definition shut_of :: "char \<Rightarrow> char" where
  "shut_of opener = (if opener = CHR ''['' then CHR '']'' else CHR ''}'')"

text \<open>The name of a member and its colon, for the object the walk is inside of.\<close>

definition skip_name :: "string list \<Rightarrow> reader \<Rightarrow> (string list \<times> reader) reads" where
  "skip_name seen r =
     (if at_byte r \<noteq> CHR 0x22 then refuse ''malformed'' r
      else and_then (str_at r) (\<lambda>(k, r).
        if k \<in> set seen then refuse ''duplicate_key'' r
        else let r = ws r in
          if at_byte r \<noteq> CHR '':'' then refuse ''malformed'' r
          else Inr (k # seen, ws (step 1 r))))"

fun skipValue :: "nat \<Rightarrow> reader \<Rightarrow> reader reads"
  and skip_items :: "nat \<Rightarrow> char \<Rightarrow> string list \<Rightarrow> reader \<Rightarrow> reader reads"
where
  "skipValue 0 r = refuse ''out of fuel'' r"
| "skipValue (Suc f) r =
     (let c = at_byte r in
      if c = CHR 0x22 then skipString r
      else if c = CHR ''{'' \<or> c = CHR ''['' then
        and_then (enter r) (\<lambda>r.
          let r = ws (step 1 r) in
          and_then (if at_byte r = shut_of c then Inr r else skip_items f c [] r) (\<lambda>r.
            if at_byte r \<noteq> shut_of c then refuse ''malformed'' r else Inr (leave (step 1 r))))
      else if c = CHR ''t'' then literal ''true'' r
      else if c = CHR ''f'' then literal ''false'' r
      else if c = CHR ''n'' then literal ''null'' r
      else if c = CHR ''-'' \<or> is_digit c then skipNumber r
      else refuse ''malformed'' r)"
| "skip_items 0 opener seen r = refuse ''out of fuel'' r"
| "skip_items (Suc f) opener seen r =
     and_then (if opener = CHR ''{'' then skip_name seen (ws r) else Inr (seen, ws r)) (\<lambda>(seen, r).
     and_then (skipValue f r) (\<lambda>r.
       let r = ws r in
       if at_byte r \<noteq> CHR '','' then Inr r else skip_items f opener seen (step 1 r)))"

definition walk_fuel :: "reader \<Rightarrow> nat" where
  "walk_fuel r = 2 * length (r_left r) + 1"

definition rawValue :: "reader \<Rightarrow> (string \<times> reader) reads" where
  "rawValue r = and_then (skipValue (walk_fuel r) r) (\<lambda>r'. Inr (take (r_pos r' - r_pos r) (r_left r), r'))"

text \<open>The lists of a message: strings, and values that are carried.\<close>

fun list_items :: "(reader \<Rightarrow> ('a \<times> reader) reads) \<Rightarrow> nat \<Rightarrow> reader \<Rightarrow> ('a list \<times> reader) reads" where
  "list_items item 0 r = refuse ''out of fuel'' r"
| "list_items item (Suc f) r =
     and_then (item (ws r)) (\<lambda>(x, r).
       let r = ws r in
       if at_byte r \<noteq> CHR '','' then Inr ([x], r)
       else and_then (list_items item f (step 1 r)) (\<lambda>(xs, r). Inr (x # xs, r)))"

definition list_at :: "(reader \<Rightarrow> ('a \<times> reader) reads) \<Rightarrow> reader \<Rightarrow> ('a list \<times> reader) reads" where
  "list_at item r =
     (if at_byte r \<noteq> CHR ''['' then refuse ''wrong_type'' r
      else and_then (enter r) (\<lambda>r.
        let r = ws (step 1 r) in
        and_then (if at_byte r = CHR '']'' then Inr ([], r) else list_items item (walk_fuel r) r) (\<lambda>(xs, r).
          if at_byte r \<noteq> CHR '']'' then refuse ''malformed'' r else Inr (xs, leave (step 1 r)))))"

definition strList :: "reader \<Rightarrow> (string list \<times> reader) reads" where
  "strList = list_at str_at"

definition rawList :: "reader \<Rightarrow> (string list \<times> reader) reads" where
  "rawList = list_at rawValue"

section \<open>Writing\<close>

definition escByte :: "char \<Rightarrow> string" where
  "escByte c =
     (if c = CHR 0x22 then [CHR 0x5C, CHR 0x22]
      else if c = CHR 0x5C then [CHR 0x5C, CHR 0x5C]
      else if c = CHR 0x08 then [CHR 0x5C, CHR ''b'']
      else if c = CHR 0x0C then [CHR 0x5C, CHR ''f'']
      else if c = CHR 0x0A then [CHR 0x5C, CHR ''n'']
      else if c = CHR 0x0D then [CHR 0x5C, CHR ''r'']
      else if c = CHR 0x09 then [CHR 0x5C, CHR ''t'']
      else if byte c < 0x20 then
        [CHR 0x5C, CHR ''u'', CHR ''0'', CHR ''0'', hex_digit (byte c div 16), hex_digit (byte c mod 16)]
      else [c])"

definition esc :: "string \<Rightarrow> string" where
  "esc s = [CHR 0x22] @ concat (map escByte s) @ [CHR 0x22]"

fun num_digits :: "nat \<Rightarrow> string \<Rightarrow> string" where
  "num_digits u d = (if u = 0 then d else num_digits (u div 10) (digit (u mod 10) # d))"

declare num_digits.simps [simp del]

definition num :: "int \<Rightarrow> string" where
  "num n = (if n = 0 then ''0''
     else if n < 0 then CHR ''-'' # num_digits (nat (- n)) []
     else num_digits (nat n) [])"

text \<open>
  A value that is carried is written without the white space between its tokens.  The index
  inside a string moves by two over a backslash: where that passes the end of the text the
  slice panics, which is \<open>None\<close>.
\<close>

fun raw_string :: "string \<Rightarrow> (string \<times> string) option" where
  "raw_string [] = Some ([], [])"
| "raw_string (c # s) =
     (if c = CHR 0x5C then
        (case s of
           [] \<Rightarrow> None
         | e # s' \<Rightarrow> map_option (\<lambda>(w, t). (c # e # w, t)) (raw_string s'))
      else if c = CHR 0x22 then Some ([c], s)
      else map_option (\<lambda>(w, t). (c # w, t)) (raw_string s))"

lemma raw_string_split: "raw_string s = Some (w, t) \<Longrightarrow> s = w @ t"
  by (induction s arbitrary: w t rule: raw_string.induct) (auto split: if_splits list.splits)

function rawFlat :: "string \<Rightarrow> string option" where
  "rawFlat [] = Some []"
| "rawFlat (c # s) =
     (if is_ws c then rawFlat s
      else if c = CHR 0x22 then
        (case raw_string s of
           None \<Rightarrow> None
         | Some (w, t) \<Rightarrow> map_option (\<lambda>out. c # w @ out) (rawFlat t))
      else map_option (\<lambda>out. c # out) (rawFlat s))"
  by pat_completeness auto
termination
  by (relation "measure length") (auto dest!: raw_string_split)

fun all_some :: "'a option list \<Rightarrow> 'a list option" where
  "all_some [] = Some []"
| "all_some (x # xs) = (case x of None \<Rightarrow> None | Some y \<Rightarrow> map_option (\<lambda>ys. y # ys) (all_some xs))"

definition strsFlat :: "string list \<Rightarrow> string" where
  "strsFlat v = ''['' @ join '','' (map esc v) @ '']''"

definition rawsFlat :: "string list \<Rightarrow> string option" where
  "rawsFlat v = map_option (\<lambda>xs. ''['' @ join '','' xs @ '']'') (all_some (map rawFlat v))"

end
