(* ===== verification/WireText.thy ===== *)
theory WireText
  imports WireReader Tokens
begin

text \<open>
  What the primitives of WireReader do: the writer's numbers and strings are read back, a
  number or a value in compact form is walked to its end, \<open>rawFlat\<close> of a document is its compact
  form, and the generated test of UTF-8 is the one of Go's library.
\<close>

section \<open>Where a reader stands\<close>

definition reader_at :: "string \<Rightarrow> nat \<Rightarrow> nat \<Rightarrow> reader" where
  "reader_at s p d = \<lparr>r_left = s, r_pos = p, r_depth = d\<rparr>"

lemma reader_at_simps [simp]:
  "r_left (reader_at s p d) = s" "r_pos (reader_at s p d) = p" "r_depth (reader_at s p d) = d"
  by (simp_all add: reader_at_def)

lemma reader_at_id: "r = reader_at (r_left r) (r_pos r) (r_depth r)"
  by (simp add: reader_at_def)

lemma step_reader [simp]: "step n (reader_at s p d) = reader_at (drop n s) (p + n) d"
  by (simp add: step_def reader_at_def)

lemma at_reader [simp]:
  "at_byte (reader_at (c # s) p d) = c"
  "at_byte (reader_at [] p d) = CHR 0x00"
  by (simp_all add: at_byte_def)

lemma ws_reader [simp]:
  "is_ws c \<Longrightarrow> ws (reader_at (c # s) p d) = ws (reader_at s (p + 1) d)"
  "\<not> is_ws c \<Longrightarrow> ws (reader_at (c # s) p d) = reader_at (c # s) p d"
  "ws (reader_at [] p d) = reader_at [] p d"
  by (simp_all add: ws_def)

lemma enter_reader: "d < wire_depthLimit \<Longrightarrow> enter (reader_at s p d) = Inr (reader_at s p (Suc d))"
  by (simp add: enter_def reader_at_def)

lemma leave_reader [simp]: "leave (reader_at s p (Suc d)) = reader_at s p d"
  by (simp add: leave_def reader_at_def)

lemma drop_append_length [simp]: "drop (length w) (w @ t) = t"
  by simp

section \<open>The test of UTF-8\<close>

lemma conts_two: "conts (Suc 0) b s = (case s of c1 # _ \<Rightarrow> if byte c1 div 64 = 2 then Some (b * 64 + byte c1 mod 64) else None | [] \<Rightarrow> None)"
  by (cases s) simp_all

lemma window:
  "0 < m \<Longrightarrow> (b :: nat) div m = k \<longleftrightarrow> k * m \<le> b \<and> b < k * m + m"
  "b div m = k \<Longrightarrow> b mod m = b - k * m"
  by (auto simp: div_nat_eqI dividend_less_times_div modulo_nat_def mult.commute)
     (metis dividend_less_div_times mult.commute add.commute)+

lemma cont_byte: "byte c div 64 = 2 \<longleftrightarrow> between 0x80 c 0xBF"
  using window(1) [of 64 "byte c" 2] by (auto simp: between_def)

lemma cont_low: "between 0x80 c 0xBF \<Longrightarrow> byte c mod 64 = byte c - 0x80"
  using window(2) [of "byte c" 64 2] by (simp add: cont_byte)

lemma lead_cases:
  "lead_byte c = (if 0xC0 \<le> byte c \<and> byte c \<le> 0xDF then Some (2, byte c - 0xC0)
     else if 0xE0 \<le> byte c \<and> byte c \<le> 0xEF then Some (3, byte c - 0xE0)
     else if 0xF0 \<le> byte c \<and> byte c \<le> 0xF7 then Some (4, byte c - 0xF0) else None)"
proof -
  have "byte c div 32 = 6 \<longleftrightarrow> 0xC0 \<le> byte c \<and> byte c \<le> 0xDF"
    "byte c div 16 = 0xE \<longleftrightarrow> 0xE0 \<le> byte c \<and> byte c \<le> 0xEF"
    "byte c div 8 = 0x1E \<longleftrightarrow> 0xF0 \<le> byte c \<and> byte c \<le> 0xF7"
    using window(1) [of 32 "byte c" 6] window(1) [of 16 "byte c" 14] window(1) [of 8 "byte c" 30] by auto
  moreover have "byte c div 32 = 6 \<Longrightarrow> byte c mod 32 = byte c - 0xC0"
    "byte c div 16 = 0xE \<Longrightarrow> byte c mod 16 = byte c - 0xE0" "byte c div 8 = 0x1E \<Longrightarrow> byte c mod 8 = byte c - 0xF0"
    using window(2) [of "byte c" 32 6] window(2) [of "byte c" 16 14] window(2) [of "byte c" 8 30] by simp_all
  ultimately show ?thesis unfolding lead_byte_def by (auto simp del: div_less)
qed

lemma ValidString_Cons:
  "ValidString s \<longleftrightarrow> s = [] \<or> (\<not> (fst (decode_rune s) = RuneError \<and> snd (decode_rune s) \<le> 1)
     \<and> ValidString (drop (snd (decode_rune s)) s))"
proof (cases "s = []")
  case False
  then have "snd (decode_rune s) \<le> length s" using decode_rune_width by blast
  with False show ?thesis
    by (subst ValidString_def, subst runes.simps) (auto simp: ValidString_def min_def split: prod.splits)
qed simp

text \<open>One rune: the generated test accepts the bytes exactly where the library decodes them.\<close>

definition rune_ok :: "nat \<Rightarrow> nat \<Rightarrow> bool" where
  "rune_ok n cp \<longleftrightarrow> \<not> (cp < lowest n \<or> 0x10FFFF < cp \<or> (0xD800 \<le> cp \<and> cp \<le> 0xDFFF))"

lemma rune_ok_iff:
  "rune_ok 2 cp \<longleftrightarrow> 0x80 \<le> cp \<and> cp \<le> 0x10FFFF \<and> \<not> (0xD800 \<le> cp \<and> cp \<le> 0xDFFF)"
  "rune_ok 3 cp \<longleftrightarrow> 0x800 \<le> cp \<and> cp \<le> 0x10FFFF \<and> \<not> (0xD800 \<le> cp \<and> cp \<le> 0xDFFF)"
  "rune_ok 4 cp \<longleftrightarrow> 0x10000 \<le> cp \<and> cp \<le> 0x10FFFF"
  by (auto simp: rune_ok_def lowest_def)

lemma rune_ok_two: "a \<le> 31 \<Longrightarrow> x < 64 \<Longrightarrow> rune_ok 2 (a * 64 + x) \<longleftrightarrow> 2 \<le> a"
  unfolding rune_ok_iff by linarith

lemma rune_ok_three:
  assumes "a \<le> 15" "x < 64" "y < 64"
  shows "rune_ok 3 ((a * 64 + x) * 64 + y) \<longleftrightarrow> (a = 0 \<longrightarrow> 32 \<le> x) \<and> (a = 13 \<longrightarrow> x < 32)"
proof -
  define n where "n = (a * 64 + x) * 64 + y"
  then have n: "n = a * 4096 + x * 64 + y" by simp
  consider "a = 0" | "1 \<le> a" "a \<le> 12" | "a = 13" | "14 \<le> a" by linarith
  then show ?thesis
    unfolding n_def [symmetric] rune_ok_iff using assms n by cases (simp_all, linarith+)
qed

lemma rune_ok_four:
  assumes "a \<le> 7" "x < 64" "y < 64" "z < 64"
  shows "rune_ok 4 (((a * 64 + x) * 64 + y) * 64 + z) \<longleftrightarrow> (a = 0 \<longrightarrow> 16 \<le> x) \<and> a \<le> 4 \<and> (a = 4 \<longrightarrow> x < 16)"
proof -
  define n where "n = ((a * 64 + x) * 64 + y) * 64 + z"
  then have n: "n = a * 262144 + x * 4096 + y * 64 + z" by simp
  consider "a = 0" | "1 \<le> a" "a \<le> 3" | "a = 4" | "5 \<le> a" by linarith
  then show ?thesis
    unfolding n_def [symmetric] rune_ok_iff using assms n by cases (simp_all, linarith+)
qed

lemma low_bound: "between 0x80 c 0xBF \<Longrightarrow> byte c - 0x80 < 64"
  by (auto simp: between_def)

lemma conts_Cons:
  "conts (Suc k) b (c # s) = (if between 0x80 c 0xBF then conts k (b * 64 + (byte c - 0x80)) s else None)"
  by (simp add: cont_byte cont_low)

lemma conts_eq:
  "conts (Suc 0) b s = (case s of c1 # _ \<Rightarrow> if between 0x80 c1 0xBF then Some (b * 64 + (byte c1 - 0x80)) else None | _ \<Rightarrow> None)"
  "conts 2 b s = (case s of c1 # c2 # _ \<Rightarrow>
     if between 0x80 c1 0xBF \<and> between 0x80 c2 0xBF then Some ((b * 64 + (byte c1 - 0x80)) * 64 + (byte c2 - 0x80)) else None
   | _ \<Rightarrow> None)"
  "conts 3 b s = (case s of c1 # c2 # c3 # _ \<Rightarrow>
     if between 0x80 c1 0xBF \<and> between 0x80 c2 0xBF \<and> between 0x80 c3 0xBF
     then Some (((b * 64 + (byte c1 - 0x80)) * 64 + (byte c2 - 0x80)) * 64 + (byte c3 - 0x80)) else None
   | _ \<Rightarrow> None)"
proof -
  show "conts (Suc 0) b s = (case s of c1 # _ \<Rightarrow> if between 0x80 c1 0xBF then Some (b * 64 + (byte c1 - 0x80)) else None | _ \<Rightarrow> None)"
    by (simp add: conts_Cons del: conts.simps(3) split: list.split)
  show "conts 2 b s = (case s of c1 # c2 # _ \<Rightarrow>
     if between 0x80 c1 0xBF \<and> between 0x80 c2 0xBF then Some ((b * 64 + (byte c1 - 0x80)) * 64 + (byte c2 - 0x80)) else None
   | _ \<Rightarrow> None)"
    by (subst numeral_2_eq_2) (simp add: conts_Cons del: conts.simps(3) split: list.split)
  show "conts 3 b s = (case s of c1 # c2 # c3 # _ \<Rightarrow>
     if between 0x80 c1 0xBF \<and> between 0x80 c2 0xBF \<and> between 0x80 c3 0xBF
     then Some (((b * 64 + (byte c1 - 0x80)) * 64 + (byte c2 - 0x80)) * 64 + (byte c3 - 0x80)) else None
   | _ \<Rightarrow> None)"
    by (subst numeral_3_eq_3) (simp add: conts_Cons del: conts.simps(3) split: list.split)
qed

definition accepts :: "char \<Rightarrow> string \<Rightarrow> nat option" where
  "accepts c s = (case lead_byte c of None \<Rightarrow> None
     | Some (n, bits) \<Rightarrow> (case conts (n - 1) bits s of None \<Rightarrow> None | Some cp \<Rightarrow> if rune_ok n cp then Some n else None))"

lemma validUTF8_wide:
  "0x80 \<le> byte c \<Longrightarrow> validUTF8 (c # s) \<longleftrightarrow> (case accepts c s of None \<Rightarrow> False | Some n \<Rightarrow> validUTF8 (drop (n - 1) s))"
  by (auto simp: accepts_def rune_ok_def split: option.splits)

lemma accepts_two:
  assumes "0xC0 \<le> byte c" "byte c \<le> 0xDF"
  shows "accepts c s = (if snd (decode_rune (c # s)) \<le> 1 then None else Some (snd (decode_rune (c # s))))"
proof (cases s)
  case Nil
  with assms show ?thesis by (simp add: accepts_def lead_cases decode_rune_def Let_def)
next
  case (Cons c1 t)
  have "rune_ok 2 ((byte c - 0xC0) * 64 + (byte c1 - 0x80)) \<longleftrightarrow> 0xC2 \<le> byte c" if "between 0x80 c1 0xBF"
  proof -
    have "byte c - 0xC0 \<le> 31" using assms by linarith
    from rune_ok_two [OF this low_bound [OF that]] show ?thesis using assms by linarith
  qed
  with Cons assms show ?thesis
    by (auto simp: accepts_def lead_cases decode_rune_def Let_def conts_eq simp del: conts.simps)
qed

lemma between_mid: "between lo c hi \<longleftrightarrow> lo \<le> byte c \<and> byte c \<le> hi"
  by (simp add: between_def)

lemma accepts_three:
  assumes "0xE0 \<le> byte c" "byte c \<le> 0xEF"
  shows "accepts c s = (if snd (decode_rune (c # s)) \<le> 1 then None else Some (snd (decode_rune (c # s))))"
proof (cases "\<exists>c1 c2 t. s = c1 # c2 # t")
  case False
  with assms show ?thesis
    by (auto simp: accepts_def lead_cases decode_rune_def Let_def conts_eq simp del: conts.simps split: list.splits)
next
  case True
  then obtain c1 c2 t where s: "s = c1 # c2 # t" by blast
  show ?thesis
  proof (cases "between 0x80 c1 0xBF \<and> between 0x80 c2 0xBF")
    case True
    have a: "byte c - 0xE0 \<le> 15" using assms by linarith
    have "rune_ok 3 (((byte c - 0xE0) * 64 + (byte c1 - 0x80)) * 64 + (byte c2 - 0x80)) \<longleftrightarrow>
        between (if byte c = 0xE0 then 0xA0 else 0x80) c1 (if byte c = 0xED then 0x9F else 0xBF)"
      unfolding rune_ok_three [OF a low_bound low_bound, OF conjunct1 [OF True] conjunct2 [OF True]]
      using True assms by (auto simp: between_def)
    with True s assms show ?thesis
      by (simp add: accepts_def lead_cases decode_rune_def Let_def conts_eq del: conts.simps)
  next
    case False
    then have "\<not> (between (if byte c = 0xE0 then 0xA0 else 0x80) c1 (if byte c = 0xED then 0x9F else 0xBF) \<and> between 0x80 c2 0xBF)"
      by (auto simp: between_def split: if_splits)
    with False s assms show ?thesis
      by (auto simp: accepts_def lead_cases decode_rune_def Let_def conts_eq simp del: conts.simps)
  qed
qed

lemma accepts_four:
  assumes "0xF0 \<le> byte c" "byte c \<le> 0xF7"
  shows "accepts c s = (if snd (decode_rune (c # s)) \<le> 1 then None else Some (snd (decode_rune (c # s))))"
proof (cases "\<exists>c1 c2 c3 t. s = c1 # c2 # c3 # t")
  case False
  with assms show ?thesis
    by (auto simp: accepts_def lead_cases decode_rune_def Let_def conts_eq simp del: conts.simps split: list.splits)
next
  case True
  then obtain c1 c2 c3 t where s: "s = c1 # c2 # c3 # t" by blast
  show ?thesis
  proof (cases "between 0x80 c1 0xBF \<and> between 0x80 c2 0xBF \<and> between 0x80 c3 0xBF")
    case True
    have a: "byte c - 0xF0 \<le> 7" using assms by linarith
    have "rune_ok 4 ((((byte c - 0xF0) * 64 + (byte c1 - 0x80)) * 64 + (byte c2 - 0x80)) * 64 + (byte c3 - 0x80)) \<longleftrightarrow>
        byte c \<le> 0xF4 \<and> between (if byte c = 0xF0 then 0x90 else 0x80) c1 (if byte c = 0xF4 then 0x8F else 0xBF)"
      unfolding rune_ok_four [OF a low_bound low_bound low_bound,
        OF conjunct1 [OF True] conjunct1 [OF conjunct2 [OF True]] conjunct2 [OF conjunct2 [OF True]]]
      using True assms by (auto simp: between_def)
    with True s assms show ?thesis
      by (simp add: accepts_def lead_cases decode_rune_def Let_def conts_eq del: conts.simps)
  next
    case False
    then have "\<not> (between (if byte c = 0xF0 then 0x90 else 0x80) c1 (if byte c = 0xF4 then 0x8F else 0xBF)
        \<and> between 0x80 c2 0xBF \<and> between 0x80 c3 0xBF)"
      by (auto simp: between_def split: if_splits)
    with False s assms show ?thesis
      by (auto simp: accepts_def lead_cases decode_rune_def Let_def conts_eq simp del: conts.simps)
  qed
qed

lemma accepts_decode:
  assumes "0x80 \<le> byte c"
  shows "accepts c s = (if snd (decode_rune (c # s)) \<le> 1 then None else Some (snd (decode_rune (c # s))))"
proof -
  consider "byte c < 0xC0" | "0xC0 \<le> byte c" "byte c \<le> 0xDF" | "0xE0 \<le> byte c" "byte c \<le> 0xEF"
    | "0xF0 \<le> byte c" "byte c \<le> 0xF7" | "0xF8 \<le> byte c" by linarith
  then show ?thesis
  proof cases
    case 2 then show ?thesis by (rule accepts_two)
  next
    case 3 then show ?thesis by (rule accepts_three)
  next
    case 4 then show ?thesis by (rule accepts_four)
  qed (use assms in \<open>auto simp: accepts_def lead_cases decode_rune_def Let_def\<close>)
qed

lemma decode_rune_narrow: "0x80 \<le> byte c \<Longrightarrow> snd (decode_rune (c # s)) \<le> 1 \<longleftrightarrow> decode_rune (c # s) = (RuneError, 1)"
  by (auto simp: decode_rune_def Let_def split: list.splits)

theorem validUTF8_ValidString: "validUTF8 s = ValidString s"
proof (induction "length s" arbitrary: s rule: less_induct)
  case less
  show ?case
  proof (cases s)
    case (Cons c t)
    show ?thesis
    proof (cases "byte c < 0x80")
      case True
      with less [of t] Cons show ?thesis by simp
    next
      case False
      let ?n = "snd (decode_rune (c # t))"
      have "validUTF8 s \<longleftrightarrow> 1 < ?n \<and> validUTF8 (drop (?n - 1) t)"
        using Cons False accepts_decode [of c t] validUTF8_wide [of c t] by (simp del: validUTF8.simps)
      also have "validUTF8 (drop (?n - 1) t) = ValidString (drop (?n - 1) t)"
        using Cons by (intro less) simp
      also have "1 < ?n \<and> ValidString (drop (?n - 1) t) \<longleftrightarrow> ValidString s"
        using ValidString_Cons [of s] Cons False decode_rune_narrow [of c t] by (cases ?n) auto
      finally show ?thesis .
    qed
  qed simp
qed

section \<open>Strings\<close>

text \<open>
  The string lexemes the reader takes: well-formed UTF-8 and no surrogate that is not half of a
  pair.  (Go's own decoder takes the others too, and reads U+FFFD.)
\<close>

inductive clean_piece :: "string \<Rightarrow> bool" where
  plain: "0x20 \<le> byte c \<Longrightarrow> byte c < 0x80 \<Longrightarrow> c \<noteq> CHR 0x22 \<Longrightarrow> c \<noteq> CHR 0x5C \<Longrightarrow> clean_piece [c]"
| wide: "s \<noteq> [] \<Longrightarrow> decode_rune s = (r, n) \<Longrightarrow> \<not> (r = RuneError \<and> n \<le> 1) \<Longrightarrow> 0x80 \<le> r \<Longrightarrow> clean_piece (take n s)"
| escape: "simple_escape e \<Longrightarrow> clean_piece [CHR 0x5C, e]"
| unicode: "is_hex a \<Longrightarrow> is_hex b \<Longrightarrow> is_hex c \<Longrightarrow> is_hex d \<Longrightarrow> \<not> (0xD800 \<le> hex4 a b c d \<and> hex4 a b c d \<le> 0xDFFF) \<Longrightarrow>
    clean_piece [CHR 0x5C, CHR ''u'', a, b, c, d]"
| pair: "is_hex a \<Longrightarrow> is_hex b \<Longrightarrow> is_hex c \<Longrightarrow> is_hex d \<Longrightarrow> 0xD800 \<le> hex4 a b c d \<Longrightarrow> hex4 a b c d \<le> 0xDBFF \<Longrightarrow>
    is_hex a' \<Longrightarrow> is_hex b' \<Longrightarrow> is_hex c' \<Longrightarrow> is_hex d' \<Longrightarrow> 0xDC00 \<le> hex4 a' b' c' d' \<Longrightarrow> hex4 a' b' c' d' \<le> 0xDFFF \<Longrightarrow>
    clean_piece [CHR 0x5C, CHR ''u'', a, b, c, d, CHR 0x5C, CHR ''u'', a', b', c', d']"

inductive clean :: "string \<Rightarrow> bool" where
  Nil: "clean []"
| Cons: "clean_piece u \<Longrightarrow> clean l \<Longrightarrow> clean (u @ l)"

lemma clean_append: "clean a \<Longrightarrow> clean b \<Longrightarrow> clean (a @ b)"
  by (induction a rule: clean.induct) (auto intro: clean.Cons)

lemma clean_one: "clean_piece u \<Longrightarrow> clean u"
  using clean.Cons [OF _ clean.Nil, of u] by simp

lemma clean_concat: "\<forall>u \<in> set us. clean u \<Longrightarrow> clean (concat us)"
  by (induction us) (auto intro: clean.Nil clean_append)

lemma appendRune_encode:
  "\<not> (0xD800 \<le> cp \<and> cp \<le> 0xDFFF) \<Longrightarrow> cp \<le> 0x10FFFF \<Longrightarrow> appendRune out cp = out @ encode_rune cp"
  by (auto simp: appendRune_def encode_rune_def Let_def)

lemma hex_value_less: "is_hex c \<Longrightarrow> hex_value c < 16"
  by (auto simp: is_hex_def hex_value_def between_def)

lemma hex4_less:
  assumes "is_hex a" "is_hex b" "is_hex c" "is_hex d"
  shows "hex4 a b c d < 65536"
proof -
  have "((x * 16 + y) * 16 + z) * 16 + w < 65536" if "x < 16" "y < 16" "z < 16" "w < 16" for x y z w :: nat
    using that by simp
  then show ?thesis using assms [THEN hex_value_less] unfolding hex4_def by blast
qed

lemma str_loop_bytes:
  "\<forall>c \<in> set w. 0x80 \<le> byte c \<Longrightarrow>
     str_loop out (reader_at (w @ s) p d) = str_loop (out @ w) (reader_at s (p + length w) d)"
proof (induction w arbitrary: out p)
  case (Cons c w)
  then have "c \<noteq> CHR 0x22" "c \<noteq> CHR 0x5C" "\<not> byte c < 0x20" by (auto simp: byte_def)
  with Cons show ?case by (subst str_loop.simps) simp
qed simp

lemma escape_char_cases:
  "simple_escape e \<Longrightarrow> escape_at out (reader_at (CHR 0x5C # e # s) p d) = Inr (out @ [escape_char e], reader_at s (p + 2) d)"
  by (simp add: simple_escape_def) (elim disjE; simp add: escape_at_def escape_char_def)

lemma hex4_at_reader:
  "is_hex a \<Longrightarrow> is_hex b \<Longrightarrow> is_hex c \<Longrightarrow> is_hex e \<Longrightarrow>
     hex4_at (reader_at (a # b # c # e # s) p d) = Inr (hex4 a b c e, reader_at s (p + 4) d)"
  by (simp add: hex4_at_def numeral_eq_Suc)

lemma clean_piece_read:
  assumes "clean_piece u"
  shows "\<exists>m. (\<forall>out s p d. str_loop out (reader_at (u @ s) p d) = str_loop (out @ m) (reader_at s (p + length u) d))
     \<and> (\<forall>l. unquote (u @ l) = m @ unquote l)"
  using assms
proof cases
  case (plain c)
  then have "str_loop out (reader_at ([c] @ s) p d) = str_loop (out @ [c]) (reader_at s (p + 1) d)" for out s p d
    by (subst str_loop.simps) simp
  with plain show ?thesis by (intro exI [of _ "[c]"]) (simp add: unquote_plain)
next
  case (wide s r n)
  note b = decode_rune_bytes [OF wide(2-5)] and q = unquote_wide [OF wide(2-5)]
  show ?thesis unfolding wide(1)
    using str_loop_bytes [OF b] q by (intro exI [of _ "take n s"]) blast
next
  case (escape e)
  have "str_loop out (reader_at ([CHR 0x5C, e] @ s) p d) = str_loop (out @ [escape_char e]) (reader_at s (p + 2) d)" for out s p d
    by (subst str_loop.simps) (simp add: escape_char_cases [OF escape(2)] byte_def)
  with escape show ?thesis by (intro exI [of _ "[escape_char e]"]) (simp add: unquote_escape)
next
  case (unicode a b c d)
  let ?u = "hex4 a b c d"
  have "?u < 65536" by (rule hex4_less) fact+
  then have m: "appendRune out ?u = out @ encode_rune ?u" for out
    using unicode by (intro appendRune_encode) auto
  have "escape_at out (reader_at (u @ s) p e) = Inr (out @ encode_rune ?u, reader_at s (p + 6) e)" for out s p e
    using unicode m by (auto simp: escape_at_def hex4_at_reader Let_def)
  then have "str_loop out (reader_at (u @ s) p e) = str_loop (out @ encode_rune ?u) (reader_at s (p + 6) e)" for out s p e
    by (subst str_loop.simps) (simp add: unicode(1) byte_def)
  moreover have "length u = 6" using unicode(1) by simp
  moreover have "unquote (u @ l) = encode_rune ?u @ unquote l" for l
    using unicode by (subst unquote.simps) (auto simp: Let_def)
  ultimately show ?thesis by (intro exI [of _ "encode_rune ?u"]) simp
next
  case (pair a b c d a' b' c' d')
  let ?u = "hex4 a b c d" and ?v = "hex4 a' b' c' d'"
  let ?r = "0x10000 + (?u - 0xD800) * 1024 + (?v - 0xDC00)"
  have r: "?r \<le> 0x10FFFF" "0x10000 \<le> ?r" using pair by linarith+
  then have m: "appendRune out ?r = out @ encode_rune ?r" for out
    by (intro appendRune_encode) auto
  have "escape_at out (reader_at (u @ s) p e) = Inr (out @ encode_rune ?r, reader_at s (p + 12) e)" for out s p e
    using pair m by (auto simp: escape_at_def hex4_at_reader Let_def)
  then have "str_loop out (reader_at (u @ s) p e) = str_loop (out @ encode_rune ?r) (reader_at s (p + 12) e)" for out s p e
    by (subst str_loop.simps) (simp add: pair(1) byte_def)
  moreover have "length u = 12" using pair(1) by simp
  moreover have "unquote (u @ l) = encode_rune ?r @ unquote l" for l
    using pair by (subst unquote.simps) (auto simp: Let_def low_surrogate_def)
  ultimately show ?thesis by (intro exI [of _ "encode_rune ?r"]) simp
qed

lemma clean_read:
  "clean l \<Longrightarrow> str_loop out (reader_at (l @ s) p d) = str_loop (out @ unquote l) (reader_at s (p + length l) d)"
proof (induction l arbitrary: out p rule: clean.induct)
  case (Cons u l)
  obtain m where m: "\<And>out s p d. str_loop out (reader_at (u @ s) p d) = str_loop (out @ m) (reader_at s (p + length u) d)"
    "\<And>l. unquote (u @ l) = m @ unquote l"
    using clean_piece_read [OF Cons.hyps(1)] by blast
  show ?case using Cons.IH [of "out @ m" "p + length u"] by (simp add: m ac_simps)
qed simp

lemma str_loop_end:
  "str_loop out (reader_at (CHR 0x22 # s) p d) =
     (if ValidString out then Inr (out, reader_at s (p + 1) d) else Inl (Refusal ''bad_string'' (p + 1)))"
  by (subst str_loop.simps) (simp add: validUTF8_ValidString refuse_def)

lemma str_at_lexeme:
  "clean l \<Longrightarrow> str_at (reader_at (CHR 0x22 # l @ CHR 0x22 # s) p d) = Inr (unquote l, reader_at s (p + length l + 2) d)"
  by (simp add: str_at_def clean_read str_loop_end ValidString_unquote)

text \<open>What \<open>esc\<close> writes is read back, whatever its bytes.\<close>

lemma escByte_cases:
  "(\<exists>e. escByte c = [CHR 0x5C, e] \<and> simple_escape e \<and> escape_char e = c)
   \<or> escByte c = [CHR 0x5C, CHR ''u'', CHR ''0'', CHR ''0'', hex_digit (byte c div 16), hex_digit (byte c mod 16)] \<and> byte c < 0x20
   \<or> escByte c = [c] \<and> \<not> byte c < 0x20 \<and> c \<noteq> CHR 0x22 \<and> c \<noteq> CHR 0x5C"
proof (cases "c = CHR 0x22 \<or> c = CHR 0x5C \<or> c = CHR 0x08 \<or> c = CHR 0x0C \<or> c = CHR 0x0A \<or> c = CHR 0x0D \<or> c = CHR 0x09")
  case True
  then show ?thesis
    by (elim disjE) (simp_all add: escByte_def simple_escape_def escape_char_def)
next
  case False
  then show ?thesis by (simp add: escByte_def)
qed

lemma escByte_read:
  "str_loop out (reader_at (escByte c @ s) p d) = str_loop (out @ [c]) (reader_at s (p + length (escByte c)) d)"
proof -
  have piece: ?thesis if "escByte c = [CHR 0x5C, e]" "simple_escape e" "escape_char e = c" for e
    using that by (subst str_loop.simps) (simp add: escape_char_cases byte_def)
  consider (one) e where "escByte c = [CHR 0x5C, e]" "simple_escape e" "escape_char e = c"
    | (control) "escByte c = [CHR 0x5C, CHR ''u'', CHR ''0'', CHR ''0'', hex_digit (byte c div 16), hex_digit (byte c mod 16)]" "byte c < 0x20"
    | (self) "escByte c = [c]" "\<not> byte c < 0x20" "c \<noteq> CHR 0x22" "c \<noteq> CHR 0x5C"
    using escByte_cases [of c] by blast
  then show ?thesis
  proof cases
    case one then show ?thesis by (rule piece)
  next
    case control
    have h: "is_hex (CHR ''0'')" "hex_value (CHR ''0'') = 0" by (simp_all add: is_hex_def hex_value_def between_def byte_def)
    have b: "byte c div 16 < 16" "byte c mod 16 < 16" using control(2) by simp_all
    have v: "hex4 CHR ''0'' CHR ''0'' (hex_digit (byte c div 16)) (hex_digit (byte c mod 16)) = byte c"
      using b [THEN hex_digit_props] by (simp add: hex4_def h)
    have "escape_at out (reader_at (escByte c @ s) p d) = Inr (out @ [c], reader_at s (p + 6) d)"
      using control b [THEN hex_digit_props] h v by (simp add: escape_at_def hex4_at_reader appendRune_def Let_def)
    then have "str_loop out (reader_at (escByte c @ s) p d) = str_loop (out @ [c]) (reader_at s (p + 6) d)"
      by (subst str_loop.simps) (simp add: control(1) byte_def)
    moreover have "length (escByte c) = 6" using control(1) by simp
    ultimately show ?thesis by simp
  next
    case self then show ?thesis by (subst str_loop.simps) simp
  qed
qed

lemma esc_body_read:
  "str_loop out (reader_at (concat (map escByte x) @ s) p d) = str_loop (out @ x) (reader_at s (p + length (concat (map escByte x))) d)"
proof (induction x arbitrary: out p)
  case (Cons c x)
  have "str_loop out (reader_at (concat (map escByte (c # x)) @ s) p d)
      = str_loop (out @ [c]) (reader_at (concat (map escByte x) @ s) (p + length (escByte c)) d)"
    by (simp add: escByte_read)
  also have "\<dots> = str_loop (out @ c # x) (reader_at s (p + length (concat (map escByte (c # x)))) d)"
    by (simp add: Cons.IH ac_simps)
  finally show ?case .
qed simp

lemma str_at_esc:
  "ValidString x \<Longrightarrow> str_at (reader_at (esc x @ s) p d) = Inr (x, reader_at s (p + length (esc x)) d)"
  by (simp add: str_at_def esc_def esc_body_read str_loop_end)

section \<open>Numbers\<close>

lemma num_digits_eq: "0 < u \<Longrightarrow> num_digits u d = nat_digits u @ d"
proof (induction u d rule: num_digits.induct)
  case (1 u d)
  show ?case
  proof (cases "u < 10")
    case True
    with 1 show ?thesis by (subst num_digits.simps, subst num_digits.simps, subst nat_digits.simps) simp
  next
    case False
    with 1 have "num_digits (u div 10) (digit (u mod 10) # d) = nat_digits (u div 10) @ digit (u mod 10) # d"
      by simp
    with False 1 show ?thesis by (subst num_digits.simps, subst nat_digits.simps) simp
  qed
qed

lemma num_FormatInt: "num n = FormatInt n"
proof -
  have "nat_digits 0 = ''0''" by (simp add: nat_digits.simps digit_def char_of_eqI byte_def)
  then show ?thesis by (simp add: num_def FormatInt_def num_digits_eq)
qed

definition stops :: "string \<Rightarrow> bool" where
  "stops s \<longleftrightarrow> (case s of [] \<Rightarrow> True | c # _ \<Rightarrow> \<not> is_digit c \<and> c \<noteq> CHR ''.'' \<and> c \<noteq> CHR ''e'' \<and> c \<noteq> CHR ''E'')"

lemma stops_num_end: "stops s = num_end s"
  by (simp add: stops_def num_end_def)

lemma not_digit_end [simp]: "\<not> is_digit (CHR 0x00)"
  by (simp add: is_digit_def between_def byte_def)

lemma no_digit_at: "no_digit s \<Longrightarrow> \<not> is_digit (at_byte (reader_at s p d))"
  by (cases s) (simp_all add: no_digit_def)

lemma num_end_at:
  assumes "num_end s"
  shows "\<not> is_digit (at_byte (reader_at s p d))" "at_byte (reader_at s p d) \<noteq> CHR ''.''"
    "at_byte (reader_at s p d) \<noteq> CHR ''e''" "at_byte (reader_at s p d) \<noteq> CHR ''E''"
  using assms by (cases s; simp add: num_end_def)+

lemma integer_digits_read:
  assumes "list_all is_digit ds" "num_end s" "foldl (\<lambda>a c. a * 10 + (byte c - 48)) u ds \<le> 2 ^ 63"
  shows "integer_digits u (reader_at (ds @ s) p d) = Inr (foldl (\<lambda>a c. a * 10 + (byte c - 48)) u ds, reader_at s (p + length ds) d)"
  using assms
proof (induction ds arbitrary: u p)
  case Nil
  then show ?case using num_end_at(1) [of s p d] by (subst integer_digits.simps) simp
next
  case (Cons c ds)
  let ?f = "\<lambda>a c. a * 10 + (byte c - 48)"
  have grow: "a \<le> foldl ?f a xs" for a xs
  proof (induction xs arbitrary: a)
    case (Cons x xs)
    have "a \<le> ?f a x" by simp
    with Cons.IH [of "?f a x"] show ?case by simp
  qed simp
  have "u * 10 \<le> foldl ?f u (c # ds)" using grow [of "?f u c" ds] by simp
  from order_trans [OF this Cons.prems(3)] have "u \<le> 922337203685477580" by simp
  with Cons show ?case by (subst integer_digits.simps) simp
qed

lemma nat_digits_first:
  assumes "0 < n"
  obtains c t where "nat_digits n = c # t" "is_digit c" "c \<noteq> CHR ''0''"
proof -
  have "\<exists>c t. nat_digits n = c # t \<and> is_digit c \<and> c \<noteq> CHR ''0''"
    using assms
  proof (induction n rule: nat_digits.induct)
    case (1 n)
    show ?case
    proof (cases "n < 10")
      case True
      have "digit n \<noteq> CHR ''0''"
      proof
        assume "digit n = CHR ''0''"
        then have "byte (digit n) = byte CHR ''0''" by simp
        with True 1(2) show False by (simp add: byte_digit) (simp add: byte_def)
      qed
      with True show ?thesis by (subst nat_digits.simps) (simp add: is_digit_digit)
    next
      case False
      then have "0 < n div 10" by (simp add: div_greater_zero_iff)
      with 1 False obtain c t where "nat_digits (n div 10) = c # t" "is_digit c" "c \<noteq> CHR ''0''" by blast
      with False show ?thesis by (subst nat_digits.simps) simp
    qed
  qed
  then show thesis using that by blast
qed

lemma nat_digits_zero: "nat_digits 0 = ''0''"
  by (simp add: nat_digits.simps digit_def char_of_eqI byte_def)

text \<open>What \<open>num\<close> writes is read back.\<close>

lemma integer_digits_nat:
  assumes "0 < n" "n \<le> 2 ^ 63" "num_end s"
  shows "integer_digits 0 (reader_at (nat_digits n @ s) p d) = Inr (n, reader_at s (p + length (nat_digits n)) d)"
  using integer_digits_read [of "nat_digits n" s 0 p d] assms nat_digits_digits [of n] digits_value_nat_digits [of n]
  by (simp add: digits_value_def)

lemma integer_num:
  assumes "int64 n" "least \<le> n" "n \<le> most" "num_end s"
  shows "integer least most (reader_at (num n @ s) p d) = Inr (n, reader_at s (p + length (num n)) d)"
proof -
  note e = num_end_at [OF assms(4)]
  have digit_minus: "c \<noteq> CHR ''-''" if "is_digit c" for c using is_digit_not_sign [OF that] by blast
  consider (zero) "n = 0" | (neg) "n < 0" | (pos) "0 < n" by linarith
  then show ?thesis
  proof cases
    case zero
    have "is_digit (CHR ''0'')" by (simp add: is_digit_def between_def byte_def)
    with zero e assms show ?thesis
      by (simp add: num_def integer_def Let_def)
  next
    case neg
    let ?u = "nat (- n)"
    have u: "0 < ?u" "?u \<le> 2 ^ 63" "int ?u = - n" using neg assms(1) by (auto simp: int64_def)
    obtain c t where c: "nat_digits ?u = c # t" "is_digit c" "c \<noteq> CHR ''0''" using u(1) by (rule nat_digits_first)
    have "integer_digits 0 (reader_at (c # t @ s) (p + 1) d) = Inr (?u, reader_at s (p + 1 + length (nat_digits ?u)) d)"
      using integer_digits_nat [OF u(1,2) assms(4), of "p + 1" d] c by simp
    moreover have "num n = CHR ''-'' # c # t" using neg c u by (simp add: num_def num_digits_eq)
    ultimately show ?thesis
      using e c u assms neg by (auto simp: integer_def Let_def)
  next
    case pos
    let ?u = "nat n"
    have u: "0 < ?u" "?u \<le> 2 ^ 63" "int ?u = n" using pos assms(1) by (auto simp: int64_def)
    obtain c t where c: "nat_digits ?u = c # t" "is_digit c" "c \<noteq> CHR ''0''" using u(1) by (rule nat_digits_first)
    have "integer_digits 0 (reader_at (c # t @ s) p d) = Inr (?u, reader_at s (p + length (nat_digits ?u)) d)"
      using integer_digits_nat [OF u(1,2) assms(4), of p d] c by simp
    moreover have "num n = c # t" using pos c u by (simp add: num_def num_digits_eq)
    moreover have "?u < 2 ^ 63" using assms(1) pos by (simp add: int64_def)
    ultimately show ?thesis
      using e c u assms digit_minus [OF c(2)] by (simp add: integer_def Let_def)
  qed
qed

section \<open>Walking over a number\<close>

lemma digits_at_read:
  "scan_digits s = (ds, q) \<Longrightarrow> digits_at (reader_at s p d) = length ds \<and> drop (length ds) s = q"
  by (auto simp: scan_digits_def digits_at_def dropWhile_eq_drop)

lemma frac_read:
  assumes "scan_frac s = Some (fp, q)"
  shows "(if at_byte (reader_at s p d) = CHR ''.'' then someDigits (step 1 (reader_at s p d)) else Inr (reader_at s p d))
    = Inr (reader_at q (p + length fp) d)"
proof (cases s)
  case Nil
  with assms show ?thesis by (simp add: scan_frac_def)
next
  case (Cons c r)
  obtain ds t where ds: "scan_digits r = (ds, t)" by fastforce
  with assms Cons digits_at_read [OF ds, of "p + 1" d] show ?thesis
    by (auto simp: scan_frac_def someDigits_def Let_def split: if_splits)
qed

lemma exp_read:
  assumes "scan_exp s = Some (ep, q)"
  shows "(if at_byte (reader_at s p d) = CHR ''e'' \<or> at_byte (reader_at s p d) = CHR ''E'' then
        someDigits (skip_sign (step 1 (reader_at s p d)))
      else Inr (reader_at s p d)) = Inr (reader_at q (p + length ep) d)"
proof (cases s)
  case Nil
  with assms show ?thesis by (simp add: scan_exp_def)
next
  case (Cons c r)
  show ?thesis
  proof (cases "c = CHR ''e'' \<or> c = CHR ''E''")
    case False
    with assms Cons show ?thesis by (auto simp: scan_exp_def)
  next
    case True
    obtain sg t where st: "(case r of
                     d # r' \<Rightarrow> if d = CHR ''+'' \<or> d = CHR ''-'' then ([d], r') else ([], r)
                   | [] \<Rightarrow> ([], [])) = (sg, t)"
      by (rule prod.exhaust)
    obtain ds u where ds: "scan_digits t = (ds, u)" by fastforce
    have ep: "ds \<noteq> []" "ep = c # sg @ ds" "q = u"
      using assms Cons True ds by (auto simp: scan_exp_def st split: if_splits)
    have "skip_sign (reader_at r (Suc p) d) = reader_at t (Suc p + length sg) d"
      using st by (cases r) (auto simp: skip_sign_def split: if_splits)
    with Cons True ep digits_at_read [OF ds, of "Suc p + length sg" d] show ?thesis
      by (simp add: someDigits_def ac_simps)
  qed
qed

lemma int_read:
  assumes "scan_int s = Some (ip, q)"
  shows "(if at_byte (reader_at s p d) = CHR ''0'' then Inr (step 1 (reader_at s p d))
          else if is_digit (at_byte (reader_at s p d)) then Inr (step (digits_at (reader_at s p d)) (reader_at s p d))
          else refuse ''number_spelling'' (reader_at s p d)) = Inr (reader_at q (p + length ip) d)"
proof (cases s)
  case Nil
  with assms show ?thesis by (simp add: scan_int_def)
next
  case (Cons c r)
  obtain ds t where ds: "scan_digits s = (ds, t)" by fastforce
  with assms Cons digits_at_read [OF ds, of p d] show ?thesis
    by (auto simp: scan_int_def split: if_splits)
qed

lemma skipNumber_scan:
  assumes "scan_num s = Some (l, q)"
  shows "skipNumber (reader_at s p d) = Inr (reader_at q (p + length l) d)"
proof -
  obtain sg s1 where ss: "(case s of
           c # r \<Rightarrow> if c = CHR ''-'' then ([c], r) else ([], s)
         | [] \<Rightarrow> ([], [])) = (sg, s1)"
    by (rule prod.exhaust)
  from assms obtain ip s2 fp s3 ep where parts: "scan_int s1 = Some (ip, s2)" "scan_frac s2 = Some (fp, s3)"
    "scan_exp s3 = Some (ep, q)" "l = sg @ ip @ fp @ ep"
    by (auto simp: scan_num_def ss split: option.splits)
  have sign: "(if at_byte (reader_at s p d) = CHR ''-'' then step 1 (reader_at s p d) else reader_at s p d)
      = reader_at s1 (p + length sg) d"
    using ss by (cases s) (auto split: if_splits)
  show ?thesis
    unfolding skipNumber_def Let_def sign int_read [OF parts(1)] and_then_simps frac_read [OF parts(2)] exp_read [OF parts(3)]
    by (simp add: parts(4) ac_simps)
qed

lemma skipNumber_lexeme:
  assumes "num_lexeme l" "num_end s"
  shows "skipNumber (reader_at (l @ s) p d) = Inr (reader_at s (p + length l) d)"
proof -
  have "scan_num (l @ s) = Some (l, s)"
    using scan_num_replace [of l l "[]" s] assms by (simp add: num_lexeme_def)
  then show ?thesis by (rule skipNumber_scan)
qed

section \<open>Walking over a value in compact form\<close>

text \<open>The trees whose strings and names the reader takes.\<close>

fun carried :: "json \<Rightarrow> bool" where
  "carried (JStr l) = clean l"
| "carried (JArr vs) = list_all carried vs"
| "carried (JObj ms) = list_all (\<lambda>(k, v). clean k \<and> carried v) ms"
| "carried _ = True"

definition walks :: "json \<Rightarrow> bool" where
  "walks v \<longleftrightarrow> (\<forall>f s p d. depth v + d \<le> wire_depthLimit \<longrightarrow> num_end s \<longrightarrow> 2 * length (print_json v @ s) + 1 \<le> f \<longrightarrow>
     skipValue f (reader_at (print_json v @ s) p d) = Inr (reader_at s (p + length (print_json v)) d))"

lemma walksD:
  "walks v \<Longrightarrow> depth v + d \<le> wire_depthLimit \<Longrightarrow> num_end s \<Longrightarrow> 2 * length (print_json v @ s) + 1 \<le> f \<Longrightarrow>
     skipValue f (reader_at (print_json v @ s) p d) = Inr (reader_at s (p + length (print_json v)) d)"
  by (simp add: walks_def)

lemma ws_print: "wf_json v \<Longrightarrow> ws (reader_at (print_json v @ s) p d) = reader_at (print_json v @ s) p d"
  using print_json_head [of v] by auto

lemma not_ws_marks [simp]: "\<not> is_ws (CHR '','')" "\<not> is_ws (CHR '']'')" "\<not> is_ws (CHR ''}'')" "\<not> is_ws (CHR '':'')" "\<not> is_ws (CHR 0x22)"
  "\<not> is_ws (CHR ''{'')" "\<not> is_ws (CHR ''['')"
  by (simp_all add: is_ws_def)

lemma skip_elems_print:
  assumes "vs \<noteq> []" "\<forall>v \<in> set vs. walks v \<and> wf_json v \<and> depth v + d \<le> wire_depthLimit"
    and "2 * length (join '','' (map print_json vs) @ CHR '']'' # s) + 2 \<le> f"
  shows "skip_items f (CHR ''['') seen (reader_at (join '','' (map print_json vs) @ CHR '']'' # s) p d)
    = Inr (reader_at (CHR '']'' # s) (p + length (join '','' (map print_json vs))) d)"
  using assms
proof (induction vs arbitrary: f p)
  case (Cons v vs)
  from Cons.prems obtain g where f: "f = Suc g" by (cases f) auto
  show ?case
  proof (cases "vs = []")
    case True
    have "skipValue g (reader_at (print_json v @ CHR '']'' # s) p d) = Inr (reader_at (CHR '']'' # s) (p + length (print_json v)) d)"
      using Cons.prems f True by (intro walksD) simp_all
    with True f Cons.prems show ?thesis by (simp add: ws_print Let_def)
  next
    case False
    let ?rest = "join '','' (map print_json vs) @ CHR '']'' # s"
    have "skipValue g (reader_at (print_json v @ CHR '','' # ?rest) p d) = Inr (reader_at (CHR '','' # ?rest) (p + length (print_json v)) d)"
      using Cons.prems f False by (intro walksD) (simp_all add: join_Cons)
    moreover have "skip_items g (CHR ''['') seen (reader_at ?rest (p + length (print_json v) + 1) d)
        = Inr (reader_at (CHR '']'' # s) (p + length (print_json v) + 1 + length (join '','' (map print_json vs))) d)"
      using Cons.prems f False by (intro Cons.IH) (simp_all add: join_Cons)
    ultimately show ?thesis
      using f False Cons.prems by (simp add: join_Cons ws_print Let_def ac_simps)
  qed
qed simp

lemma skip_name_read:
  assumes "clean k" "unquote k \<notin> set seen" "wf_json v"
  shows "skip_name seen (reader_at (member_text (k, v) @ s) p d)
    = Inr (unquote k # seen, reader_at (print_json v @ s) (p + length k + 3) d)"
  using assms(2) ws_print [OF assms(3)]
  by (simp add: skip_name_def member_text_def str_at_lexeme [OF assms(1)] Let_def)

lemma skip_members_print:
  assumes "ms \<noteq> []" "\<forall>(k, v) \<in> set ms. walks v \<and> clean k \<and> wf_json v \<and> depth v + d \<le> wire_depthLimit"
    and "2 * length (join '','' (map member_text ms) @ CHR ''}'' # s) + 2 \<le> f"
    and "distinct (map (\<lambda>(k, _). unquote k) ms)" "\<forall>(k, _) \<in> set ms. unquote k \<notin> set seen"
  shows "skip_items f (CHR ''{'') seen (reader_at (join '','' (map member_text ms) @ CHR ''}'' # s) p d)
    = Inr (reader_at (CHR ''}'' # s) (p + length (join '','' (map member_text ms))) d)"
  using assms
proof (induction ms arbitrary: f p seen)
  case (Cons m ms)
  obtain k v where m: "m = (k, v)" by (cases m)
  have k: "clean k" "unquote k \<notin> set seen" "wf_json v" using Cons.prems m by auto
  from Cons.prems obtain g where f: "f = Suc g" by (cases f) auto
  have len: "length (member_text m) = length k + 3 + length (print_json v)" by (simp add: m member_text_def)
  have ws: "ws (reader_at (member_text m @ t) q d) = reader_at (member_text m @ t) q d" for t q
    by (simp add: m member_text_def)
  note name = skip_name_read [OF k, folded m]
  show ?case
  proof (cases "ms = []")
    case True
    have "skipValue g (reader_at (print_json v @ CHR ''}'' # s) (p + length k + 3) d)
        = Inr (reader_at (CHR ''}'' # s) (p + length k + 3 + length (print_json v)) d)"
      using Cons.prems f m True len by (intro walksD) simp_all
    with True f show ?thesis by (simp add: ws name len Let_def ac_simps)
  next
    case False
    let ?rest = "join '','' (map member_text ms) @ CHR ''}'' # s"
    have "skipValue g (reader_at (print_json v @ CHR '','' # ?rest) (p + length k + 3) d)
        = Inr (reader_at (CHR '','' # ?rest) (p + length k + 3 + length (print_json v)) d)"
      using Cons.prems f m False len by (intro walksD) (simp_all add: join_Cons)
    moreover have "skip_items g (CHR ''{'') (unquote k # seen) (reader_at ?rest (p + length (member_text m) + 1) d)
        = Inr (reader_at (CHR ''}'' # s) (p + length (member_text m) + 1 + length (join '','' (map member_text ms))) d)"
    proof (rule Cons.IH)
      show "\<forall>(k', _) \<in> set ms. unquote k' \<notin> set (unquote k # seen)"
        using Cons.prems m by force
    qed (use Cons.prems f False len in \<open>auto simp: join_Cons m\<close>)
    ultimately show ?thesis
      using f False by (simp add: join_Cons ws name len Let_def ac_simps)
  qed
qed simp

lemma skipValue_literal:
  "0 < f \<Longrightarrow> skipValue f (reader_at (''null'' @ s) p d) = Inr (reader_at s (p + 4) d)"
  "0 < f \<Longrightarrow> skipValue f (reader_at (''true'' @ s) p d) = Inr (reader_at s (p + 4) d)"
  "0 < f \<Longrightarrow> skipValue f (reader_at (''false'' @ s) p d) = Inr (reader_at s (p + 5) d)"
  by (cases f; simp add: literal_def Let_def)+

lemma walks_tree: "wf_json v \<Longrightarrow> carried v \<Longrightarrow> dup_free v \<Longrightarrow> walks v"
proof (induction v)
  case JNull
  show ?case unfolding walks_def using skipValue_literal(1) by simp
next
  case (JBool b)
  show ?case unfolding walks_def using skipValue_literal(2,3) by simp
next
  case (JNum l)
  then have l: "num_lexeme l" by simp
  obtain c t where c: "l = c # t" "c = CHR ''-'' \<or> is_digit c" using num_lexeme_head [OF l] by blast
  then have n: "c \<noteq> CHR 0x22" "c \<noteq> CHR ''{''" "c \<noteq> CHR ''[''" "c \<noteq> CHR ''t''" "c \<noteq> CHR ''f''" "c \<noteq> CHR ''n''"
    using is_digit_other [of c] by auto
  show ?case unfolding walks_def
  proof (intro allI impI)
    fix f :: nat and s p d
    assume "num_end s" "2 * length (print_json (JNum l) @ s) + 1 \<le> f"
    then show "skipValue f (reader_at (print_json (JNum l) @ s) p d) = Inr (reader_at s (p + length (print_json (JNum l))) d)"
      using n c skipNumber_lexeme [OF l, of s p d] by (cases f) (simp_all add: Let_def)
  qed
next
  case (JStr l)
  then have "str_at (reader_at (CHR 0x22 # l @ CHR 0x22 # s) p d) = Inr (unquote l, reader_at s (p + length l + 2) d)" for s p d
    by (intro str_at_lexeme) simp
  then show ?case unfolding walks_def
    by (intro allI impI, rename_tac f s p d, case_tac f) (simp_all add: Let_def skipString_def)
next
  case (JArr vs)
  show ?case unfolding walks_def
  proof (intro allI impI)
    fix f :: nat and s p d
    assume a: "depth (JArr vs) + d \<le> wire_depthLimit" "2 * length (print_json (JArr vs) @ s) + 1 \<le> f"
    then obtain g where f: "f = Suc g" by (cases f) auto
    have d: "d < wire_depthLimit" using a by simp
    show "skipValue f (reader_at (print_json (JArr vs) @ s) p d) = Inr (reader_at s (p + length (print_json (JArr vs))) d)"
    proof (cases vs)
      case Nil
      with f d show ?thesis by (simp add: Let_def enter_reader shut_of_def)
    next
      case (Cons w ws)
      have "foldr max (map depth vs) 0 \<le> wire_depthLimit - Suc d" using a(1) by simp
      then have all: "\<forall>v \<in> set vs. walks v \<and> wf_json v \<and> depth v + Suc d \<le> wire_depthLimit"
        using JArr d by (auto simp: list_all_iff foldr_max_le)
      have items: "skip_items g (CHR ''['') [] (reader_at (join '','' (map print_json vs) @ CHR '']'' # s) (p + 1) (Suc d))
          = Inr (reader_at (CHR '']'' # s) (p + 1 + length (join '','' (map print_json vs))) (Suc d))"
        using Cons a f all by (intro skip_elems_print) simp_all
      obtain c t where c: "print_json w = c # t" "\<not> is_ws c" "c \<noteq> CHR '']''"
        using all Cons print_json_head [of w] by auto
      obtain t' where "join '','' (map print_json vs) = c # t'"
        using Cons c by (cases ws) simp_all
      with items c f d show ?thesis by (simp add: Let_def enter_reader shut_of_def)
    qed
  qed
next
  case (JObj ms)
  show ?case unfolding walks_def
  proof (intro allI impI)
    fix f :: nat and s p d
    assume a: "depth (JObj ms) + d \<le> wire_depthLimit" "2 * length (print_json (JObj ms) @ s) + 1 \<le> f"
    then obtain g where f: "f = Suc g" by (cases f) auto
    have d: "d < wire_depthLimit" using a by simp
    show "skipValue f (reader_at (print_json (JObj ms) @ s) p d) = Inr (reader_at s (p + length (print_json (JObj ms))) d)"
    proof (cases ms)
      case Nil
      with f d show ?thesis by (simp add: Let_def enter_reader shut_of_def)
    next
      case (Cons m ms')
      have "foldr max (map (\<lambda>(k, v). depth v) ms) 0 \<le> wire_depthLimit - Suc d" using a(1) by simp
      then have "\<forall>(k, v) \<in> set ms. depth v + Suc d \<le> wire_depthLimit"
        using d by (auto simp: foldr_max_le)
      moreover have "\<forall>(k, v) \<in> set ms. walks v \<and> clean k \<and> wf_json v"
        using JObj by (fastforce simp: list_all_iff)
      ultimately have all: "\<forall>(k, v) \<in> set ms. walks v \<and> clean k \<and> wf_json v \<and> depth v + Suc d \<le> wire_depthLimit"
        by blast
      have items: "skip_items g (CHR ''{'') [] (reader_at (join '','' (map member_text ms) @ CHR ''}'' # s) (p + 1) (Suc d))
          = Inr (reader_at (CHR ''}'' # s) (p + 1 + length (join '','' (map member_text ms))) (Suc d))"
        using Cons a f all JObj.prems by (intro skip_members_print) (simp_all add: print_JObj del: print_json.simps)
      obtain t where "join '','' (map member_text ms) = CHR 0x22 # t"
        using Cons by (cases m; cases ms') (simp_all add: member_text_def)
      with items f d show ?thesis by (simp add: Let_def enter_reader shut_of_def print_JObj del: print_json.simps)
    qed
  qed
qed

lemma rawValue_print:
  assumes "wf_json v" "carried v" "dup_free v" "depth v + d \<le> wire_depthLimit" "num_end s"
  shows "rawValue (reader_at (print_json v @ s) p d) = Inr (print_json v, reader_at s (p + length (print_json v)) d)"
  using walksD [OF walks_tree [OF assms(1-3)] assms(4,5), of _ p] by (simp add: rawValue_def walk_fuel_def del: skipValue.simps)

section \<open>The compact form of a carried value\<close>

definition solid :: "string \<Rightarrow> bool" where
  "solid w \<longleftrightarrow> (\<forall>c \<in> set w. \<not> is_ws c \<and> c \<noteq> CHR 0x22)"

lemma rawFlat_solid: "solid w \<Longrightarrow> rawFlat (w @ s) = map_option (\<lambda>out. w @ out) (rawFlat s)"
proof (induction w)
  case (Cons c w)
  then have "rawFlat (w @ s) = map_option (\<lambda>out. w @ out) (rawFlat s)" by (simp add: solid_def)
  with Cons.prems show ?case by (cases "rawFlat s") (simp_all add: solid_def)
qed (cases "rawFlat s"; simp)

lemma rawFlat_skip: "rawFlat (skip_ws s) = rawFlat s"
  by (induction s) simp_all

lemma solid_digits: "scan_digits s = (ds, q) \<Longrightarrow> solid ds"
proof -
  assume "scan_digits s = (ds, q)"
  then have "\<forall>c \<in> set ds. is_digit c" by (auto simp: scan_digits_def dest: set_takeWhileD)
  then show "solid ds" unfolding solid_def using is_digit_other by blast
qed

lemma solid_append [simp]: "solid (a @ b) \<longleftrightarrow> solid a \<and> solid b"
  by (auto simp: solid_def)

lemma solid_simps [simp]: "solid []" "solid (c # w) \<longleftrightarrow> \<not> is_ws c \<and> c \<noteq> CHR 0x22 \<and> solid w"
  by (auto simp: solid_def)

lemma not_ws_number [simp]: "\<not> is_ws (CHR ''-'')" "\<not> is_ws (CHR ''+'')" "\<not> is_ws (CHR ''.'')" "\<not> is_ws (CHR ''e'')"
  "\<not> is_ws (CHR ''E'')" "\<not> is_ws (CHR ''0'')"
  by (simp_all add: is_ws_def)

lemma solid_int: "scan_int s = Some (a, q) \<Longrightarrow> solid a"
  by (auto simp: scan_int_def dest: solid_digits split: list.splits if_splits)

lemma solid_frac: "scan_frac s = Some (a, q) \<Longrightarrow> solid a"
  by (auto simp: scan_frac_def Let_def dest: solid_digits split: list.splits if_splits prod.splits)

lemma solid_exp: "scan_exp s = Some (a, q) \<Longrightarrow> solid a"
  by (auto simp: scan_exp_def Let_def dest: solid_digits split: list.splits if_splits prod.splits)

lemma solid_num: "scan_num s = Some (a, q) \<Longrightarrow> solid a"
  by (auto simp: scan_num_def Let_def dest!: solid_int solid_frac solid_exp split: list.splits if_splits option.splits prod.splits)

lemma raw_string_plain:
  "c \<noteq> CHR 0x5C \<Longrightarrow> c \<noteq> CHR 0x22 \<Longrightarrow> raw_string (c # s) = map_option (\<lambda>(w, t). (c # w, t)) (raw_string s)"
  by simp

lemma raw_string_over:
  "\<forall>c \<in> set u. c \<noteq> CHR 0x5C \<and> c \<noteq> CHR 0x22 \<Longrightarrow> raw_string (u @ s) = map_option (\<lambda>(w, t). (u @ w, t)) (raw_string s)"
  by (induction u) (auto simp: option.map_comp comp_def case_prod_beta' option.map_id0 [unfolded id_def])

lemma is_hex_other: "is_hex c \<Longrightarrow> c \<noteq> CHR 0x5C \<and> c \<noteq> CHR 0x22"
  by (auto simp: is_hex_def between_def byte_def)

lemma raw_string_unit:
  assumes "str_unit s = Some (u, q)"
  shows "raw_string s = map_option (\<lambda>(w, t). (u @ w, t)) (raw_string q)"
proof -
  obtain c r where s: "s = c # r" using assms by (auto simp: str_unit_def split: list.splits)
  show ?thesis
  proof (cases "c = CHR 0x5C")
    case False
    with assms s show ?thesis by (auto simp: str_unit_def split: if_splits)
  next
    case True
    with assms s obtain e r' where r: "r = e # r'" by (cases r) (auto simp: str_unit_def)
    show ?thesis
    proof (cases "simple_escape e")
      case True
      with assms s r \<open>c = CHR 0x5C\<close> show ?thesis by (auto simp: str_unit_def)
    next
      case False
      with assms s r True have u: "u = c # e # take 4 r'" "q = drop 4 r'" "list_all is_hex (take 4 r')"
        by (auto simp: str_unit_def split: if_splits)
      have "raw_string (take 4 r' @ q) = map_option (\<lambda>(w, t). (take 4 r' @ w, t)) (raw_string q)"
        using u(3) by (intro raw_string_over) (auto simp: list_all_iff dest: is_hex_other)
      with u s r True show ?thesis by (simp add: option.map_comp comp_def case_prod_beta')
    qed
  qed
qed

lemma raw_string_scan: "scan_str s = Some (l, q) \<Longrightarrow> raw_string s = Some (l @ [CHR 0x22], q)"
proof (induction s arbitrary: l q rule: scan_str.induct)
  case (1 s)
  show ?case
  proof (cases "take 1 s = [CHR 0x22]")
    case True
    with "1.prems" show ?thesis by (subst (asm) scan_str.simps) (cases s; auto)
  next
    case False
    with "1.prems" obtain u q' l' where u: "str_unit s = Some (u, q')" "scan_str q' = Some (l', q)" "l = u @ l'"
      by (subst (asm) scan_str.simps) (auto split: option.splits)
    with "1.IH" [OF False u(1) refl u(2)] show ?thesis by (simp add: raw_string_unit [OF u(1)])
  qed
qed

lemma rawFlat_scalar:
  assumes "scan_scalar s = Some (v, r)"
  shows "rawFlat s = map_option (\<lambda>out. print_json v @ out) (rawFlat r)"
proof -
  have lit: "rawFlat s = map_option (\<lambda>out. w @ out) (rawFlat r)" if "take n s = w" "r = drop n s" "solid w" for n w
    using rawFlat_solid [OF that(3), of r] take_eq_split [OF that(1)] that(2) by simp
  consider (str) l where "take 1 s = [CHR 0x22]" "scan_str (drop 1 s) = Some (l, r)" "v = JStr l"
    | (null) "take 4 s = ''null''" "v = JNull" "r = drop 4 s" | (true) "take 4 s = ''true''" "v = JBool True" "r = drop 4 s"
    | (false) "take 5 s = ''false''" "v = JBool False" "r = drop 5 s" | (num) l where "scan_num s = Some (l, r)" "v = JNum l"
    using assms by (auto simp: scan_scalar_def split: if_splits)
  then show ?thesis
  proof cases
    case str
    then obtain t where s: "s = CHR 0x22 # t" by (cases s) auto
    with raw_string_scan [OF str(2)] str(3) show ?thesis by simp
  next
    case null then show ?thesis by (simp add: lit is_ws_def)
  next
    case true then show ?thesis by (simp add: lit is_ws_def)
  next
    case false then show ?thesis by (simp add: lit is_ws_def)
  next
    case num
    then show ?thesis using rawFlat_solid [OF solid_num [OF num(1)], of r] scan_num_split [OF num(1)] by simp
  qed
qed

lemma rawFlat_mark:
  assumes "skip_ws s = c # q" "c \<noteq> CHR 0x22"
  shows "rawFlat s = map_option (\<lambda>out. c # out) (rawFlat q)"
  using rawFlat_skip [of s] skip_ws_not_ws [OF assms(1)] assms by simp

lemma map_option_after [simp]: "map_option f (map_option g x) = map_option (\<lambda>y. f (g y)) x"
  by (simp add: option.map_comp comp_def)

lemma rawFlat_parse:
  "parse_value f d s = Some (v, r) \<Longrightarrow> rawFlat s = map_option (\<lambda>out. print_json v @ out) (rawFlat r)"
  "parse_elems f d s = Some (vs, r) \<Longrightarrow>
     rawFlat s = map_option (\<lambda>out. join '','' (map print_json vs) @ '']'' @ out) (rawFlat r) \<and> vs \<noteq> []"
  "parse_members f d s = Some (ms, r) \<Longrightarrow>
     rawFlat s = map_option (\<lambda>out. join '','' (map member_text ms) @ ''}'' @ out) (rawFlat r) \<and> ms \<noteq> []"
proof (induction f arbitrary: d s v vs ms r)
  case 0
  { case 1 then show ?case by simp }
  { case 2 then show ?case by simp }
  { case 3 then show ?case by simp }
next
  case (Suc f)
  { case 1
    then obtain c t where s: "skip_ws s = c # t" by (auto split: list.splits)
    consider (o0) "c = CHR ''{''" "v = JObj []" "take 1 (skip_ws t) = ''}''" "r = drop 1 (skip_ws t)"
      | (a0) "c = CHR ''[''" "v = JArr []" "take 1 (skip_ws t) = '']''" "r = drop 1 (skip_ws t)"
      | (os) ms where "c = CHR ''{''" "v = JObj ms" "parse_members f (d - 1) t = Some (ms, r)"
      | (as) vs where "c = CHR ''[''" "v = JArr vs" "parse_elems f (d - 1) t = Some (vs, r)"
      | (sc) "scan_scalar (c # t) = Some (v, r)"
      using 1 s by (auto split: if_splits)
    then show ?case
    proof cases
      case o0
      then have t: "skip_ws t = CHR ''}'' # r" by (cases "skip_ws t") auto
      show ?thesis using rawFlat_mark [OF s] rawFlat_mark [OF t] o0 by simp
    next
      case a0
      then have t: "skip_ws t = CHR '']'' # r" by (cases "skip_ws t") auto
      show ?thesis using rawFlat_mark [OF s] rawFlat_mark [OF t] a0 by simp
    next
      case (os ms)
      show ?thesis using rawFlat_mark [OF s] os Suc.IH(3) [OF os(3)] by (simp add: print_JObj del: print_json.simps)
    next
      case (as vs)
      show ?thesis using rawFlat_mark [OF s] as Suc.IH(2) [OF as(3)] by simp
    next
      case sc
      show ?thesis using rawFlat_scalar [OF sc] rawFlat_skip [of s] s by (simp del: rawFlat.simps)
    qed }
  { case 2
    then obtain v q where v: "parse_value f d s = Some (v, q)" by (auto split: option.splits)
    with 2 obtain c t where c: "skip_ws q = c # t" by (auto split: list.splits)
    note flat = Suc.IH(1) [OF v]
    show ?case
    proof (cases "c = CHR '']''")
      case True
      with 2 v c have "vs = [v]" "r = t" by simp_all
      with flat rawFlat_mark [OF c] True show ?thesis by simp
    next
      case False
      with 2 v c obtain ws where ws: "c = CHR '',''" "parse_elems f d t = Some (ws, r)" "vs = v # ws"
        by (auto split: if_splits)
      with flat rawFlat_mark [OF c] Suc.IH(2) [OF ws(2)] show ?thesis by (simp add: join_Cons)
    qed }
  { case 3
    then obtain s' where s: "skip_ws s = CHR 0x22 # s'" by (auto split: list.splits if_splits)
    with 3 obtain k q where k: "scan_str s' = Some (k, q)" by (auto split: option.splits)
    with 3 s obtain q' where q: "skip_ws q = CHR '':'' # q'" by (cases "skip_ws q") (auto split: if_splits)
    with 3 s k obtain v u where v: "parse_value f d q' = Some (v, u)" by (auto split: option.splits)
    with 3 s k q obtain c t where c: "skip_ws u = c # t" by (auto split: list.splits)
    have "rawFlat s = map_option (\<lambda>out. member_text (k, v) @ out) (rawFlat u)"
      using rawFlat_skip [of s] s raw_string_scan [OF k] rawFlat_mark [OF q] Suc.IH(1) [OF v]
      by (simp add: member_text_def)
    note flat = this
    show ?case
    proof (cases "c = CHR ''}''")
      case True
      with 3 s k q v c have "ms = [(k, v)]" "r = t" by simp_all
      with flat rawFlat_mark [OF c] True show ?thesis by simp
    next
      case False
      with 3 s k q v c obtain ns where ns: "c = CHR '',''" "parse_members f d t = Some (ns, r)" "ms = (k, v) # ns"
        by (auto split: if_splits)
      with flat rawFlat_mark [OF c] Suc.IH(3) [OF ns(2)] show ?thesis by (simp add: join_Cons)
    qed }
qed

lemma rawFlat_white: "skip_ws s = [] \<Longrightarrow> rawFlat s = Some []"
  using rawFlat_skip [of s] by simp

theorem rawFlat_Compact: "parse_json s = Some v \<Longrightarrow> rawFlat s = Some (print_json v)"
  by (auto simp: parse_json_def dest!: rawFlat_parse(1) rawFlat_white split: option.splits if_splits simp del: parse_value.simps)

section \<open>The walk never runs out of fuel\<close>

definition refusal_words :: "string list" where
  "refusal_words = [''malformed'', ''bad_string'', ''number_spelling'', ''wrong_type'', ''depth_exceeded'', ''duplicate_key'']"

definition worded :: "'a reads \<Rightarrow> bool" where
  "worded x \<longleftrightarrow> (case x of Inl (Refusal w _) \<Rightarrow> w \<in> set refusal_words | Inr _ \<Rightarrow> True)"

lemma worded_refuse [simp]: "worded (refuse w r) \<longleftrightarrow> w \<in> set refusal_words"
  by (simp add: worded_def refuse_def)

lemma worded_Inr [simp]: "worded (Inr x)"
  by (simp add: worded_def)

lemma worded_and_then: "worded x \<Longrightarrow> (\<And>y. x = Inr y \<Longrightarrow> worded (f y)) \<Longrightarrow> worded (and_then x f)"
  by (cases x) (auto simp: worded_def)

lemma words [simp]: "''malformed'' \<in> set refusal_words" "''bad_string'' \<in> set refusal_words" "''number_spelling'' \<in> set refusal_words"
  "''wrong_type'' \<in> set refusal_words" "''depth_exceeded'' \<in> set refusal_words" "''duplicate_key'' \<in> set refusal_words"
  "''out of fuel'' \<notin> set refusal_words"
  by (simp_all add: refusal_words_def)

lemma worded_hex4: "worded (hex4_at r)"
  by (auto simp: hex4_at_def split: list.splits)

lemma worded_escape: "worded (escape_at out r)"
  by (auto simp: escape_at_def Let_def intro!: worded_and_then worded_hex4 split: list.splits)

lemma worded_str_loop: "worded (str_loop out r)"
proof (induction out r rule: str_loop.induct)
  case (1 out r)
  show ?case
  proof (cases "r_left r")
    case Nil
    then show ?thesis by (subst str_loop.simps) simp
  next
    case (Cons c s)
    consider (q) "c = CHR 0x22" | (low) "c \<noteq> CHR 0x22" "byte c < 0x20" | (esc) "c \<noteq> CHR 0x22" "\<not> byte c < 0x20" "c = CHR 0x5C"
      | (plain) "c \<noteq> CHR 0x22" "\<not> byte c < 0x20" "c \<noteq> CHR 0x5C" by blast
    then show ?thesis
    proof cases
      case q with Cons show ?thesis by (subst str_loop.simps) (simp add: Let_def)
    next
      case low with Cons show ?thesis by (subst str_loop.simps) simp
    next
      case esc
      show ?thesis
      proof (cases "escape_at out r")
        case (Inl e)
        with worded_escape [of out r] have "worded (Inl e :: (string \<times> reader) reads)" by (simp add: worded_def)
        with Cons esc Inl show ?thesis by (subst str_loop.simps) (simp add: byte_def)
      next
        case (Inr y)
        obtain out' r' where y: "y = (out', r')" by (cases y)
        with 1(1) [OF Cons esc Inr] have "worded (str_loop out' r')" by blast
        with Cons esc Inr y show ?thesis by (subst str_loop.simps) (simp add: byte_def)
      qed
    next
      case plain
      with 1(2) [OF Cons] Cons show ?thesis by (subst str_loop.simps) simp
    qed
  qed
qed

lemma worded_str [intro]: "worded (str_at r)"
  by (simp add: str_at_def worded_str_loop)

lemma worded_literal [intro]: "worded (literal w r)"
  by (simp add: literal_def)

lemma worded_someDigits [intro]: "worded (someDigits r)"
  by (simp add: someDigits_def Let_def)

lemma worded_number [intro]: "worded (skipNumber r)"
  unfolding skipNumber_def Let_def by (intro worded_and_then) (simp_all add: worded_someDigits)

lemma worded_enter [intro]: "worded (enter r)"
  by (simp add: enter_def Let_def)

lemma worded_name [intro]: "worded (skip_name seen r)"
  by (auto simp: skip_name_def Let_def intro!: worded_and_then)

text \<open>What is left never grows, and a value takes at least a byte.\<close>

lemma str_loop_shorter: "str_loop out r = Inr (x, r') \<Longrightarrow> length (r_left r') < length (r_left r)"
proof (induction out r rule: str_loop.induct)
  case (1 out r)
  from 1(3) obtain c s where c: "r_left r = c # s"
    by (subst (asm) str_loop.simps) (auto split: list.splits)
  consider (q) "c = CHR 0x22" | (low) "c \<noteq> CHR 0x22" "byte c < 0x20" | (esc) "c \<noteq> CHR 0x22" "\<not> byte c < 0x20" "c = CHR 0x5C"
    | (plain) "c \<noteq> CHR 0x22" "\<not> byte c < 0x20" "c \<noteq> CHR 0x5C" by blast
  then show ?case
  proof cases
    case q with c 1(3) show ?thesis by (subst (asm) str_loop.simps) (auto simp: Let_def split: if_splits)
  next
    case low with c 1(3) show ?thesis by (subst (asm) str_loop.simps) simp
  next
    case esc
    from 1(3) c esc obtain out' r1 where e: "escape_at out r = Inr (out', r1)" "str_loop out' r1 = Inr (x, r')"
      by (subst (asm) str_loop.simps) (auto simp: byte_def split: sum.splits)
    have "length (r_left r') < length (r_left r1)" by (rule 1(1) [OF c esc e(1) refl e(2)])
    moreover have "length (r_left r1) < length (r_left r)" using c by (intro escape_at_shorter [OF _ e(1)]) simp
    ultimately show ?thesis by simp
  next
    case plain
    with 1(3) c have "str_loop (out @ [c]) (step 1 r) = Inr (x, r')" by (subst (asm) str_loop.simps) simp
    from 1(2) [OF c plain this] c show ?thesis by simp
  qed
qed

lemma str_at_shorter: "str_at r = Inr (x, r') \<Longrightarrow> length (r_left r') < length (r_left r)"
  by (auto simp: str_at_def dest!: str_loop_shorter split: if_splits)

lemma at_nonempty: "at_byte r = c \<Longrightarrow> c \<noteq> CHR 0x00 \<Longrightarrow> 0 < length (r_left r)"
  by (auto simp: at_byte_def)

lemma ws_length: "length (r_left (ws r)) \<le> length (r_left r)"
  by (simp add: ws_def)

lemma skipNumber_shorter:
  assumes "skipNumber r = Inr r'" "at_byte r = CHR ''-'' \<or> is_digit (at_byte r)"
  shows "length (r_left r') < length (r_left r)"
proof -
  let ?r = "if at_byte r = CHR ''-'' then step 1 r else r"
  from assms(1) obtain r1 where r1: "(if at_byte ?r = CHR ''0'' then Inr (step 1 ?r)
                else if is_digit (at_byte ?r) then Inr (step (digits_at ?r) ?r)
                else refuse ''number_spelling'' ?r) = Inr r1"
    and rest: "length (r_left r') \<le> length (r_left r1)"
    by (auto simp: skipNumber_def Let_def res_simps someDigits_def skip_sign_def split: if_splits)
  have pos: "0 < length (r_left ?r)" and one: "length (r_left r1) < length (r_left ?r)"
  proof -
    show p: "0 < length (r_left ?r)"
      using r1 by (cases "r_left ?r") (auto simp: at_byte_def split: if_splits)
    have "0 < digits_at ?r" if "is_digit (at_byte ?r)"
      using that p by (cases "r_left ?r") (auto simp: digits_at_def at_byte_def)
    with r1 p show "length (r_left r1) < length (r_left ?r)" by (auto split: if_splits)
  qed
  have "length (r_left ?r) \<le> length (r_left r)" by simp
  with one rest show ?thesis by linarith
qed

lemma skip_name_shorter: "skip_name seen r = Inr (seen', r') \<Longrightarrow> length (r_left r') < length (r_left r)"
proof -
  assume "skip_name seen r = Inr (seen', r')"
  then obtain k r1 where k: "str_at r = Inr (k, r1)" and r': "r' = ws (step 1 (ws r1))"
    by (auto simp: skip_name_def Let_def res_simps split: if_splits)
  have "length (r_left r') \<le> length (r_left r1)"
    unfolding r' using ws_length [of "step 1 (ws r1)"] ws_length [of r1] by simp
  with str_at_shorter [OF k] show ?thesis by simp
qed

lemma literal_shorter: "literal (c # w) r = Inr r' \<Longrightarrow> length (r_left r') < length (r_left r)"
  by (cases "r_left r") (auto simp: literal_def split: if_splits)

lemma skip_shorter:
  "skipValue f r = Inr r' \<Longrightarrow> length (r_left r') < length (r_left r)"
  "skip_items f opener seen r = Inr r' \<Longrightarrow> length (r_left r') < length (r_left r)"
proof (induction f arbitrary: r r' opener seen)
  case 0
  { case 1 then show ?case by simp }
  { case 2 then show ?case by simp }
next
  case (Suc f)
  { case 1
    let ?c = "at_byte r"
    consider (str) "?c = CHR 0x22" | (box) "?c = CHR ''{'' \<or> ?c = CHR ''[''" | (lit) w where "literal (?c # w) r = Inr r'"
      | (num) "?c = CHR ''-'' \<or> is_digit ?c" "skipNumber r = Inr r'"
      using 1 by (auto simp: Let_def split: if_splits)
    then show ?case
    proof cases
      case str
      with 1 show ?thesis by (auto simp: skipString_def res_simps dest: str_at_shorter)
    next
      case lit then show ?thesis by (rule literal_shorter)
    next
      case num then show ?thesis by (intro skipNumber_shorter)
    next
      case box
      then obtain r1 where r1: "enter r = Inr r1" "r_left r1 = r_left r" and "(\<exists>r2. r' = leave (step 1 r2) \<and>
          (r2 = ws (step 1 r1) \<or> skip_items f ?c [] (ws (step 1 r1)) = Inr r2))"
        using 1 by (auto simp: Let_def res_simps enter_def split: if_splits)
      then obtain r2 where r2: "r' = leave (step 1 r2)" "r2 = ws (step 1 r1) \<or> skip_items f ?c [] (ws (step 1 r1)) = Inr r2" by blast
      have "length (r_left r2) \<le> length (r_left (ws (step 1 r1)))"
        using r2(2) Suc.IH(2) [of ?c "[]" "ws (step 1 r1)" r2] by auto
      moreover have "length (r_left (ws (step 1 r1))) \<le> length (r_left r) - 1"
        using ws_length [of "step 1 r1"] r1(2) by simp
      moreover have "0 < length (r_left r)" using box at_nonempty [OF refl, of r] by auto
      moreover have "length (r_left r') = length (r_left r2) - 1" by (simp add: r2(1) leave_def)
      ultimately show ?thesis by linarith
    qed }
  { case 2
    then obtain seen' r1 r2 where s: "(if opener = CHR ''{'' then skip_name seen (ws r) else Inr (seen, ws r)) = Inr (seen', r1)"
      and v: "skipValue f r1 = Inr r2" and e: "(if at_byte (ws r2) \<noteq> CHR '','' then Inr (ws r2) else skip_items f opener seen' (step 1 (ws r2))) = Inr r'"
      by (auto simp: Let_def res_simps)
    have "length (r_left r1) \<le> length (r_left r)"
      using s ws_length [of r] by (auto dest: skip_name_shorter split: if_splits)
    moreover have "length (r_left r2) < length (r_left r1)" using v by (rule Suc.IH(1))
    moreover have "length (r_left r') \<le> length (r_left r2)"
      using e ws_length [of r2] Suc.IH(2) [of opener seen' "step 1 (ws r2)" r'] by (auto split: if_splits)
    ultimately show ?case by linarith }
qed

text \<open>Enough fuel is never used up.\<close>

lemma skip_worded:
  "2 * length (r_left r) + 1 \<le> f \<Longrightarrow> worded (skipValue f r)"
  "2 * length (r_left r) + 2 \<le> f \<Longrightarrow> worded (skip_items f opener seen r)"
proof (induction f arbitrary: r opener seen)
  case 0
  { case 1 then show ?case by simp }
  { case 2 then show ?case by simp }
next
  case (Suc f)
  { case 1
    let ?c = "at_byte r"
    show ?case
    proof (cases "?c = CHR ''{'' \<or> ?c = CHR ''[''")
      case True
      have items: "worded (skip_items f ?c [] (ws (step 1 y)))" if "enter r = Inr y" for y
      proof -
        have "r_left y = r_left r" using that by (auto simp: enter_def Let_def split: if_splits)
        then have "length (r_left (ws (step 1 y))) \<le> length (r_left r) - 1" using ws_length [of "step 1 y"] by simp
        moreover have "0 < length (r_left r)" using True at_nonempty [OF refl, of r] by auto
        ultimately have "2 * length (r_left (ws (step 1 y))) + 2 \<le> f" using 1 by linarith
        then show ?thesis by (rule Suc.IH(2))
      qed
      show ?thesis
      proof (cases "?c = CHR ''{''")
        case True
        from items [unfolded this] True show ?thesis
          by (auto simp: Let_def intro!: worded_and_then simp del: One_nat_def)
      next
        case False
        with True have c: "?c = CHR ''[''" by simp
        from items [unfolded this] c show ?thesis
          by (auto simp: Let_def intro!: worded_and_then simp del: One_nat_def)
      qed
    next
      case False
      then show ?thesis
        by (auto simp: Let_def skipString_def intro!: worded_and_then)
    qed }
  { case 2
    have "worded (skipValue f y)" if "(if opener = CHR ''{'' then skip_name seen (ws r) else Inr (seen, ws r)) = Inr (seen', y)" for seen' y
    proof -
      have "length (r_left y) \<le> length (r_left r)"
        using that ws_length [of r] by (auto dest: skip_name_shorter split: if_splits)
      with 2 show ?thesis by (intro Suc.IH(1)) simp
    qed
    moreover have "worded (skip_items f opener seen' (step 1 (ws z)))"
      if "(if opener = CHR ''{'' then skip_name seen (ws r) else Inr (seen, ws r)) = Inr (seen', y)" "skipValue f y = Inr z" for seen' y z
    proof -
      have "length (r_left y) \<le> length (r_left r)"
        using that ws_length [of r] by (auto dest: skip_name_shorter split: if_splits)
      moreover have "length (r_left z) < length (r_left y)" using that(2) by (rule skip_shorter(1))
      ultimately show ?thesis using 2 ws_length [of z] by (intro Suc.IH(2)) simp
    qed
    ultimately show ?case
      unfolding skip_items.simps
      by (intro worded_and_then) (auto simp: Let_def intro!: worded_and_then simp del: One_nat_def)
  } 
qed

lemma skipValue_enough: "worded (skipValue (walk_fuel r) r)"
  by (rule skip_worded(1)) (simp add: walk_fuel_def)

lemma rawValue_worded: "worded (rawValue r)"
  by (auto simp: rawValue_def intro!: worded_and_then skipValue_enough)

lemma rawValue_shorter: "rawValue r = Inr (x, r') \<Longrightarrow> length (r_left r') < length (r_left r)"
  by (auto simp: rawValue_def res_simps dest: skip_shorter)

lemma list_items_worded:
  assumes "\<And>r. worded (item r)" "\<And>r x r'. item r = Inr (x, r') \<Longrightarrow> length (r_left r') < length (r_left r)"
  shows "length (r_left r) < f \<Longrightarrow> worded (list_items item f r)"
proof (induction f arbitrary: r)
  case (Suc f)
  have "worded (list_items item f (step 1 (ws r')))" if "item (ws r) = Inr (x, r')" for x r'
  proof -
    have "length (r_left r') < length (r_left (ws r))" using that by (rule assms(2))
    with ws_length [of r] ws_length [of r'] Suc.prems show ?thesis by (intro Suc.IH) simp
  qed
  then show ?case
    using assms(1) by (auto simp: Let_def intro!: worded_and_then simp del: One_nat_def)
qed simp

lemma list_at_worded:
  assumes "\<And>r. worded (item r)" "\<And>r x r'. item r = Inr (x, r') \<Longrightarrow> length (r_left r') < length (r_left r)"
  shows "worded (list_at item r)"
proof -
  have "worded (list_items item (walk_fuel r) r)" for r
    by (rule list_items_worded [OF assms]) (simp_all add: walk_fuel_def)
  then show ?thesis
    by (auto simp: list_at_def Let_def intro!: worded_and_then worded_enter simp del: list_items.simps)
qed

end
