(* ===== verification/WireCodec.thy ===== *)
theory WireCodec
  imports WireText
begin

text \<open>
  The two messages of the service protocol, go/rec/rec.go: a request and a response, how each is
  written on one line and read back.  A writer leaves out a field that holds its zero value; a
  reader takes the fields in any order, refuses a second spelling of one, and walks over the ones
  it does not know.

  The fields a decoder has met (\<open>seen\<close>, a bit set in the code) are the list of their names.
\<close>

section \<open>The messages\<close>

record Request =
  qOp :: string
  qID :: string
  qOwner :: string
  qEpoch :: int
  qTTLMs :: int
  qWant :: string
  qBy :: string
  qReason :: string
  qRecord :: string
  qBase :: string

record Response =
  aKind :: string
  aError :: string
  aID :: string
  aRecord :: string
  aRecords :: "string list"
  aBool :: bool
  aUnreadable :: "string list"

definition no_request :: Request where
  "no_request = \<lparr>qOp = [], qID = [], qOwner = [], qEpoch = 0, qTTLMs = 0, qWant = [], qBy = [], qReason = [],
     qRecord = [], qBase = []\<rparr>"

definition no_response :: Response where
  "no_response = \<lparr>aKind = [], aError = [], aID = [], aRecord = [], aRecords = [], aBool = False, aUnreadable = []\<rparr>"

section \<open>Writing\<close>

definition wire_field :: "bool \<Rightarrow> string \<Rightarrow> string \<Rightarrow> string list" where
  "wire_field present name text = (if present then [esc name @ '':'' @ text] else [])"

definition raw_field :: "string \<Rightarrow> string \<Rightarrow> string list option" where
  "raw_field name s = (if s = [] then Some [] else map_option (\<lambda>text. [esc name @ '':'' @ text]) (rawFlat s))"

definition encWireRequest :: "Request \<Rightarrow> string option" where
  "encWireRequest v =
     (case (raw_field ''record'' (qRecord v), raw_field ''base'' (qBase v)) of
        (Some rec, Some base) \<Rightarrow> Some (''{'' @ join '','' (
          wire_field True ''op'' (esc (qOp v))
          @ wire_field (qID v \<noteq> []) ''id'' (esc (qID v))
          @ wire_field (qOwner v \<noteq> []) ''owner'' (esc (qOwner v))
          @ wire_field (qEpoch v \<noteq> 0) ''epoch'' (num (qEpoch v))
          @ wire_field (qTTLMs v \<noteq> 0) ''ttl_ms'' (num (qTTLMs v))
          @ wire_field (qWant v \<noteq> []) ''want'' (esc (qWant v))
          @ wire_field (qBy v \<noteq> []) ''by'' (esc (qBy v))
          @ wire_field (qReason v \<noteq> []) ''reason'' (esc (qReason v))
          @ rec @ base) @ ''}'')
      | _ \<Rightarrow> None)"

definition EncodeRequest :: "Request \<Rightarrow> string option" where
  "EncodeRequest v = encWireRequest v"

definition encWireResponse :: "Response \<Rightarrow> string option" where
  "encWireResponse v =
     (case (raw_field ''record'' (aRecord v), if aRecords v = [] then Some [] else map_option (\<lambda>text. [esc ''records'' @ '':'' @ text]) (rawsFlat (aRecords v))) of
        (Some rec, Some recs) \<Rightarrow> Some (''{'' @ join '','' (
          wire_field (aKind v \<noteq> []) ''kind'' (esc (aKind v))
          @ wire_field (aError v \<noteq> []) ''error'' (esc (aError v))
          @ wire_field (aID v \<noteq> []) ''id'' (esc (aID v))
          @ rec @ recs
          @ wire_field (aBool v) ''bool'' (if aBool v then ''true'' else ''false'')
          @ wire_field (aUnreadable v \<noteq> []) ''unreadable'' (strsFlat (aUnreadable v))) @ ''}'')
      | _ \<Rightarrow> None)"

definition EncodeResponse :: "Response \<Rightarrow> string option" where
  "EncodeResponse v = encWireResponse v"

section \<open>Reading\<close>

text \<open>What the decoder of every struct does around its own switch over the names.\<close>

definition read_name :: "reader \<Rightarrow> (string \<times> reader) reads" where
  "read_name r =
     (if at_byte r \<noteq> CHR 0x22 then refuse ''malformed'' r
      else and_then (str_at r) (\<lambda>(key, r).
        let r = ws r in
        if at_byte r \<noteq> CHR '':'' then refuse ''malformed'' r else Inr (key, ws (step 1 r))))"

fun message_loop :: "(string \<Rightarrow> 's \<times> string list \<Rightarrow> reader \<Rightarrow> (('s \<times> string list) \<times> reader) reads)
    \<Rightarrow> nat \<Rightarrow> 's \<times> string list \<Rightarrow> reader \<Rightarrow> (('s \<times> string list) \<times> reader) reads" where
  "message_loop field 0 v r = refuse ''out of fuel'' r"
| "message_loop field (Suc f) v r =
     and_then (read_name (ws r)) (\<lambda>(key, r).
     and_then (field key v r) (\<lambda>(v, r).
       let r = ws r in
       if at_byte r \<noteq> CHR '','' then Inr (v, r) else message_loop field f v (step 1 r)))"

definition message :: "(string \<Rightarrow> 's \<times> string list \<Rightarrow> reader \<Rightarrow> (('s \<times> string list) \<times> reader) reads)
    \<Rightarrow> 's \<Rightarrow> reader \<Rightarrow> (('s \<times> string list) \<times> reader) reads" where
  "message field zero r =
     (if at_byte r \<noteq> CHR ''{'' then refuse ''wrong_type'' r
      else and_then (enter r) (\<lambda>r.
        let r = ws (step 1 r) in
        and_then (if at_byte r = CHR ''}'' then Inr ((zero, []), r) else message_loop field (walk_fuel r) (zero, []) r) (\<lambda>(v, r).
          if at_byte r \<noteq> CHR ''}'' then refuse ''malformed'' r else Inr (v, leave (step 1 r)))))"

definition once :: "string \<Rightarrow> (reader \<Rightarrow> ('a \<times> reader) reads) \<Rightarrow> ('a \<Rightarrow> 's \<Rightarrow> 's)
    \<Rightarrow> 's \<times> string list \<Rightarrow> reader \<Rightarrow> (('s \<times> string list) \<times> reader) reads" where
  "once key value put v r =
     (if key \<in> set (snd v) then refuse ''duplicate_field'' r
      else and_then (value r) (\<lambda>(x, r). Inr ((put x (fst v), key # snd v), r)))"

definition skip_field :: "'s \<times> string list \<Rightarrow> reader \<Rightarrow> (('s \<times> string list) \<times> reader) reads" where
  "skip_field v r = and_then (skipValue (walk_fuel r) r) (\<lambda>r. Inr (v, r))"

abbreviation int64_at :: "reader \<Rightarrow> (int \<times> reader) reads" where
  "int64_at \<equiv> integer (- 9223372036854775808) 9223372036854775807"

definition request_field :: "string \<Rightarrow> Request \<times> string list \<Rightarrow> reader \<Rightarrow> ((Request \<times> string list) \<times> reader) reads" where
  "request_field key =
     (if key = ''op'' then once key str_at (\<lambda>x v. v\<lparr>qOp := x\<rparr>)
      else if key = ''id'' then once key str_at (\<lambda>x v. v\<lparr>qID := x\<rparr>)
      else if key = ''owner'' then once key str_at (\<lambda>x v. v\<lparr>qOwner := x\<rparr>)
      else if key = ''epoch'' then once key int64_at (\<lambda>x v. v\<lparr>qEpoch := x\<rparr>)
      else if key = ''ttl_ms'' then once key int64_at (\<lambda>x v. v\<lparr>qTTLMs := x\<rparr>)
      else if key = ''want'' then once key str_at (\<lambda>x v. v\<lparr>qWant := x\<rparr>)
      else if key = ''by'' then once key str_at (\<lambda>x v. v\<lparr>qBy := x\<rparr>)
      else if key = ''reason'' then once key str_at (\<lambda>x v. v\<lparr>qReason := x\<rparr>)
      else if key = ''record'' then once key rawValue (\<lambda>x v. v\<lparr>qRecord := x\<rparr>)
      else if key = ''base'' then once key rawValue (\<lambda>x v. v\<lparr>qBase := x\<rparr>)
      else skip_field)"

definition decodeRequest :: "reader \<Rightarrow> (Request \<times> reader) reads" where
  "decodeRequest r =
     and_then (message request_field no_request r) (\<lambda>((v, seen), r).
       if ''op'' \<notin> set seen then refuse ''missing_field'' r else Inr (v, r))"

definition whole :: "(reader \<Rightarrow> ('a \<times> reader) reads) \<Rightarrow> string \<Rightarrow> 'a reads" where
  "whole decode input =
     and_then (decode (ws \<lparr>r_left = input, r_pos = 0, r_depth = 0\<rparr>)) (\<lambda>(v, r).
       let r = ws r in if r_left r \<noteq> [] then refuse ''trailing_bytes'' r else Inr v)"

definition DecodeRequest :: "string \<Rightarrow> Request reads" where
  "DecodeRequest input = whole decodeRequest input"

definition response_field :: "string \<Rightarrow> Response \<times> string list \<Rightarrow> reader \<Rightarrow> ((Response \<times> string list) \<times> reader) reads" where
  "response_field key =
     (if key = ''kind'' then once key str_at (\<lambda>x v. v\<lparr>aKind := x\<rparr>)
      else if key = ''error'' then once key str_at (\<lambda>x v. v\<lparr>aError := x\<rparr>)
      else if key = ''id'' then once key str_at (\<lambda>x v. v\<lparr>aID := x\<rparr>)
      else if key = ''record'' then once key rawValue (\<lambda>x v. v\<lparr>aRecord := x\<rparr>)
      else if key = ''records'' then once key rawList (\<lambda>x v. v\<lparr>aRecords := x\<rparr>)
      else if key = ''bool'' then once key boolean (\<lambda>x v. v\<lparr>aBool := x\<rparr>)
      else if key = ''unreadable'' then once key strList (\<lambda>x v. v\<lparr>aUnreadable := x\<rparr>)
      else skip_field)"

definition decodeResponse :: "reader \<Rightarrow> (Response \<times> reader) reads" where
  "decodeResponse r = and_then (message response_field no_response r) (\<lambda>((v, _), r). Inr (v, r))"

definition DecodeResponse :: "string \<Rightarrow> Response reads" where
  "DecodeResponse input = whole decodeResponse input"

definition Verdicts :: "string list" where
  "Verdicts = [''not_found'', ''lease_held'', ''stale_epoch'', ''conflict'', ''lease_expired'', ''terminal'', ''invalid'',
     ''unknown_schema'', ''unknown_op'', ''not_supported'', ''other'']"

definition IsVerdict :: "string \<Rightarrow> bool" where
  "IsVerdict name = contains Verdicts name"

definition Operations :: "string list" where
  "Operations = [''submit'', ''load'', ''list'', ''orphans'', ''claimable'', ''claim'', ''renew'', ''release'', ''set_intent'',
     ''recall'', ''write'']"

definition IsOperation :: "string \<Rightarrow> bool" where
  "IsOperation name = contains Operations name"

text \<open>The words of a refusal, in the order two of them are chosen between.\<close>

definition refusals :: "string list" where
  "refusals = [''malformed'', ''bad_string'', ''number_spelling'', ''wrong_type'', ''bad_timestamp'', ''depth_exceeded'',
     ''duplicate_key'', ''duplicate_field'', ''unknown_field'', ''missing_field'', ''trailing_bytes'', ''unknown_critical'',
     ''not_a_subset'', ''content_mismatch'']"

section \<open>Reading the members of a message\<close>

text \<open>What a member says: its name, its text and what it does to the message.\<close>

type_synonym 's said = "string \<times> string \<times> ('s \<Rightarrow> 's)"

definition closed_by :: "string \<Rightarrow> bool" where
  "closed_by s \<longleftrightarrow> (\<exists>t. s = CHR '','' # t \<or> s = CHR ''}'' # t)"

definition says :: "(string \<Rightarrow> 's \<times> string list \<Rightarrow> reader \<Rightarrow> (('s \<times> string list) \<times> reader) reads) \<Rightarrow> 's said \<Rightarrow> bool" where
  "says field = (\<lambda>(key, text, put). ValidString key \<and> (\<exists>c t. text = c # t \<and> \<not> is_ws c) \<and>
     (\<forall>v seen s p. key \<notin> set seen \<longrightarrow> closed_by s \<longrightarrow>
       field key (v, seen) (reader_at (text @ s) p 1) = Inr ((put v, key # seen), reader_at s (p + length text) 1)))"

definition said_text :: "'s said \<Rightarrow> string" where
  "said_text = (\<lambda>(key, text, put). esc key @ '':'' @ text)"

lemma read_name_esc:
  assumes "ValidString key" "\<not> is_ws c"
  shows "read_name (reader_at (esc key @ CHR '':'' # c # s) p d) = Inr (key, reader_at (c # s) (p + length (esc key) + 1) d)"
proof -
  have q: "at_byte (reader_at (esc key @ t) p d) = CHR 0x22" for t by (simp add: esc_def)
  show ?thesis
    using assms(2) by (simp add: read_name_def q str_at_esc [OF assms(1)] Let_def)
qed

lemma esc_not_ws: "ws (reader_at (esc key @ s) p d) = reader_at (esc key @ s) p d"
  by (simp add: esc_def)

lemma message_loop_says:
  assumes "ms \<noteq> []" "\<forall>m \<in> set ms. says field m" "distinct (map fst ms)" "\<forall>m \<in> set ms. fst m \<notin> set seen" "length ms \<le> f"
  shows "message_loop field f (v, seen) (reader_at (join '','' (map said_text ms) @ CHR ''}'' # s) p 1)
    = Inr ((foldl (\<lambda>v (_, _, put). put v) v ms, rev (map fst ms) @ seen),
           reader_at (CHR ''}'' # s) (p + length (join '','' (map said_text ms))) 1)"
  using assms
proof (induction ms arbitrary: f v seen p)
  case (Cons m ms)
  obtain key body put where m: "m = (key, body, put)" by (cases m)
  obtain g where f: "f = Suc g" using Cons.prems(5) by (cases f) auto
  from Cons.prems(2) m have key: "ValidString key"
    and say: "\<And>s p v. closed_by s \<Longrightarrow> field key (v, seen) (reader_at (body @ s) p 1) = Inr ((put v, key # seen), reader_at s (p + length body) 1)"
    using Cons.prems(4) m by (auto simp: says_def)
  from Cons.prems(2) m obtain c t where body: "body = c # t" "\<not> is_ws c" by (auto simp: says_def)
  have name: "read_name (ws (reader_at (said_text m @ u) q 1)) = Inr (key, reader_at (body @ u) (q + length (esc key) + 1) 1)" for u q
    using read_name_esc [OF key body(2), of "t @ u" q 1] by (simp add: m said_text_def esc_not_ws body)
  have len: "length (said_text m) = length (esc key) + 1 + length body" by (simp add: m said_text_def)
  show ?case
  proof (cases "ms = []")
    case True
    with f name say [of "CHR ''}'' # s"] m len show ?thesis by (simp add: closed_by_def Let_def ac_simps)
  next
    case False
    let ?rest = "join '','' (map said_text ms) @ CHR ''}'' # s"
    have "message_loop field g (put v, key # seen) (reader_at ?rest (p + length (said_text m) + 1) 1)
      = Inr ((foldl (\<lambda>v (_, _, put). put v) (put v) ms, rev (map fst ms) @ key # seen),
           reader_at (CHR ''}'' # s) (p + length (said_text m) + 1 + length (join '','' (map said_text ms))) 1)"
      using Cons.prems f False m by (intro Cons.IH) auto
    with f name say [of "CHR '','' # ?rest"] m len False show ?thesis
      by (simp add: closed_by_def Let_def join_Cons ac_simps)
  qed
qed simp

lemma message_says:
  assumes "\<forall>m \<in> set ms. says field m" "distinct (map fst ms)"
  shows "message field zero (reader_at (''{'' @ join '','' (map said_text ms) @ ''}'' @ s) p 0)
    = Inr ((foldl (\<lambda>v (_, _, put). put v) zero ms, rev (map fst ms)),
           reader_at s (p + length (join '','' (map said_text ms)) + 2) 0)"
proof (cases "ms = []")
  case True
  then show ?thesis by (simp add: message_def enter_reader wire_depthLimit_def Let_def)
next
  case False
  let ?j = "join '','' (map said_text ms)"
  obtain m ms' where ms: "ms = m # ms'" using False by (cases ms) auto
  have grow: "length ms \<le> length (join '','' (map said_text ms))"
  proof (induction ms)
    case (Cons m ms)
    then show ?case by (cases ms) (auto simp: said_text_def esc_def split: prod.splits)
  qed simp
  obtain t where t: "?j = CHR 0x22 # t"
    using ms by (cases m; cases ms') (simp_all add: said_text_def esc_def)
  have "message_loop field (walk_fuel (reader_at (?j @ CHR ''}'' # s) (p + 1) 1)) (zero, []) (reader_at (?j @ CHR ''}'' # s) (p + 1) 1)
    = Inr ((foldl (\<lambda>v (_, _, put). put v) zero ms, rev (map fst ms) @ []), reader_at (CHR ''}'' # s) (p + 1 + length ?j) 1)"
    using False assms grow by (intro message_loop_says) (simp_all add: walk_fuel_def)
  with t show ?thesis by (simp add: message_def enter_reader wire_depthLimit_def Let_def)
qed

end
