(* ===== verification/WireRoundtrip.thy ===== *)
theory WireRoundtrip
  imports WireCodec
begin

text \<open>
  A request and a response are read back as they were written, with the values they carry in
  compact form; every text is answered, by a message or by a refusal in the protocol's own
  words.
\<close>

section \<open>Lists\<close>

definition item_reads :: "(reader \<Rightarrow> ('a \<times> reader) reads) \<Rightarrow> nat \<Rightarrow> string \<times> 'a \<Rightarrow> bool" where
  "item_reads item d = (\<lambda>(body, x). (\<exists>c t. body = c # t \<and> \<not> is_ws c \<and> c \<noteq> CHR '']'') \<and>
     (\<forall>s p. num_end s \<longrightarrow> item (reader_at (body @ s) p d) = Inr (x, reader_at s (p + length body) d)))"

lemma list_items_read:
  assumes "xs \<noteq> []" "\<forall>x \<in> set xs. item_reads item d x" "length xs \<le> f"
  shows "list_items item f (reader_at (join '','' (map fst xs) @ CHR '']'' # s) p d)
    = Inr (map snd xs, reader_at (CHR '']'' # s) (p + length (join '','' (map fst xs))) d)"
  using assms
proof (induction xs arbitrary: f p)
  case (Cons x xs)
  obtain body y where x: "x = (body, y)" by (cases x)
  obtain g where f: "f = Suc g" using Cons.prems(3) by (cases f) auto
  from Cons.prems(2) x obtain c t where b: "body = c # t" "\<not> is_ws c"
    and item: "\<And>s p. num_end s \<Longrightarrow> item (reader_at (body @ s) p d) = Inr (y, reader_at s (p + length body) d)"
    by (auto simp: item_reads_def)
  have ws: "ws (reader_at (body @ u) q d) = reader_at (body @ u) q d" for u q by (simp add: b)
  show ?case
  proof (cases "xs = []")
    case True
    with f x ws item [of "CHR '']'' # s"] show ?thesis by (simp add: Let_def)
  next
    case False
    let ?rest = "join '','' (map fst xs) @ CHR '']'' # s"
    have "list_items item g (reader_at ?rest (p + length body + 1) d)
      = Inr (map snd xs, reader_at (CHR '']'' # s) (p + length body + 1 + length (join '','' (map fst xs))) d)"
      using Cons.prems f False by (intro Cons.IH) auto
    with f x ws item [of "CHR '','' # ?rest"] False show ?thesis by (simp add: Let_def join_Cons ac_simps)
  qed
qed simp

lemma list_at_read:
  assumes "\<forall>x \<in> set xs. item_reads item (Suc d) x" "d < wire_depthLimit"
  shows "list_at item (reader_at (''['' @ join '','' (map fst xs) @ '']'' @ s) p d)
    = Inr (map snd xs, reader_at s (p + length (join '','' (map fst xs)) + 2) d)"
proof (cases xs)
  case Nil
  with assms(2) show ?thesis by (simp add: list_at_def enter_reader Let_def)
next
  case (Cons x xs')
  let ?j = "join '','' (map fst xs)"
  obtain body y where x: "x = (body, y)" by (cases x)
  with assms(1) Cons obtain c t where c: "body = c # t" "\<not> is_ws c" "c \<noteq> CHR '']''" by (auto simp: item_reads_def)
  then obtain t' where j: "?j = c # t'" using Cons x by (cases xs') auto
  have "length xs \<le> length (join '','' (map fst xs))" if "\<forall>x \<in> set xs. item_reads item (Suc d) x" for xs
    using that
  proof (induction xs)
    case (Cons x xs)
    then obtain body y where "x = (body, y)" "body \<noteq> []" by (cases x) (auto simp: item_reads_def)
    with Cons show ?case by (cases xs; cases body) auto
  qed simp
  from this [OF assms(1)] have "list_items item (walk_fuel (reader_at (?j @ CHR '']'' # s) (p + 1) (Suc d))) (reader_at (?j @ CHR '']'' # s) (p + 1) (Suc d))
      = Inr (map snd xs, reader_at (CHR '']'' # s) (p + 1 + length ?j) (Suc d))"
    using Cons assms(1) by (intro list_items_read) (simp_all add: walk_fuel_def)
  with j c assms(2) show ?thesis by (simp add: list_at_def enter_reader Let_def)
qed

section \<open>What may be carried\<close>

text \<open>
  A raw value \<open>n\<close> containers below the top of a message: absent, or a document whose strings are
  well-formed, that repeats no name and nests no deeper than the reader follows.
\<close>

definition wire_raw :: "nat \<Rightarrow> string \<Rightarrow> bool" where
  "wire_raw n s \<longleftrightarrow> s = [] \<or> (\<exists>v. parse_json s = Some v \<and> carried v \<and> dup_free v \<and> depth v + n \<le> wire_depthLimit)"

lemma wire_raw_Nil: "wire_raw n []"
  by (simp add: wire_raw_def)

definition flat :: "string \<Rightarrow> string" where
  "flat s = (case parse_json s of None \<Rightarrow> [] | Some v \<Rightarrow> print_json v)"

lemma flat_Nil [simp]: "flat [] = []"
  by (simp add: flat_def parse_json_def)

lemma wire_rawE:
  assumes "wire_raw n s" "s \<noteq> []"
  obtains v where "parse_json s = Some v" "carried v" "dup_free v" "depth v + n \<le> wire_depthLimit" "wf_json v"
    "rawFlat s = Some (print_json v)" "flat s = print_json v"
proof -
  obtain v where v: "parse_json s = Some v" "carried v" "dup_free v" "depth v + n \<le> wire_depthLimit"
    using assms by (auto simp: wire_raw_def)
  then show thesis
    using parse_json_wf [OF v(1)] rawFlat_Compact [OF v(1)] by (intro that) (simp_all add: flat_def)
qed

lemma wire_raw_flat: "wire_raw n s \<Longrightarrow> s \<noteq> [] \<Longrightarrow> rawFlat s = Some (flat s)"
  by (erule wire_rawE) simp_all

lemma raw_item:
  assumes "wire_raw n s" "s \<noteq> []"
  shows "item_reads rawValue n (flat s, flat s)"
proof -
  obtain v where v: "carried v" "dup_free v" "depth v + n \<le> wire_depthLimit" "wf_json v" "flat s = print_json v"
    using wire_rawE [OF assms] by metis
  have "rawValue (reader_at (print_json v @ t) p n) = Inr (print_json v, reader_at t (p + length (print_json v)) n)"
    if "num_end t" for t p
    using v that by (intro rawValue_print)
  then show ?thesis using print_json_head [OF v(4)] v(5) by (auto simp: item_reads_def)
qed

lemma str_item: "ValidString x \<Longrightarrow> item_reads str_at n (esc x, x)"
  using str_at_esc [of x _ _ n] by (auto simp: item_reads_def) (simp_all add: esc_def)

lemma int_item: "int64 x \<Longrightarrow> item_reads int64_at n (num x, x)"
proof -
  assume x: "int64 x"
  have "\<exists>c t. num x = c # t \<and> \<not> is_ws c \<and> c \<noteq> CHR '']''"
  proof -
    obtain c t where "nat_digits (nat x) = c # t" "is_digit c"
      using nat_digits_digits [of "nat x"] nat_digits_nonempty [of "nat x"] by (cases "nat_digits (nat x)") auto
    then show ?thesis using is_digit_other [of c] by (simp add: num_FormatInt FormatInt_def)
  qed
  moreover have "int64_at (reader_at (num x @ s) p n) = Inr (x, reader_at s (p + length (num x)) n)" if "num_end s" for s p
    using x that by (intro integer_num) (simp_all add: int64_def)
  ultimately show ?thesis by (auto simp: item_reads_def)
qed

lemma bool_item: "item_reads boolean n (''true'', True)"
  by (simp add: item_reads_def boolean_def literal_def is_ws_def)

section \<open>The members of a message\<close>

lemma closed_num_end: "closed_by s \<Longrightarrow> num_end s"
  by (auto simp: closed_by_def)

lemma says_once:
  assumes "field key = once key value put" "ValidString key" "item_reads value 1 (body, x)"
  shows "says field (key, body, put x)"
  using assms closed_num_end by (fastforce simp: says_def once_def item_reads_def)

definition present :: "bool \<Rightarrow> 's said \<Rightarrow> 's said list" where
  "present c m = (if c then [m] else [])"

lemma set_present [simp]: "m \<in> set (present c m') \<longleftrightarrow> c \<and> m = m'"
  by (auto simp: present_def)

text \<open>Folding over the members: the ones left out would not have changed the value.\<close>

lemma foldl_present:
  "c \<or> put v = v \<Longrightarrow> foldl (\<lambda>v (_, _, put). put v) v (present c (key, body, put)) = put v"
  "c \<or> put v = v \<Longrightarrow> foldl (\<lambda>v (_, _, put). put v) v (present c (key, body, put) @ ms) = foldl (\<lambda>v (_, _, put). put v) (put v) ms"
  by (auto simp: present_def)

lemma all_present:
  "list_all P (present c m) \<longleftrightarrow> (c \<longrightarrow> P m)"
  "list_all P (present c m @ ms) \<longleftrightarrow> (c \<longrightarrow> P m) \<and> list_all P ms"
  by (simp_all add: present_def)

lemma flat_or [simp]: "s \<noteq> [] \<or> flat s = []"
  by (cases "s = []") simp_all

lemma said_present [simp]: "map said_text (present c (key, body, put)) = wire_field c key body"
  by (simp add: present_def wire_field_def said_text_def)

text \<open>The names of the members that are there.\<close>

lemma names_present:
  "k \<in> set (map fst (present c m)) \<longleftrightarrow> c \<and> k = fst m"
  "k \<in> set (map fst (present c m @ ms)) \<longleftrightarrow> (c \<and> k = fst m) \<or> k \<in> set (map fst ms)"
  by (auto simp: present_def)

lemma distinct_present:
  "distinct (map fst (present c m))"
  "distinct (map fst (present c m @ ms)) \<longleftrightarrow> (c \<longrightarrow> fst m \<notin> set (map fst ms)) \<and> distinct (map fst ms)"
  by (auto simp: present_def)

lemma raw_field_present:
  assumes "wire_raw n s"
  shows "raw_field key s = Some (wire_field (s \<noteq> []) key (flat s))"
proof (cases "s = []")
  case False
  obtain v where "rawFlat s = Some (print_json v)" "flat s = print_json v"
    using wire_rawE [OF assms False] by metis
  with False show ?thesis by (simp add: raw_field_def wire_field_def)
qed (simp add: raw_field_def wire_field_def)

lemma valid_names [simp]:
  "ValidString ''op''" "ValidString ''id''" "ValidString ''owner''" "ValidString ''epoch''" "ValidString ''ttl_ms''"
  "ValidString ''want''" "ValidString ''by''" "ValidString ''reason''" "ValidString ''record''" "ValidString ''base''"
  "ValidString ''kind''" "ValidString ''error''" "ValidString ''records''" "ValidString ''bool''" "ValidString ''unreadable''"
  by (simp_all add: byte_def)

definition wire_request :: "Request \<Rightarrow> bool" where
  "wire_request q \<longleftrightarrow> list_all ValidString [qOp q, qID q, qOwner q, qWant q, qBy q, qReason q]
     \<and> int64 (qEpoch q) \<and> int64 (qTTLMs q) \<and> wire_raw 1 (qRecord q) \<and> wire_raw 1 (qBase q)"

definition said_request :: "Request \<Rightarrow> Request said list" where
  "said_request q =
     present True (''op'', esc (qOp q), \<lambda>v. v\<lparr>qOp := qOp q\<rparr>)
     @ present (qID q \<noteq> []) (''id'', esc (qID q), \<lambda>v. v\<lparr>qID := qID q\<rparr>)
     @ present (qOwner q \<noteq> []) (''owner'', esc (qOwner q), \<lambda>v. v\<lparr>qOwner := qOwner q\<rparr>)
     @ present (qEpoch q \<noteq> 0) (''epoch'', num (qEpoch q), \<lambda>v. v\<lparr>qEpoch := qEpoch q\<rparr>)
     @ present (qTTLMs q \<noteq> 0) (''ttl_ms'', num (qTTLMs q), \<lambda>v. v\<lparr>qTTLMs := qTTLMs q\<rparr>)
     @ present (qWant q \<noteq> []) (''want'', esc (qWant q), \<lambda>v. v\<lparr>qWant := qWant q\<rparr>)
     @ present (qBy q \<noteq> []) (''by'', esc (qBy q), \<lambda>v. v\<lparr>qBy := qBy q\<rparr>)
     @ present (qReason q \<noteq> []) (''reason'', esc (qReason q), \<lambda>v. v\<lparr>qReason := qReason q\<rparr>)
     @ present (qRecord q \<noteq> []) (''record'', flat (qRecord q), \<lambda>v. v\<lparr>qRecord := flat (qRecord q)\<rparr>)
     @ present (qBase q \<noteq> []) (''base'', flat (qBase q), \<lambda>v. v\<lparr>qBase := flat (qBase q)\<rparr>)"

lemma EncodeRequest_said:
  assumes "wire_request q"
  shows "EncodeRequest q = Some (''{'' @ join '','' (map said_text (said_request q)) @ ''}'')"
proof -
  have w: "wire_raw 1 (qRecord q)" "wire_raw 1 (qBase q)" using assms unfolding wire_request_def by blast+
  show ?thesis
    by (simp add: EncodeRequest_def encWireRequest_def raw_field_present [OF w(1)] raw_field_present [OF w(2)] said_request_def)
qed

lemma says_str:
  "ValidString x \<Longrightarrow> field key = once key str_at put \<Longrightarrow> ValidString key \<Longrightarrow> says field (key, esc x, put x)"
  by (rule says_once [OF _ _ str_item])

lemma says_int:
  "int64 x \<Longrightarrow> field key = once key int64_at put \<Longrightarrow> ValidString key \<Longrightarrow> says field (key, num x, put x)"
  by (rule says_once [OF _ _ int_item])

lemma says_raw:
  "wire_raw 1 x \<Longrightarrow> x \<noteq> [] \<Longrightarrow> field key = once key rawValue put \<Longrightarrow> ValidString key \<Longrightarrow> says field (key, flat x, put (flat x))"
  by (rule says_once [OF _ _ raw_item])

lemma request_switch:
  "request_field ''op'' = once ''op'' str_at (\<lambda>x v. v\<lparr>qOp := x\<rparr>)"
  "request_field ''id'' = once ''id'' str_at (\<lambda>x v. v\<lparr>qID := x\<rparr>)"
  "request_field ''owner'' = once ''owner'' str_at (\<lambda>x v. v\<lparr>qOwner := x\<rparr>)"
  "request_field ''epoch'' = once ''epoch'' int64_at (\<lambda>x v. v\<lparr>qEpoch := x\<rparr>)"
  "request_field ''ttl_ms'' = once ''ttl_ms'' int64_at (\<lambda>x v. v\<lparr>qTTLMs := x\<rparr>)"
  "request_field ''want'' = once ''want'' str_at (\<lambda>x v. v\<lparr>qWant := x\<rparr>)"
  "request_field ''by'' = once ''by'' str_at (\<lambda>x v. v\<lparr>qBy := x\<rparr>)"
  "request_field ''reason'' = once ''reason'' str_at (\<lambda>x v. v\<lparr>qReason := x\<rparr>)"
  "request_field ''record'' = once ''record'' rawValue (\<lambda>x v. v\<lparr>qRecord := x\<rparr>)"
  "request_field ''base'' = once ''base'' rawValue (\<lambda>x v. v\<lparr>qBase := x\<rparr>)"
  by (simp_all add: request_field_def)

lemma says_request:
  assumes "wire_request q"
  shows "list_all (says request_field) (said_request q)"
proof -
  have v: "ValidString (qOp q)" "ValidString (qID q)" "ValidString (qOwner q)" "ValidString (qWant q)" "ValidString (qBy q)"
    "ValidString (qReason q)" "int64 (qEpoch q)" "int64 (qTTLMs q)" "wire_raw 1 (qRecord q)" "wire_raw 1 (qBase q)"
    using assms by (simp_all add: wire_request_def)
  show ?thesis
    unfolding said_request_def all_present
    by (intro conjI impI says_str [where field = request_field, OF v(1) request_switch(1)] says_str [where field = request_field, OF v(2) request_switch(2)]
        says_str [where field = request_field, OF v(3) request_switch(3)] says_int [where field = request_field, OF v(7) request_switch(4)] says_int [where field = request_field, OF v(8) request_switch(5)]
        says_str [where field = request_field, OF v(4) request_switch(6)] says_str [where field = request_field, OF v(5) request_switch(7)] says_str [where field = request_field, OF v(6) request_switch(8)]
        says_raw [where field = request_field, OF v(9) _ request_switch(9)] says_raw [where field = request_field, OF v(10) _ request_switch(10)] valid_names)
qed

lemma distinct_request: "distinct (map fst (said_request q))"
  unfolding said_request_def by (simp only: distinct_present names_present fst_conv) simp

text \<open>What arrives: the message itself, the values it carries in compact form.\<close>

definition arrived_request :: "Request \<Rightarrow> Request" where
  "arrived_request q = q\<lparr>qRecord := flat (qRecord q), qBase := flat (qBase q)\<rparr>"

lemma put_request:
  "foldl (\<lambda>v (_, _, put). put v) no_request (said_request q) = arrived_request q"
  by (cases q) (simp add: said_request_def no_request_def arrived_request_def foldl_present)

lemma op_said: "''op'' \<in> set (map fst (said_request q))"
  unfolding said_request_def by (simp only: names_present fst_conv) simp

lemma whole_reader: "whole decode input = and_then (decode (ws (reader_at input 0 0))) (\<lambda>(v, r).
       let r = ws r in if r_left r \<noteq> [] then refuse ''trailing_bytes'' r else Inr v)"
  by (simp add: whole_def reader_at_def)

definition wire_end :: "string \<Rightarrow> bool" where
  "wire_end s \<longleftrightarrow> list_all is_ws s"

lemma ws_end: "wire_end s \<Longrightarrow> r_left (ws (reader_at s p d)) = []"
  by (simp add: wire_end_def ws_def list_all_iff) (metis order_refl takeWhile_eq_all_conv)

lemma request_back:
  assumes "wire_request q" "EncodeRequest q = Some b" "wire_end t"
  shows "DecodeRequest (b @ t) = Inr (arrived_request q)"
proof -
  have b: "b @ t = ''{'' @ join '','' (map said_text (said_request q)) @ ''}'' @ t"
    using assms(2) EncodeRequest_said [OF assms(1)] by simp
  show ?thesis
    using message_says [OF says_request [OF assms(1), unfolded list_all_iff] distinct_request, where zero = no_request and s = t and p = 0]
      ws_end [OF assms(3)] op_said [of q]
    by (simp add: DecodeRequest_def whole_reader b decodeRequest_def put_request Let_def)
qed

section \<open>Responses\<close>

definition wire_response :: "Response \<Rightarrow> bool" where
  "wire_response a \<longleftrightarrow> list_all ValidString [aKind a, aError a, aID a] \<and> wire_raw 1 (aRecord a)
     \<and> list_all (\<lambda>s. s \<noteq> [] \<and> wire_raw 2 s) (aRecords a) \<and> list_all ValidString (aUnreadable a)"

definition said_list :: "string list \<Rightarrow> string" where
  "said_list xs = ''['' @ join '','' xs @ '']''"

definition said_response :: "Response \<Rightarrow> Response said list" where
  "said_response a =
     present (aKind a \<noteq> []) (''kind'', esc (aKind a), \<lambda>v. v\<lparr>aKind := aKind a\<rparr>)
     @ present (aError a \<noteq> []) (''error'', esc (aError a), \<lambda>v. v\<lparr>aError := aError a\<rparr>)
     @ present (aID a \<noteq> []) (''id'', esc (aID a), \<lambda>v. v\<lparr>aID := aID a\<rparr>)
     @ present (aRecord a \<noteq> []) (''record'', flat (aRecord a), \<lambda>v. v\<lparr>aRecord := flat (aRecord a)\<rparr>)
     @ present (aRecords a \<noteq> []) (''records'', said_list (map flat (aRecords a)), \<lambda>v. v\<lparr>aRecords := map flat (aRecords a)\<rparr>)
     @ present (aBool a) (''bool'', ''true'', \<lambda>v. v\<lparr>aBool := aBool a\<rparr>)
     @ present (aUnreadable a \<noteq> []) (''unreadable'', said_list (map esc (aUnreadable a)), \<lambda>v. v\<lparr>aUnreadable := aUnreadable a\<rparr>)"

lemma all_some_map: "list_all (\<lambda>x. f x = Some (g x)) xs \<Longrightarrow> all_some (map f xs) = Some (map g xs)"
  by (induction xs) simp_all

lemma rawsFlat_flat:
  assumes "list_all (\<lambda>s. s \<noteq> [] \<and> wire_raw 2 s) xs"
  shows "rawsFlat xs = Some (said_list (map flat xs))"
proof -
  have "list_all (\<lambda>s. rawFlat s = Some (flat s)) xs"
    using assms wire_raw_flat [of 2] by (simp add: list_all_iff)
  then show ?thesis by (simp add: rawsFlat_def all_some_map said_list_def)
qed

lemma EncodeResponse_said:
  assumes "wire_response a"
  shows "EncodeResponse a = Some (''{'' @ join '','' (map said_text (said_response a)) @ ''}'')"
proof -
  have w: "wire_raw 1 (aRecord a)" "list_all (\<lambda>s. s \<noteq> [] \<and> wire_raw 2 s) (aRecords a)"
    using assms unfolding wire_response_def by blast+
  have recs: "(if aRecords a = [] then Some [] else map_option (\<lambda>body. [esc ''records'' @ '':'' @ body]) (rawsFlat (aRecords a)))
    = Some (wire_field (aRecords a \<noteq> []) ''records'' (said_list (map flat (aRecords a))))"
    by (simp add: rawsFlat_flat [OF w(2)] wire_field_def)
  have flag: "wire_field (aBool a) ''bool'' (if aBool a then ''true'' else ''false'') = wire_field (aBool a) ''bool'' ''true''"
    by (simp add: wire_field_def)
  show ?thesis
    unfolding EncodeResponse_def encWireResponse_def raw_field_present [OF w(1)] recs flag
    by (simp add: said_response_def strsFlat_def said_list_def)
qed

lemma said_list_item:
  assumes "\<forall>x \<in> set xs. item_reads item 2 (g x, h x)"
  shows "item_reads (list_at item) 1 (said_list (map g xs), map h xs)"
proof -
  have "list_at item (reader_at (''['' @ join '','' (map fst (map (\<lambda>x. (g x, h x)) xs)) @ '']'' @ s) p 1)
    = Inr (map snd (map (\<lambda>x. (g x, h x)) xs), reader_at s (p + length (join '','' (map fst (map (\<lambda>x. (g x, h x)) xs))) + 2) 1)" for s p
    using assms by (intro list_at_read) (simp_all add: wire_depthLimit_def numeral_2_eq_2)
  then show ?thesis by (simp add: item_reads_def said_list_def comp_def)
qed

lemma response_switch:
  "response_field ''kind'' = once ''kind'' str_at (\<lambda>x v. v\<lparr>aKind := x\<rparr>)"
  "response_field ''error'' = once ''error'' str_at (\<lambda>x v. v\<lparr>aError := x\<rparr>)"
  "response_field ''id'' = once ''id'' str_at (\<lambda>x v. v\<lparr>aID := x\<rparr>)"
  "response_field ''record'' = once ''record'' rawValue (\<lambda>x v. v\<lparr>aRecord := x\<rparr>)"
  "response_field ''records'' = once ''records'' rawList (\<lambda>x v. v\<lparr>aRecords := x\<rparr>)"
  "response_field ''bool'' = once ''bool'' boolean (\<lambda>x v. v\<lparr>aBool := x\<rparr>)"
  "response_field ''unreadable'' = once ''unreadable'' strList (\<lambda>x v. v\<lparr>aUnreadable := x\<rparr>)"
  by (simp_all add: response_field_def)

lemma says_response:
  assumes "wire_response a"
  shows "list_all (says response_field) (said_response a)"
proof -
  have v: "ValidString (aKind a)" "ValidString (aError a)" "ValidString (aID a)" "wire_raw 1 (aRecord a)"
    "list_all (\<lambda>s. s \<noteq> [] \<and> wire_raw 2 s) (aRecords a)" "list_all ValidString (aUnreadable a)"
    using assms by (simp_all add: wire_response_def)
  have recs: "item_reads rawList 1 (said_list (map flat (aRecords a)), map flat (aRecords a))"
    unfolding rawList_def using v(5) by (intro said_list_item) (auto simp: list_all_iff intro: raw_item)
  have unread: "item_reads strList 1 (said_list (map esc (aUnreadable a)), map (\<lambda>x. x) (aUnreadable a))"
    unfolding strList_def using v(6) by (intro said_list_item) (auto simp: list_all_iff intro: str_item)
  have rest: "says response_field (''records'', said_list (map flat (aRecords a)), \<lambda>v. v\<lparr>aRecords := map flat (aRecords a)\<rparr>)"
    "aBool a \<Longrightarrow> says response_field (''bool'', ''true'', \<lambda>v. v\<lparr>aBool := aBool a\<rparr>)"
    "says response_field (''unreadable'', said_list (map esc (aUnreadable a)), \<lambda>v. v\<lparr>aUnreadable := aUnreadable a\<rparr>)"
    using says_once [where field = response_field, OF response_switch(5) _ recs]
      says_once [where field = response_field, OF response_switch(6) _ bool_item]
      says_once [where field = response_field, OF response_switch(7) _ unread] by simp_all
  show ?thesis
    unfolding said_response_def all_present
    by (intro conjI impI rest says_str [where field = response_field, OF v(1) response_switch(1)]
        says_str [where field = response_field, OF v(2) response_switch(2)]
        says_str [where field = response_field, OF v(3) response_switch(3)]
        says_raw [where field = response_field, OF v(4) _ response_switch(4)] valid_names)
qed

lemma distinct_response: "distinct (map fst (said_response a))"
  unfolding said_response_def by (simp only: distinct_present names_present fst_conv) simp

definition arrived_response :: "Response \<Rightarrow> Response" where
  "arrived_response a = a\<lparr>aRecord := flat (aRecord a), aRecords := map flat (aRecords a)\<rparr>"

lemma put_response:
  "foldl (\<lambda>v (_, _, put). put v) no_response (said_response a) = arrived_response a"
  by (cases a) (simp add: said_response_def no_response_def arrived_response_def foldl_present)

lemma response_back:
  assumes "wire_response a" "EncodeResponse a = Some b" "wire_end t"
  shows "DecodeResponse (b @ t) = Inr (arrived_response a)"
proof -
  have b: "b @ t = ''{'' @ join '','' (map said_text (said_response a)) @ ''}'' @ t"
    using assms(2) EncodeResponse_said [OF assms(1)] by simp
  show ?thesis
    using message_says [OF says_response [OF assms(1), unfolded list_all_iff] distinct_response, where zero = no_response and s = t and p = 0]
      ws_end [OF assms(3)]
    by (simp add: DecodeResponse_def whole_reader b decodeResponse_def put_response Let_def)
qed

section \<open>Every text is answered\<close>

lemma spoken_words [simp]: "''duplicate_field'' \<in> set refusals" "''missing_field'' \<in> set refusals" "''trailing_bytes'' \<in> set refusals"
  "''malformed'' \<in> set refusals" "''wrong_type'' \<in> set refusals" "''number_spelling'' \<in> set refusals" "''out of fuel'' \<notin> set refusals"
  by (simp_all add: refusals_def)

definition spoken :: "'a reads \<Rightarrow> bool" where
  "spoken x \<longleftrightarrow> (case x of Inl (Refusal w _) \<Rightarrow> w \<in> set refusals | Inr _ \<Rightarrow> True)"

lemma spoken_refuse [simp]: "spoken (refuse w r) \<longleftrightarrow> w \<in> set refusals"
  by (simp add: spoken_def refuse_def)

lemma spoken_Inr [simp]: "spoken (Inr x)"
  by (simp add: spoken_def)

lemma spoken_and_then: "spoken x \<Longrightarrow> (\<And>y. x = Inr y \<Longrightarrow> spoken (f y)) \<Longrightarrow> spoken (and_then x f)"
  by (cases x) (auto simp: spoken_def)

lemma worded_spoken: "worded x \<Longrightarrow> spoken x"
  by (auto simp: worded_def spoken_def refusal_words_def refusals_def split: sum.splits refusal.splits)

text \<open>A decoder of one field answers, and takes at least a byte.\<close>

definition answers :: "(string \<Rightarrow> 's \<times> string list \<Rightarrow> reader \<Rightarrow> (('s \<times> string list) \<times> reader) reads) \<Rightarrow> bool" where
  "answers field \<longleftrightarrow> (\<forall>key v r. spoken (field key v r) \<and>
     (\<forall>v' r'. field key v r = Inr (v', r') \<longrightarrow> length (r_left r') \<le> length (r_left r)))"

lemma read_name_shorter: "read_name r = Inr (key, r') \<Longrightarrow> length (r_left r') < length (r_left r)"
proof -
  assume "read_name r = Inr (key, r')"
  then obtain k r1 where k: "str_at r = Inr (k, r1)" and r': "r' = ws (step 1 (ws r1))"
    by (auto simp: read_name_def Let_def res_simps split: if_splits)
  have "length (r_left r') \<le> length (r_left r1)"
    unfolding r' using ws_length [of "step 1 (ws r1)"] ws_length [of r1] by simp
  with str_at_shorter [OF k] show ?thesis by simp
qed

lemma spoken_name: "spoken (read_name r)"
  by (auto simp: read_name_def Let_def intro!: spoken_and_then worded_spoken [OF worded_str])

lemma message_loop_spoken:
  assumes "answers field"
  shows "length (r_left r) < f \<Longrightarrow> spoken (message_loop field f v r)"
proof (induction f arbitrary: v r)
  case (Suc f)
  have a: "spoken (field key v r)" "field key v r = Inr (v', r') \<Longrightarrow> length (r_left r') \<le> length (r_left r)" for key v r v' r'
    using assms unfolding answers_def by blast+
  have "spoken (message_loop field f v' (step 1 (ws r2)))"
    if "read_name (ws r) = Inr (key, r1)" "field key v r1 = Inr (v', r2)" for key r1 v' r2
  proof -
    have "length (r_left r1) < length (r_left (ws r))" using that(1) by (rule read_name_shorter)
    moreover have "length (r_left r2) \<le> length (r_left r1)" using that(2) by (rule a(2))
    ultimately have "length (r_left (step 1 (ws r2))) < f"
      using ws_length [of r] ws_length [of r2] Suc.prems by simp
    then show ?thesis by (rule Suc.IH)
  qed
  then show ?case
    by (auto simp: Let_def intro!: spoken_and_then spoken_name a(1) simp del: One_nat_def)
qed simp

lemma message_spoken:
  assumes "answers field"
  shows "spoken (message field zero r)"
proof -
  have "spoken (message_loop field (walk_fuel r) (zero, []) r)" for r
    by (rule message_loop_spoken [OF assms]) (simp add: walk_fuel_def)
  then show ?thesis
    by (auto simp: message_def Let_def intro!: spoken_and_then worded_spoken [OF worded_enter] simp del: message_loop.simps)
qed

lemma integer_digits_props:
  "worded (integer_digits u r) \<and> (\<forall>x r'. integer_digits u r = Inr (x, r') \<longrightarrow> length (r_left r') \<le> length (r_left r))"
proof (induction u r rule: integer_digits.induct)
  case (1 u r)
  then show ?case
    by (subst integer_digits.simps, subst (2) integer_digits.simps) auto
qed

lemma worded_if: "(c \<Longrightarrow> worded a) \<Longrightarrow> (\<not> c \<Longrightarrow> worded b) \<Longrightarrow> worded (if c then a else b)"
  by simp

lemma worded_pair: "(\<And>a b. y = (a, b) \<Longrightarrow> worded (f a b)) \<Longrightarrow> worded (case y of (a, b) \<Rightarrow> f a b)"
  by (cases y) simp

lemma integer_worded: "worded (integer least most r)"
  unfolding integer_def Let_def
  by (intro worded_if worded_and_then worded_pair conjunct1 [OF integer_digits_props]) simp_all

lemma integer_shorter:
  assumes "integer least most r = Inr (x, r')"
  shows "length (r_left r') \<le> length (r_left r)"
proof -
  let ?s = "if at_byte r = CHR ''-'' then step 1 r else r"
  have "\<exists>u. (if at_byte ?s = CHR ''0'' then Inr (0, step 1 ?s) else integer_digits 0 ?s) = Inr (u, r')"
    using assms unfolding integer_def Let_def
    by (simp only: if_Inl_eq_Inr [symmetric] and_then_Inr split: if_split_asm) (auto split: if_split_asm prod.splits)
  then have "length (r_left r') \<le> length (r_left ?s)"
    using integer_digits_props [of 0 ?s] by (auto split: if_splits)
  then show ?thesis by (auto split: if_splits)
qed

lemma boolean_props:
  "worded (boolean r)"
  "boolean r = Inr (x, r') \<Longrightarrow> length (r_left r') \<le> length (r_left r)"
  by (auto simp: boolean_def res_simps intro!: worded_and_then worded_literal dest!: literal_shorter split: if_splits)

lemma list_items_shorter:
  assumes "\<And>r x r'. item r = Inr (x, r') \<Longrightarrow> length (r_left r') < length (r_left r)"
  shows "list_items item f r = Inr (xs, r') \<Longrightarrow> length (r_left r') \<le> length (r_left r)"
proof (induction f arbitrary: r xs)
  case (Suc f)
  then obtain x r1 where x: "item (ws r) = Inr (x, r1)"
    and e: "at_byte (ws r1) \<noteq> CHR '','' \<and> r' = ws r1 \<or> (\<exists>ys. list_items item f (step 1 (ws r1)) = Inr (ys, r'))"
    by (auto simp: Let_def res_simps split: if_splits)
  have "length (r_left r1) < length (r_left (ws r))" using x by (rule assms)
  moreover have "length (r_left r') \<le> length (r_left (ws r1))"
    using e Suc.IH [of "step 1 (ws r1)"] by auto
  ultimately show ?case using ws_length [of r] ws_length [of r1] by linarith
qed simp

lemma enter_left: "enter r = Inr r1 \<Longrightarrow> r_left r1 = r_left r"
  by (auto simp: enter_def Let_def split: if_splits)

lemma list_at_shorter:
  assumes "\<And>r x r'. item r = Inr (x, r') \<Longrightarrow> length (r_left r') < length (r_left r)"
    and "list_at item r = Inr (xs, r')"
  shows "length (r_left r') \<le> length (r_left r)"
proof -
  obtain r1 where r1: "enter r = Inr r1" and "\<exists>r2. r' = leave (step 1 r2) \<and>
      (r2 = ws (step 1 r1) \<or> list_items item (walk_fuel (ws (step 1 r1))) (ws (step 1 r1)) = Inr (xs, r2))"
    using assms(2) by (auto simp: list_at_def Let_def res_simps simp del: list_items.simps split: if_splits)
  then obtain r2 where r': "r' = leave (step 1 r2)"
    and e: "r2 = ws (step 1 r1) \<or> list_items item (walk_fuel (ws (step 1 r1))) (ws (step 1 r1)) = Inr (xs, r2)" by blast
  have "length (r_left r2) \<le> length (r_left (ws (step 1 r1)))"
    using e by (elim disjE) (simp, rule list_items_shorter [OF assms(1)])
  with ws_length [of "step 1 r1"] enter_left [OF r1] show ?thesis by (simp add: r' leave_def)
qed

text \<open>What one branch of the switch over the names does.\<close>

definition answers_at :: "('s \<times> string list \<Rightarrow> reader \<Rightarrow> (('s \<times> string list) \<times> reader) reads) \<Rightarrow> bool" where
  "answers_at h \<longleftrightarrow> (\<forall>v r. spoken (h v r) \<and> (\<forall>v' r'. h v r = Inr (v', r') \<longrightarrow> length (r_left r') \<le> length (r_left r)))"

lemma answers_iff: "answers field \<longleftrightarrow> (\<forall>key. answers_at (field key))"
  by (auto simp: answers_def answers_at_def)

lemma once_answers:
  assumes "\<And>r. worded (value r)" "\<And>r x r'. value r = Inr (x, r') \<Longrightarrow> length (r_left r') \<le> length (r_left r)"
  shows "answers_at (once key value put)"
proof -
  have "spoken (and_then (value r) (\<lambda>(x, r). Inr ((put x (fst v), key # snd v), r)))" for v r
    by (rule spoken_and_then [OF worded_spoken [OF assms(1)]]) auto
  with assms(2) show ?thesis by (auto simp: answers_at_def once_def res_simps split: if_splits)
qed

lemma skip_field_answers: "answers_at skip_field"
proof -
  have "spoken (and_then (skipValue (walk_fuel r) r) (\<lambda>r. Inr (v, r)))" for v :: "'a \<times> string list" and r
    by (rule spoken_and_then [OF worded_spoken [OF skipValue_enough]]) simp
  then show ?thesis by (auto simp: answers_at_def skip_field_def res_simps dest: skip_shorter)
qed

lemma lists_worded: "worded (rawList r)" "worded (strList r)"
  unfolding rawList_def strList_def
  by (rule list_at_worded, rule rawValue_worded, erule rawValue_shorter)
    (rule list_at_worded, rule worded_str, erule str_at_shorter)

lemma branches_answer [simp]:
  "answers_at (once key str_at put)" "answers_at (once key int64_at put')" "answers_at (once key rawValue put)"
  "answers_at (once key rawList put'')" "answers_at (once key boolean put3)" "answers_at (once key strList put'')"
  "answers_at skip_field"
  by (rule once_answers, rule worded_str, drule str_at_shorter, simp)
    (rule once_answers, rule integer_worded, erule integer_shorter,
     rule once_answers, rule rawValue_worded, drule rawValue_shorter, simp,
     rule once_answers, rule lists_worded, unfold rawList_def, erule list_at_shorter [OF rawValue_shorter, rotated], assumption,
     rule once_answers, rule boolean_props, erule boolean_props,
     rule once_answers, rule lists_worded, unfold strList_def, erule list_at_shorter [OF str_at_shorter, rotated], assumption,
     rule skip_field_answers)

lemma message_answers: "answers request_field" "answers response_field"
  by (simp_all add: answers_iff request_field_def response_field_def)

lemma whole_spoken:
  assumes "\<And>r. spoken (decode r)"
  shows "spoken (whole decode input)"
  by (auto simp: whole_def Let_def intro!: spoken_and_then assms)

lemma decoders_spoken: "spoken (DecodeRequest b)" "spoken (DecodeResponse b)"
  unfolding DecodeRequest_def DecodeResponse_def
  by (rule whole_spoken; auto simp: decodeRequest_def decodeResponse_def intro!: spoken_and_then message_spoken message_answers)+

end
