(* ===== verification/Wire.thy ===== *)
theory Wire
  imports WireRoundtrip
begin

text \<open>
  go/wire.go: the verdict each error is sent as and the error a verdict is read back as, with the
  properties of the messages that carry them.
\<close>

definition Verdict :: "err option \<Rightarrow> string" where
  "Verdict err = (case err of
     None \<Rightarrow> []
   | Some ErrNotFound \<Rightarrow> ''not_found''
   | Some ErrLeaseHeld \<Rightarrow> ''lease_held''
   | Some ErrStaleEpoch \<Rightarrow> ''stale_epoch''
   | Some ErrConflict \<Rightarrow> ''conflict''
   | Some ErrLeaseExpiry \<Rightarrow> ''lease_expired''
   | Some ErrTerminal \<Rightarrow> ''terminal''
   | Some ErrUnknownSchema \<Rightarrow> ''unknown_schema''
   | Some ErrNotSupported \<Rightarrow> ''not_supported''
   | Some ErrInvalid \<Rightarrow> ''invalid''
   | Some (ErrPlain _) \<Rightarrow> ''other'')"

definition errorOf :: "string \<Rightarrow> string \<Rightarrow> err option" where
  "errorOf kind msg =
     (if kind = [] then None
      else if kind = ''not_found'' then Some ErrNotFound
      else if kind = ''lease_held'' then Some ErrLeaseHeld
      else if kind = ''stale_epoch'' then Some ErrStaleEpoch
      else if kind = ''conflict'' then Some ErrConflict
      else if kind = ''lease_expired'' then Some ErrLeaseExpiry
      else if kind = ''terminal'' then Some ErrTerminal
      else if kind = ''invalid'' then Some ErrInvalid
      else if kind = ''unknown_schema'' then Some ErrUnknownSchema
      else if kind = ''not_supported'' \<or> kind = ''unsupported'' then Some ErrNotSupported
      else Some (ErrPlain msg))"

section \<open>What crosses the connection\<close>

text \<open>The error a caller sees after it has crossed: the sentinel it was, or the message alone.\<close>

definition crossed :: "string \<Rightarrow> err \<Rightarrow> err" where
  "crossed msg e = (case e of ErrPlain _ \<Rightarrow> ErrPlain msg | _ \<Rightarrow> e)"

lemma errorOf_Verdict': "errorOf (Verdict (Some e)) msg = Some (crossed msg e)"
  by (cases e) (simp_all add: Verdict_def errorOf_def crossed_def)

lemma Verdict_known: "IsVerdict (Verdict (Some e))"
  by (cases e) (simp_all add: Verdict_def IsVerdict_def Verdicts_def)

lemma Verdict_nonempty [simp]: "Verdict (Some e) \<noteq> []"
  by (cases e) (simp_all add: Verdict_def)

lemma Verdict_valid: "ValidString (Verdict x)"
proof (cases x)
  case (Some e)
  then show ?thesis by (cases e) (simp_all add: Verdict_def byte_def)
qed (simp add: Verdict_def)

section \<open>Properties\<close>

text \<open>C33: every sentinel error crosses the connection as itself.  The verdict of an error is one
  of the protocol's words, an error read back from it matches the same sentinel (one that matches
  none keeps its message), the absence of an error is the empty verdict, and the spelling of
  \<open>not_supported\<close> that writers take next is read too.\<close>

theorem errorOf_Verdict:
  "errorOf (Verdict (Some e)) msg = Some (crossed msg e) \<and> IsVerdict (Verdict (Some e))
   \<and> errorOf (Verdict None) msg = None \<and> errorOf ''unsupported'' msg = Some ErrNotSupported"
  using errorOf_Verdict' Verdict_known by (simp add: Verdict_def [of None] errorOf_def [of "[]"] errorOf_def [of "''unsupported''"])

text \<open>C15: a request is read back as it was written.  The encoder answers for every request whose
  strings are well-formed, whose numbers are int64 and whose two records are absent or documents
  the reader can follow, and what the decoder makes of the bytes, with any white space after them,
  is the request with its records in compact form.\<close>

theorem DecodeRequest_EncodeRequest:
  assumes "wire_request q"
  shows "\<exists>b. EncodeRequest q = Some b \<and> (\<forall>t \<in> {t. wire_end t}. DecodeRequest (b @ t) = Inr (arrived_request q))"
  using EncodeRequest_said [OF assms] request_back [OF assms] by blast

definition sample_request :: Request where
  "sample_request = \<lparr>qOp = ''write'', qID = ''j1'', qOwner = ''w '' @ [CHR 0x22], qEpoch = - 7, qTTLMs = 30000, qWant = [], qBy = [],
     qReason = [], qRecord = ''{ '' @ [CHR 0x22, CHR ''a'', CHR 0x22] @ '' : [1, true] }'', qBase = []\<rparr>"

lemma sample_document: "parse_json (qRecord sample_request) = Some (JObj [(''a'', JArr [JNum ''1'', JBool True])])"
  by code_simp

lemma sample_raw: "n \<le> 2 \<Longrightarrow> wire_raw n (qRecord sample_request)"
proof -
  assume n: "n \<le> 2"
  have c: "clean ''a''" using clean_one [OF clean_piece.plain [of "CHR ''a''"]] by (simp add: byte_def)
  have "carried (JObj [(''a'', JArr [JNum ''1'', JBool True])])" "dup_free (JObj [(''a'', JArr [JNum ''1'', JBool True])])"
    "depth (JObj [(''a'', JArr [JNum ''1'', JBool True])]) + n \<le> wire_depthLimit"
    using n by (simp_all add: c wire_depthLimit_def)
  with sample_document show ?thesis unfolding wire_raw_def by blast
qed

lemma sample_request_wire: "wire_request sample_request"
proof -
  have "wire_raw 1 (qRecord sample_request)"
    by (rule sample_raw) simp
  moreover have "list_all ValidString [qOp sample_request, qID sample_request, qOwner sample_request, qWant sample_request,
      qBy sample_request, qReason sample_request]"
    by (simp add: sample_request_def byte_def)
  moreover have "int64 (qEpoch sample_request)" "int64 (qTTLMs sample_request)" "qBase sample_request = []"
    by (simp_all add: sample_request_def int64_def)
  ultimately show ?thesis unfolding wire_request_def by (simp only: wire_raw_Nil)
qed

theorem DecodeRequest_EncodeRequest_witness:
  "\<exists>b. EncodeRequest sample_request = Some b \<and> DecodeRequest (b @ [CHR 0x0A]) = Inr (arrived_request sample_request)"
proof -
  obtain b where "EncodeRequest sample_request = Some b"
    "\<forall>t \<in> {t. wire_end t}. DecodeRequest (b @ t) = Inr (arrived_request sample_request)"
    using DecodeRequest_EncodeRequest [OF sample_request_wire] by blast
  moreover have "wire_end [CHR 0x0A]" by (simp add: wire_end_def is_ws_def)
  ultimately show ?thesis by blast
qed

text \<open>C27: a response is read back as it was written: its verdict, message, id and flag, the record
  and the list of records in compact form, and the names of the records a sweep could not
  read.\<close>

theorem DecodeResponse_EncodeResponse:
  assumes "wire_response a"
  shows "\<exists>b. EncodeResponse a = Some b \<and> (\<forall>t \<in> {t. wire_end t}. DecodeResponse (b @ t) = Inr (arrived_response a))"
  using EncodeResponse_said [OF assms] response_back [OF assms] by blast

definition sample_response :: Response where
  "sample_response = \<lparr>aKind = [], aError = ''unreadable'', aID = [], aRecord = [],
     aRecords = [qRecord sample_request, ''[]''], aBool = True, aUnreadable = [''j2'', ''j3'']\<rparr>"

theorem DecodeResponse_EncodeResponse_witness:
  "\<exists>b. EncodeResponse sample_response = Some b \<and> DecodeResponse b = Inr (arrived_response sample_response)"
proof -
  have "wire_raw 2 (qRecord sample_request)"
    by (rule sample_raw) simp
  moreover have "wire_raw 2 ''[]''"
  proof -
    have "parse_json ''[]'' = Some (JArr [])" by code_simp
    then show ?thesis unfolding wire_raw_def by (intro disjI2 exI) (auto simp: wire_depthLimit_def)
  qed
  moreover have "qRecord sample_request \<noteq> []" by (simp add: sample_request_def)
  ultimately have "wire_response sample_response"
    by (simp add: wire_response_def sample_response_def byte_def wire_raw_Nil)
  from DecodeResponse_EncodeResponse [OF this] obtain b where "EncodeResponse sample_response = Some b"
    "\<forall>t \<in> {t. wire_end t}. DecodeResponse (b @ t) = Inr (arrived_response sample_response)" by blast
  moreover have "wire_end []" by (simp add: wire_end_def)
  ultimately show ?thesis by (metis append_Nil2 mem_Collect_eq)
qed

text \<open>C34: every text is answered.  Whatever bytes arrive, the decoders of both messages end, with
  a message or with a refusal that carries one of the protocol's own words: the walk over a nested
  value never stops for want of fuel.\<close>

theorem decoders_answer: "spoken (DecodeRequest b) \<and> spoken (DecodeResponse b)"
  using decoders_spoken by blast

end
