(* ===== verification/FileStore.thy ===== *)
theory FileStore
  imports Codec Leases
begin

text \<open>
  go/store.go: the binding that keeps one file for each record.  The state is the directory
  \<open>jobs\<close>: what every name in it holds.  An id is one path element, as the ids \<open>NewID\<close> makes are;
  the record of id \<open>i\<close> is the entry \<open>i.json\<close>.

  The file system and the module \<open>cas\<close> are parameters, a \<open>host\<close>: reading a file, listing the
  directory, and the two writes of \<open>cas\<close>.  What the code relies on is \<open>host_laws\<close>: a change applies
  the closure to the bytes as they stand at the moment of the write, and one that fails leaves
  every file as it is.
\<close>

section \<open>The directory\<close>

datatype entry = File string | Dir

type_synonym jobs_dir = "entry gomap"

definition ErrNotExist :: err where
  "ErrNotExist = ErrPlain ''file does not exist''"

definition ErrMoved :: err where
  "ErrMoved = ErrPlain ''cas: moved''"

text \<open>The closure of a change also leaves a record in a captured variable: that is the second half of
  its answer.\<close>

record host =
  hRead :: "jobs_dir \<Rightarrow> string \<Rightarrow> string res"
  hScan :: "jobs_dir \<Rightarrow> unit res"
  hChange :: "jobs_dir \<Rightarrow> string \<Rightarrow> (string option \<Rightarrow> (string \<times> Record) res) \<Rightarrow> jobs_dir \<times> Record res"
  hWrite :: "jobs_dir \<Rightarrow> string \<Rightarrow> string option \<Rightarrow> string \<Rightarrow> jobs_dir \<times> unit res"

definition content_of :: "jobs_dir \<Rightarrow> string \<Rightarrow> string option" where
  "content_of s name = (case map_of s name of Some (File b) \<Rightarrow> Some b | _ \<Rightarrow> None)"

text \<open>An error of the system: a sentence of its own, and not the one that says a file is absent.\<close>

definition os_error :: "err \<Rightarrow> bool" where
  "os_error e \<longleftrightarrow> (case e of ErrPlain m \<Rightarrow> e \<noteq> ErrNotExist \<and> e \<noteq> ErrMoved | _ \<Rightarrow> False)"

definition host_laws :: "host \<Rightarrow> bool" where
  "host_laws h \<longleftrightarrow>
     (\<forall>s name. case map_of s name of
        None \<Rightarrow> hRead h s name = Inl ErrNotExist \<or> (\<exists>e. hRead h s name = Inl e \<and> os_error e)
      | Some (File b) \<Rightarrow> hRead h s name = Inr b \<or> (\<exists>e. hRead h s name = Inl e \<and> os_error e)
      | Some Dir \<Rightarrow> \<exists>e. hRead h s name = Inl e \<and> os_error e)
   \<and> (\<forall>s. hScan h s = Inr () \<or> (\<exists>e. hScan h s = Inl e \<and> os_error e))
   \<and> (\<forall>s name f. (\<exists>e. hChange h s name f = (s, Inl e) \<and> os_error e)
      \<or> (map_of s name \<noteq> Some Dir
         \<and> hChange h s name f = (case f (content_of s name) of
             Inl e \<Rightarrow> (s, Inl e)
           | Inr (b, r) \<Rightarrow> (gomap_put name (File b) s, Inr r))))
   \<and> (\<forall>s name want b. (\<exists>e. hWrite h s name want b = (s, Inl e) \<and> os_error e)
      \<or> (map_of s name \<noteq> Some Dir
         \<and> hWrite h s name want b =
             (if content_of s name = want then (gomap_put name (File b) s, Inr ()) else (s, Inl ErrMoved))))"

text \<open>A host whose disk never fails.\<close>

definition is_dir :: err where
  "is_dir = ErrPlain ''is a directory''"

definition sound_host :: host where
  "sound_host = \<lparr>
     hRead = (\<lambda>s name. case map_of s name of None \<Rightarrow> Inl ErrNotExist | Some Dir \<Rightarrow> Inl is_dir | Some (File b) \<Rightarrow> Inr b),
     hScan = (\<lambda>s. Inr ()),
     hChange = (\<lambda>s name f. if map_of s name = Some Dir then (s, Inl is_dir)
       else case f (content_of s name) of
         Inl e \<Rightarrow> (s, Inl e)
       | Inr (b, r) \<Rightarrow> (gomap_put name (File b) s, Inr r)),
     hWrite = (\<lambda>s name want b. if map_of s name = Some Dir then (s, Inl is_dir)
       else if content_of s name = want then (gomap_put name (File b) s, Inr ())
       else (s, Inl ErrMoved))\<rparr>"

lemma sound_host_laws: "host_laws sound_host"
  by (auto simp: host_laws_def sound_host_def os_error_def is_dir_def ErrNotExist_def ErrMoved_def
      split: option.split entry.split)

section \<open>Names\<close>

definition recordName :: "string \<Rightarrow> string" where
  "recordName i = i @ ''.json''"

text \<open>\<open>recordPath\<close> and \<open>WorkPath\<close> under the root; \<open>filepath.Join\<close> of clean elements.\<close>

definition Join :: "string list \<Rightarrow> string" where
  "Join es = join ''/'' (filter (\<lambda>e. e \<noteq> []) es)"

definition recordPath :: "string \<Rightarrow> string \<Rightarrow> string" where
  "recordPath root i = Join [root, ''jobs'', recordName i]"

definition WorkPath :: "string \<Rightarrow> string \<Rightarrow> string" where
  "WorkPath root i = Join [root, ''work'', i]"

text \<open>\<open>NewID\<close>: the clock in milliseconds and ten random bytes.\<close>

definition hex_byte :: "char \<Rightarrow> string" where
  "hex_byte c = [hex_digit (byte c div 16), hex_digit (byte c mod 16)]"

definition NewID :: "int \<Rightarrow> string \<Rightarrow> string" where
  "NewID millis random = FormatInt millis @ ''-'' @ concat (map hex_byte random)"

section \<open>What a sweep could not read\<close>

record unreadable =
  unIDs :: "string list"
  unReason :: "err option"

definition note_unread :: "string \<Rightarrow> err \<Rightarrow> unreadable \<Rightarrow> unreadable" where
  "note_unread i e u =
     (let u = u\<lparr>unIDs := unIDs u @ [i]\<rparr>
      in if unReason u = None then u\<lparr>unReason := Some e\<rparr> else u)"

definition orNil :: "unreadable \<Rightarrow> unreadable option" where
  "orNil u = (if unIDs u = [] then None else Some u)"

section \<open>Submitting and reading\<close>

definition fs_Submit :: "host \<Rightarrow> string \<Rightarrow> time \<Rightarrow> Record \<Rightarrow> jobs_dir \<Rightarrow> jobs_dir \<times> string res" where
  "fs_Submit h newid now r s =
     (let r = (if rID r = [] then r\<lparr>rID := newid\<rparr> else r);
          r = describe r;
          r = (if rState r = StateOther [] then r\<lparr>rState := StatePending\<rparr> else r);
          r = r\<lparr>rCreatedAt := At now, rUpdatedAt := At now, rProgress := (rProgress r)\<lparr>pUpdatedAt := At now\<rparr>\<rparr>
      in case Encode r of
           Inl e \<Rightarrow> (s, Inl e)
         | Inr (r, b) \<Rightarrow>
             (case hWrite h s (recordName (rID r)) None b of
                (s, Inl e) \<Rightarrow> (s, Inl (if e = ErrMoved then ErrInvalid else e))
              | (s, Inr _) \<Rightarrow> (s, Inr (rID r))))"

definition fs_Load :: "host \<Rightarrow> string \<Rightarrow> jobs_dir \<Rightarrow> Record res" where
  "fs_Load h i s =
     (case hRead h s (recordName i) of
        Inl e \<Rightarrow> if e = ErrNotExist then Inl ErrNotFound else Inl e
      | Inr b \<Rightarrow> Decode b)"

definition HasSuffix :: "string \<Rightarrow> string \<Rightarrow> bool" where
  "HasSuffix s suf \<longleftrightarrow> length suf \<le> length s \<and> drop (length s - length suf) s = suf"

definition job_names :: "jobs_dir \<Rightarrow> string list" where
  "job_names s = sort (map (\<lambda>(name, _). TrimSuffix name ''.json'')
     (filter (\<lambda>(name, e). \<not> (e = Dir \<or> \<not> HasSuffix name ''.json'')) s))"

fun list_loop :: "host \<Rightarrow> jobs_dir \<Rightarrow> string list \<Rightarrow> Record list \<Rightarrow> unreadable \<Rightarrow> Record list \<times> unreadable" where
  "list_loop h s [] out unread = (out, unread)"
| "list_loop h s (i # names) out unread =
     (case fs_Load h i s of
        Inl e \<Rightarrow> list_loop h s names out (note_unread i e unread)
      | Inr r \<Rightarrow> list_loop h s names (out @ [r]) unread)"

definition fs_List :: "host \<Rightarrow> jobs_dir \<Rightarrow> (Record list \<times> unreadable option) res" where
  "fs_List h s =
     rbind (hScan h s) (\<lambda>_.
     let (out, unread) = list_loop h s (job_names s) [] \<lparr>unIDs = [], unReason = None\<rparr>
     in Inr (out, orNil unread))"

definition fs_Claimable :: "time \<Rightarrow> Record \<Rightarrow> bool" where
  "fs_Claimable now r \<longleftrightarrow> \<not> Terminal (rState r) \<and> \<not> Held (rLease r) now"

fun fs_sweep :: "(nat \<Rightarrow> time) \<Rightarrow> nat \<Rightarrow> Record list \<Rightarrow> Record list" where
  "fs_sweep clk n [] = []"
| "fs_sweep clk n (r # rs) =
     (if fs_Claimable (clk n) r \<and> Stranded r then r # fs_sweep clk (Suc n) rs
      else fs_sweep clk (Suc n) rs)"

definition fs_Orphans :: "host \<Rightarrow> (nat \<Rightarrow> time) \<Rightarrow> jobs_dir \<Rightarrow> (Record list \<times> unreadable option) res" where
  "fs_Orphans h clk s =
     (case fs_List h s of
        Inl e \<Rightarrow> Inl e
      | Inr (all, unread) \<Rightarrow> Inr (fs_sweep clk 0 all, unread))"

section \<open>Changing one record\<close>

text \<open>The closure every change hands to \<open>cas\<close>; \<open>Encode\<close> works on the record in place, so the answer is
  the record as it was written.\<close>

definition fs_closure :: "(Record \<Rightarrow> Record res) \<Rightarrow> string option \<Rightarrow> (string \<times> Record) res" where
  "fs_closure edit cur =
     (case cur of
        None \<Rightarrow> Inl ErrNotFound
      | Some cur \<Rightarrow>
          rbind (Decode cur) (\<lambda>r.
          rbind (edit r) (\<lambda>r.
          rbind (Encode r) (\<lambda>(r, b). Inr (b, r)))))"

definition fs_change :: "host \<Rightarrow> string \<Rightarrow> (Record \<Rightarrow> Record res) \<Rightarrow> jobs_dir \<Rightarrow> jobs_dir \<times> Record res" where
  "fs_change h i edit s = hChange h s (recordName i) (fs_closure edit)"

definition fs_intent_edit :: "Want \<Rightarrow> string \<Rightarrow> time \<Rightarrow> time \<Rightarrow> Record \<Rightarrow> Record res" where
  "fs_intent_edit want by' now1 now2 r =
     (if Terminal (rState r) then Inl ErrTerminal
      else Inr (r\<lparr>rIntent := Some \<lparr>iWant = want, iBy = by', iAt = At now1\<rparr>, rUpdatedAt := At now2\<rparr>))"

definition fs_SetIntent ::
    "host \<Rightarrow> string \<Rightarrow> Want \<Rightarrow> string \<Rightarrow> time \<Rightarrow> time \<Rightarrow> jobs_dir \<Rightarrow> jobs_dir \<times> Record res" where
  "fs_SetIntent h i want by' now1 now2 s =
     (if \<not> ValidWant want then (s, Inl ErrInvalid)
      else fs_change h i (fs_intent_edit want by' now1 now2) s)"

definition fs_claim_edit :: "int \<Rightarrow> string \<Rightarrow> duration \<Rightarrow> time \<Rightarrow> Record \<Rightarrow> Record res" where
  "fs_claim_edit seen owner ttl now r =
     (if lEpoch (rLease r) \<noteq> seen then Inl ErrLeaseHeld
      else if Terminal (rState r) then Inl ErrTerminal
      else if Held (rLease r) now \<and> (lOwner (rLease r) \<noteq> owner \<or> Recalled (rLease r)) then Inl ErrLeaseHeld
      else
        let r = r\<lparr>rLease := \<lparr>lOwner = owner, lEpoch = wrap64 (lEpoch (rLease r) + 1),
                             lExpiresAt = At (now + ttl), lRecall = None\<rparr>\<rparr>
        in Inr (if rState r = StatePending \<or> rState r = StateRunning then r\<lparr>rState := StateRunning\<rparr> else r))"

definition ErrNoOwner :: err where
  "ErrNoOwner = ErrPlain ''job: claim requires an owner''"

definition fs_ClaimFrom ::
    "host \<Rightarrow> Record option \<Rightarrow> string \<Rightarrow> duration \<Rightarrow> time \<Rightarrow> jobs_dir \<Rightarrow> jobs_dir \<times> Record res" where
  "fs_ClaimFrom h seen owner ttl now s =
     (if blank owner then (s, Inl ErrNoOwner)
      else case seen of
        None \<Rightarrow> (s, Inl ErrInvalid)
      | Some seen \<Rightarrow> fs_change h (rID seen) (fs_claim_edit (lEpoch (rLease seen)) owner ttl now) s)"

text \<open>\<open>gap\<close> is what other processes do between the reading and the change.\<close>

definition fs_Claim ::
    "host \<Rightarrow> (jobs_dir \<Rightarrow> jobs_dir) \<Rightarrow> string \<Rightarrow> string \<Rightarrow> duration \<Rightarrow> time \<Rightarrow> jobs_dir \<Rightarrow> jobs_dir \<times> Record res" where
  "fs_Claim h gap i owner ttl now s =
     (case fs_Load h i s of
        Inl e \<Rightarrow> (s, Inl e)
      | Inr seen \<Rightarrow> fs_ClaimFrom h (Some seen) owner ttl now (gap s))"

definition fs_renew_edit :: "int \<Rightarrow> duration \<Rightarrow> time \<Rightarrow> time \<Rightarrow> Record \<Rightarrow> Record res" where
  "fs_renew_edit epoch ttl now1 now2 r =
     (if lEpoch (rLease r) \<noteq> epoch then Inl ErrStaleEpoch
      else if \<not> Held (rLease r) now1 then Inl ErrLeaseExpiry
      else Inr (r\<lparr>rLease := (rLease r)\<lparr>lExpiresAt := renewedUntil (rLease r) (now2 + ttl)\<rparr>\<rparr>))"

definition fs_Renew :: "host \<Rightarrow> string \<Rightarrow> int \<Rightarrow> duration \<Rightarrow> time \<Rightarrow> time \<Rightarrow> jobs_dir \<Rightarrow> jobs_dir \<times> Record res" where
  "fs_Renew h i epoch ttl now1 now2 = fs_change h i (fs_renew_edit epoch ttl now1 now2)"

definition fs_Recall ::
    "host \<Rightarrow> string \<Rightarrow> int \<Rightarrow> string \<Rightarrow> string \<Rightarrow> duration \<Rightarrow> time \<Rightarrow> jobs_dir \<Rightarrow> jobs_dir \<times> Record res" where
  "fs_Recall h i epoch reason by' grace now s =
     (if blank reason then (s, Inl ErrInvalid)
      else fs_change h i (\<lambda>r. recall r now epoch reason by' grace) s)"

definition fs_update_edit :: "int \<Rightarrow> (Record \<Rightarrow> Record res) \<Rightarrow> time \<Rightarrow> time \<Rightarrow> Record \<Rightarrow> Record res" where
  "fs_update_edit epoch mutate now1 now2 r =
     (if Terminal (rState r) then Inl ErrTerminal
      else if lEpoch (rLease r) \<noteq> epoch then Inl ErrStaleEpoch
      else if \<not> Held (rLease r) now1 then Inl ErrLeaseExpiry
      else
        rbind (mutate r) (\<lambda>w.
        rbind (unmoved (immutablesOf r) w) (\<lambda>_.
        Inr (w\<lparr>rUpdatedAt := At now2\<rparr>))))"

definition fs_Update ::
    "host \<Rightarrow> string \<Rightarrow> int \<Rightarrow> (Record \<Rightarrow> Record res) \<Rightarrow> time \<Rightarrow> time \<Rightarrow> jobs_dir \<Rightarrow> jobs_dir \<times> Record res" where
  "fs_Update h i epoch mutate now1 now2 = fs_change h i (fs_update_edit epoch mutate now1 now2)"

definition fs_Release :: "host \<Rightarrow> string \<Rightarrow> int \<Rightarrow> time \<Rightarrow> time \<Rightarrow> time \<Rightarrow> jobs_dir \<Rightarrow> jobs_dir \<times> unit res" where
  "fs_Release h i epoch now1 now2 now3 s =
     (let (s', res) = fs_Update h i epoch (release_edit now2) now1 now3 s
      in (s', rbind res (\<lambda>_. Inr ())))"

end
