(* ===== verification/FileFit.thy ===== *)
theory FileFit
  imports FileStore CodecSafety MemoryLease
begin

text \<open>
  What stays fit to be written: the record \<open>Encode\<close> leaves behind and the record \<open>Decode\<close> gives
  back are fit when the one handed in was, and the record read back is the one written but for
  the spelling of its opaque payloads.
\<close>

section \<open>Settling twice\<close>

text \<open>After the separators are escaped there is none left to escape.\<close>

definition lacks :: "string \<Rightarrow> string \<Rightarrow> bool" where
  "lacks old s \<longleftrightarrow> (\<forall>a b. s \<noteq> a @ old @ b)"

lemma lacks_Cons: "lacks old (c # s) \<longleftrightarrow> lacks old s \<and> (\<forall>b. c # s \<noteq> old @ b)"
proof
  assume l: "lacks old (c # s)"
  show "lacks old s \<and> (\<forall>b. c # s \<noteq> old @ b)"
  proof (intro conjI allI)
    show "lacks old s" unfolding lacks_def using l by (metis append_Cons lacks_def)
    show "c # s \<noteq> old @ b" for b using l by (metis append_Nil lacks_def)
  qed
next
  assume r: "lacks old s \<and> (\<forall>b. c # s \<noteq> old @ b)"
  show "lacks old (c # s)"
    unfolding lacks_def
  proof (intro allI)
    fix a b show "c # s \<noteq> a @ old @ b"
      using r by (cases a) (auto simp: lacks_def)
  qed
qed

lemma lacks_drop: "lacks old s \<Longrightarrow> lacks old (drop n s)"
  unfolding lacks_def by (metis append.assoc append_take_drop_id)

lemma lacks_ascii: "wide old \<Longrightarrow> old \<noteq> [] \<Longrightarrow> ascii a \<Longrightarrow> lacks old s \<Longrightarrow> lacks old (a @ s)"
  by (induction a) (auto simp: lacks_Cons ascii_def wide_def Cons_eq_append_conv)

lemma ReplaceAll_lacks: "lacks old s \<Longrightarrow> old \<noteq> [] \<Longrightarrow> ReplaceAll old new s = s"
proof (induction s)
  case (Cons c s)
  have "take (length old) (c # s) \<noteq> old"
  proof
    assume "take (length old) (c # s) = old"
    then have "c # s = old @ drop (length old) (c # s)" by (metis append_take_drop_id)
    with Cons.prems show False by (metis lacks_Cons)
  qed
  with Cons show ?case by (simp add: lacks_Cons)
qed simp

lemma ReplaceAll_wide_prefix:
  assumes "ascii new" "new \<noteq> []"
  shows "ReplaceAll old new s = w @ b \<Longrightarrow> wide w \<Longrightarrow> \<exists>s'. s = w @ s'"
proof (induction w arbitrary: s)
  case (Cons x w)
  then obtain c t where s: "s = c # t" by (cases s) auto
  have x: "\<not> byte x < 128" using Cons.prems(2) by (simp add: wide_def)
  have c: "\<not> (old \<noteq> [] \<and> take (length old) (c # t) = old)"
  proof
    assume "old \<noteq> [] \<and> take (length old) (c # t) = old"
    then have "new @ ReplaceAll old new (drop (length old) (c # t)) = x # w @ b"
      using Cons.prems(1) s by simp
    then have "hd new = x" using assms(2) by (cases new) auto
    with x assms show False by (cases new) (auto simp: ascii_def)
  qed
  then have "c = x" "ReplaceAll old new t = w @ b" using Cons.prems(1) by (auto simp: s split: if_splits)
  with Cons.IH [of t] Cons.prems(2) s show ?case by (auto simp: wide_def)
qed simp

lemma lacks_ReplaceAll:
  assumes "wide other" "other \<noteq> []" "ascii new" "new \<noteq> []" "old = other \<or> lacks other s" "old \<noteq> []"
  shows "lacks other (ReplaceAll old new s)"
  using assms(5)
proof (induction s rule: length_induct)
  case (1 s)
  show ?case
  proof (cases s)
    case Nil
    with assms(2) show ?thesis by (simp add: lacks_def)
  next
    case (Cons c t)
    show ?thesis
    proof (cases "take (length old) (c # t) = old")
      case True
      have "lacks other (ReplaceAll old new (drop (length old) (c # t)))"
        using 1 Cons assms(6) lacks_drop [of other s "length old"] by (cases old) auto
      from lacks_ascii [OF assms(1-3) this] True Cons assms(6) show ?thesis by simp
    next
      case False
      have t: "lacks other (ReplaceAll old new t)"
        using 1 Cons by (auto simp: lacks_Cons)
      have "c # ReplaceAll old new t \<noteq> other @ b" for b
      proof
        assume e: "c # ReplaceAll old new t = other @ b"
        then obtain w where w: "other = c # w" "ReplaceAll old new t = w @ b"
          using assms(2) by (cases other) auto
        have "wide w" using assms(1) w(1) by (simp add: wide_def)
        with ReplaceAll_wide_prefix [OF assms(3,4) w(2)] obtain t' where "t = w @ t'" by blast
        with w(1) Cons have s: "s = other @ t'" by simp
        with False Cons have "old \<noteq> other" by (metis append_eq_conv_conj)
        with 1(2) s show False by (auto simp: lacks_def dest: spec [of _ "[]"])
      qed
      with t False Cons show ?thesis by (simp add: lacks_Cons)
    qed
  qed
qed

lemma u_escape_ascii: "ascii (u_escape n)" "u_escape n \<noteq> []"
  by (rule ascii_u_escape) (rule u_escape_head(2))

lemma escape_separators_idem: "escape_separators (escape_separators l) = escape_separators l"
proof -
  note w = wide_separators and n = separators_nonempty and u = u_escape_ascii
  have 1: "lacks line_separator (ReplaceAll line_separator (u_escape 0x2028) l)"
    by (rule lacks_ReplaceAll [OF w(1) n(1) u]) (use n in simp_all)
  have 2: "lacks line_separator (escape_separators l)"
    unfolding escape_separators_def by (rule lacks_ReplaceAll [OF w(1) n(1) u]) (use 1 n in simp_all)
  have 3: "lacks paragraph_separator (escape_separators l)"
    unfolding escape_separators_def by (rule lacks_ReplaceAll [OF w(2) n(2) u]) (use n in simp_all)
  show ?thesis
    unfolding escape_separators_def [of "escape_separators l"]
    by (simp add: ReplaceAll_lacks [OF 2 n(1)] ReplaceAll_lacks [OF 3 n(2)])
qed

lemma settled_idem: "settled (settled v) = settled v"
  by (simp add: settled_def map_lexemes_comp escape_separators_idem)

section \<open>The depth of a rewritten checkpoint\<close>

lemma foldr_max_member: "x \<in> set xs \<Longrightarrow> x \<le> foldr max xs (0 :: nat)"
  by (induction xs) auto

lemma put_members_depth:
  assumes "parse_json raw = Some (JObj ms)"
  shows "\<forall>v \<in> snd ` set (put_members ms). Suc (depth v) \<le> depth (JObj ms)"
proof -
  have "\<forall>v \<in> snd ` set ms. Suc (depth v) \<le> depth (JObj ms)"
    using foldr_max_member [of _ "map (\<lambda>(k, v). depth v) ms"] by (force simp: image_iff)
  from put_all_props [of "[]" "\<lambda>v. Suc (depth v) \<le> depth (JObj ms)", OF _ _ _ this] show ?thesis
    by (simp add: gomap_wf_def put_members_def put_all_def)
qed

lemma others_of_depth:
  assumes "others_of raw = Inr m" "shallow d raw" "v \<in> snd ` set (foreign m)"
  shows "Suc (depth v) \<le> d"
proof -
  from assms(3) have v: "v \<in> snd ` set m" by (auto simp: foreign_def gomap_delete_def)
  with assms(1) obtain ms where ms: "parse_json raw = Some (JObj ms)" "m = put_members ms"
    by (auto simp: others_of_def unmarshal_map_def split: if_splits option.splits json.splits)
  with put_members_depth [OF ms(1)] v assms(2) show ?thesis
    by (force simp: shallow_def simp del: depth.simps)
qed

lemma shallow_CheckpointWithRanges:
  assumes "CheckpointWithRanges raw rs = Inr out" "shallow d raw" "3 \<le> d"
  shows "shallow d out"
proof -
  obtain canon m where m: "others_of raw = Inr m" "out = print_json (JObj (checkpoint_members canon (foreign m)))"
    using assms(1) by (auto simp: CheckpointWithRanges_tree res_simps simp del: print_json.simps)
  have good: "good_map (foreign m)" using others_of_good [OF m(1)] by (rule good_map_foreign)
  have d2: "depth (JArr (map range_json canon)) \<le> 2"
    using foldr_max_le [of "map depth (map range_json canon)" 1] by (auto simp: range_json_def)
  have "Suc (depth (the (map_of (foreign m) k))) \<le> d" if "k \<in> fst ` set (foreign m)" for k
  proof -
    obtain v where "map_of (foreign m) k = Some v" using \<open>k \<in> _\<close> map_of_eq_None_iff [of "foreign m" k] by fastforce
    then show ?thesis using others_of_depth [OF m(1) assms(2), of v] by (force dest: map_of_SomeD)
  qed
  then have "foldr max (map (\<lambda>(k, v). depth v) (checkpoint_members canon (foreign m))) 0 \<le> d - 1"
    unfolding foldr_max_le using d2 assms(3)
    by (fastforce simp: checkpoint_members_eq map_members_def simp del: depth.simps(1))
  then have "depth (JObj (checkpoint_members canon (foreign m))) \<le> d" using assms(3) by simp
  then show ?thesis
    using parse_checkpoint [OF good, of canon] m(2) by (simp add: shallow_def del: depth.simps print_json.simps)
qed

section \<open>The record Encode leaves behind\<close>

lemma ValidString_known: "n \<in> set known \<Longrightarrow> ValidString n"
  by (auto simp: known_def feature_defs byte_def)

lemma ValidString_FeatureRanges: "ValidString FeatureRanges"
  by (simp add: feature_defs byte_def)

lemma fit_describe: "fit_record r \<Longrightarrow> fit_record (describe r)"
proof -
  assume r: "fit_record r"
  have ext: "ValidString k" if "k \<in> fst ` set (rExtensions r)" for k
    using r that by (auto simp: fit_record_def list_all_iff)
  have c: "ValidString n" if "n \<in> set (rContent (describe r))" for n
    using that derived_known [of r] ext by (auto simp: describe_eq ValidString_known ValidString_FeatureRanges split: if_splits)
  have "ValidString n" if "n \<in> set (rCritical (describe r))" for n
    using that derived_known [of r] ext r
    by (auto simp: describe_eq set_keep_critical fit_record_def list_all_iff ValidString_known ValidString_FeatureRanges derived_critical_def
        split: if_splits)
  with c r show ?thesis by (simp add: fit_record_def describe_keeps list_all_iff)
qed

lemma fit_canonicalise:
  assumes "canonicalise r = Inr c" "fit_record r"
  shows "fit_record c"
proof -
  obtain cp d where cp: "canonicalCheckpoint (rCheckpoint r) = Inr (cp, d)"
    and c: "c = describe (if d then r\<lparr>rCheckpoint := cp, rContent := declare_ranges (rContent r)\<rparr> else r\<lparr>rCheckpoint := cp\<rparr>)"
    using assms(1) by (auto simp: canonicalise_def res_simps Let_def split: if_splits)
  have "shallow 63 cp"
  proof (cases d)
    case True
    then obtain rs where "CheckpointWithRanges (rCheckpoint r) rs = Inr cp"
      using cp by (auto simp: canonicalCheckpoint_def res_simps split: sum.splits if_splits)
    from shallow_CheckpointWithRanges [OF this] assms(2) show ?thesis by (simp add: fit_record_def)
  next
    case False
    then have "cp = rCheckpoint r"
      using cp by (auto simp: canonicalCheckpoint_def res_simps split: sum.splits if_splits)
    with assms(2) show ?thesis by (simp add: fit_record_def)
  qed
  moreover have "list_all ValidString (declare_ranges (rContent r))"
    using assms(2) ValidString_FeatureRanges by (auto simp: declare_ranges_def fit_record_def)
  ultimately show ?thesis
    unfolding c using assms(2) by (intro fit_describe) (simp add: fit_record_def)
qed

section \<open>The record Decode gives back\<close>

lemma shallow_respell:
  assumes "good_value raw" "depth (payload raw) \<le> d" "d \<le> 63"
  shows "shallow d (respell n raw)"
  using respell_good(1) [OF assms(1), of n] assms(2,3) by (simp add: shallow_def)

lemma fit_respelled:
  assumes "fit_record c" "well_formed c"
  shows "fit_record (respelled c)"
proof -
  note good = good_values [OF assms(2)] and fit = fit_depths [OF assms]
  have "shallow 63 (respell 1 (rSpec c))" using shallow_respell [OF good(1) fit(1)] by simp
  moreover have "rCheckpoint c \<noteq> [] \<Longrightarrow> shallow 63 (respell 1 (rCheckpoint c))"
    using shallow_respell [OF good(2) fit(2)] by simp
  moreover have "shallow 62 (respell 2 (the (map_of (rExtensions c) k))) \<and> ValidString k"
    if "k \<in> set (gomap_keys (rExtensions c))" for k
    using shallow_respell [OF good(3) [OF that] fit(3) [OF that]] fit(4) [OF that] by simp
  moreover have "distinct (gomap_keys (rExtensions c))"
    using assms(1) by (simp add: fit_record_def distinct_gomap_keys)
  moreover have "shallow 63 []" by (simp add: shallow_def parse_json_def)
  ultimately show ?thesis
    using assms(1)
    by (auto simp: fit_record_def respelled_def list_all_iff gomap_wf_def comp_def simp del: set_gomap_keys)
qed

text \<open>What comes back of a record: every field but the declaration and the opaque payloads, and the
  spec and every extension as the same JSON tree with only its raw line separators escaped.\<close>

definition same_tree :: "string \<Rightarrow> string \<Rightarrow> bool" where
  "same_tree a b \<longleftrightarrow> map_option settled (parse_json a) = map_option settled (parse_json b)"

definition comes_back :: "Record \<Rightarrow> Record \<Rightarrow> bool" where
  "comes_back w q \<longleftrightarrow>
     q = w\<lparr>rContent := rContent q, rCritical := rCritical q, rSpec := rSpec q, rCheckpoint := rCheckpoint q,
           rExtensions := rExtensions q\<rparr>
   \<and> same_tree (rSpec w) (rSpec q)
   \<and> (\<forall>k. rel_option same_tree (map_of (rExtensions w) k) (map_of (rExtensions q) k))"

lemma comes_back_fields:
  assumes "comes_back w q"
  shows "rID q = rID w" "rKind q = rKind w" "rCreatedAt q = rCreatedAt w" "rEnvelope q = rEnvelope w"
    "rLease q = rLease w" "outcome_of q = outcome_of w"
proof -
  obtain content critical spec cp ext where "q = w\<lparr>rContent := content, rCritical := critical, rSpec := spec,
      rCheckpoint := cp, rExtensions := ext\<rparr>"
    using assms unfolding comes_back_def by blast
  then show "rID q = rID w" "rKind q = rKind w" "rCreatedAt q = rCreatedAt w" "rEnvelope q = rEnvelope w"
    "rLease q = rLease w" "outcome_of q = outcome_of w"
    by (simp_all add: outcome_of_def)
qed

lemma same_tree_refl [simp]: "same_tree a a"
  by (simp add: same_tree_def)

lemma same_tree_trans: "same_tree a b \<Longrightarrow> same_tree b c \<Longrightarrow> same_tree a c"
  by (simp add: same_tree_def)

lemma settled_twice [simp]: "map_option settled (map_option settled x) = map_option settled x"
  by (cases x) (simp_all add: settled_idem)

lemma same_tree_settled: "parse_json b = map_option settled (parse_json a) \<Longrightarrow> same_tree a b"
  by (simp add: same_tree_def)

lemma canonicalise_fields:
  assumes "canonicalise r = Inr c"
  shows "c = r\<lparr>rContent := rContent c, rCritical := rCritical c, rCheckpoint := rCheckpoint c\<rparr>"
  using assms by (auto simp: canonicalise_def res_simps Let_def describe_eq split: if_splits)

lemma written_comes_back:
  assumes "Encode r = Inr (c, b)" "fit_record r"
  shows "Decode b = Inr (respelled c)" "comes_back r (respelled c)" "fit_record (respelled c)" "fit_record c"
proof -
  have e: "canonicalise r = Inr c" "Validate c = Inr ()" "marshalRecord c = Inr b"
    using assms(1) by (simp_all add: Encode_parts)
  have fit: "fit_record c" using fit_canonicalise [OF e(1) assms(2)] .
  have wf: "well_formed c" using Validate_well_formed [OF e(2)] .
  show "Decode b = Inr (respelled c)" using Decode_marshalled [OF fit e(2,3)] .
  show "fit_record (respelled c)" using fit_respelled [OF fit wf] .
  show "fit_record c" by (rule fit)
  have s: "same_document c (respelled c)" using respelled_same_document [OF fit wf] .
  obtain content critical cp where f: "c = r\<lparr>rContent := content, rCritical := critical, rCheckpoint := cp\<rparr>"
    using canonicalise_fields [OF e(1)] by blast
  have same: "rSpec c = rSpec r" "rExtensions c = rExtensions r" by (simp_all add: f)
  have trees: "\<And>k x y. map_of (rExtensions c) k = Some x \<Longrightarrow> map_of (rExtensions (respelled c)) k = Some y \<Longrightarrow>
      parse_json y = map_option settled (parse_json x)"
    using s unfolding same_document_def by blast
  have "rel_option same_tree (map_of (rExtensions c) k) (map_of (rExtensions (respelled c)) k)" for k
  proof -
    have "dom (map_of (rExtensions (respelled c))) = dom (map_of (rExtensions c))"
      using s by (simp add: same_document_def)
    then have "(map_of (rExtensions (respelled c)) k = None) = (map_of (rExtensions c) k = None)"
      by (metis domIff)
    then consider "map_of (rExtensions c) k = None" "map_of (rExtensions (respelled c)) k = None"
      | x y where "map_of (rExtensions c) k = Some x" "map_of (rExtensions (respelled c)) k = Some y" by fastforce
    then show ?thesis
    proof cases
      case (2 x y)
      from same_tree_settled [OF trees [OF 2]] show ?thesis unfolding 2 by simp
    qed simp
  qed
  moreover have "same_tree (rSpec c) (rSpec (respelled c))"
    using s unfolding same_document_def by (intro same_tree_settled) blast
  moreover have "respelled c = r\<lparr>rContent := rContent (respelled c), rCritical := rCritical (respelled c), rSpec := rSpec (respelled c),
      rCheckpoint := rCheckpoint (respelled c), rExtensions := rExtensions (respelled c)\<rparr>"
    using f by (cases r; cases c) (simp add: respelled_def)
  ultimately show "comes_back r (respelled c)"
    unfolding comes_back_def same by blast
qed

end
