(* ===== verification/FileLease.thy ===== *)
theory FileLease
  imports FileFit
begin

text \<open>
  The file binding meets the contract of theory StoreSpec for any host that keeps its laws: its
  invariant, the interpretation of the locale, and the properties of the lease protocol for this
  binding.
\<close>

section \<open>What is stored\<close>

definition file_look :: "jobs_dir \<Rightarrow> string \<Rightarrow> Record option" where
  "file_look s i =
     (case content_of s (recordName i) of
        None \<Rightarrow> None
      | Some b \<Rightarrow> (case Decode b of Inl _ \<Rightarrow> None | Inr r \<Rightarrow> Some r))"

text \<open>Every record that can be read carries the id of its file and can be written again.  Files that
  cannot be read may be there too.\<close>

definition file_ok :: "jobs_dir \<Rightarrow> bool" where
  "file_ok s \<longleftrightarrow> gomap_wf s \<and> (\<forall>i r. file_look s i = Some r \<longrightarrow> rID r = i \<and> fit_record r)"

lemma recordName_inject [simp]: "recordName i = recordName j \<longleftrightarrow> i = j"
  by (simp add: recordName_def)

lemma content_of_put: "content_of (gomap_put n (File b) s) = (content_of s)(n \<mapsto> b)"
  by (auto simp: content_of_def map_of_gomap_put fun_eq_iff)

lemma file_look_put:
  "Decode b = Inr q \<Longrightarrow> file_look (gomap_put (recordName i) (File b) s) = (file_look s)(i \<mapsto> q)"
  by (auto simp: file_look_def content_of_put fun_eq_iff)

lemma file_ok_put:
  assumes "file_ok s" "Decode b = Inr q" "rID q = i" "fit_record q"
  shows "file_ok (gomap_put (recordName i) (File b) s)"
  using assms by (auto simp: file_ok_def gomap_wf_put file_look_put)

section \<open>The host\<close>

lemma host_change_law:
  assumes "host_laws h"
  shows "(\<exists>e. hChange h s n f = (s, Inl e) \<and> os_error e)
    \<or> hChange h s n f = (case f (content_of s n) of
        Inl e \<Rightarrow> (s, Inl e) | Inr (b, r) \<Rightarrow> (gomap_put n (File b) s, Inr r))"
  using assms unfolding host_laws_def by blast

lemma host_read_law:
  assumes "host_laws h"
  shows "(\<exists>e. hRead h s n = Inl e \<and> os_error e)
    \<or> hRead h s n = (case content_of s n of None \<Rightarrow> Inl ErrNotExist | Some b \<Rightarrow> Inr b)"
proof -
  from assms have l: "case map_of s n of
        None \<Rightarrow> hRead h s n = Inl ErrNotExist \<or> (\<exists>e. hRead h s n = Inl e \<and> os_error e)
      | Some (File b) \<Rightarrow> hRead h s n = Inr b \<or> (\<exists>e. hRead h s n = Inl e \<and> os_error e)
      | Some Dir \<Rightarrow> \<exists>e. hRead h s n = Inl e \<and> os_error e"
    unfolding host_laws_def by blast
  show ?thesis
  proof (cases "map_of s n")
    case (Some x)
    with l show ?thesis by (cases x) (auto simp: content_of_def)
  qed (use l in \<open>auto simp: content_of_def\<close>)
qed

lemma host_scan_law: "host_laws h \<Longrightarrow> hScan h s = Inr () \<or> (\<exists>e. hScan h s = Inl e \<and> os_error e)"
  unfolding host_laws_def by blast

lemma host_write_law:
  assumes "host_laws h"
  shows "(\<exists>e. hWrite h s n want b = (s, Inl e) \<and> os_error e)
    \<or> map_of s n \<noteq> Some Dir \<and> hWrite h s n want b =
         (if content_of s n = want then (gomap_put n (File b) s, Inr ()) else (s, Inl ErrMoved))"
  using assms unfolding host_laws_def by blast

lemma host_change:
  assumes "host_laws h" "hChange h s n f = (s', res)"
  obtains e where "res = Inl e" "os_error e" "s' = s"
  | e where "res = Inl e" "f (content_of s n) = Inl e" "s' = s"
  | b r where "res = Inr r" "f (content_of s n) = Inr (b, r)" "s' = gomap_put n (File b) s"
proof -
  consider e where "hChange h s n f = (s, Inl e)" "os_error e"
    | "hChange h s n f = (case f (content_of s n) of
        Inl e \<Rightarrow> (s, Inl e) | Inr (b, r) \<Rightarrow> (gomap_put n (File b) s, Inr r))"
    using host_change_law [OF assms(1), of s n f] by blast
  then show thesis
  proof cases
    case (1 e)
    with assms(2) show thesis by (intro that(1)) simp_all
  next
    case 2
    show thesis
    proof (cases "f (content_of s n)")
      case (Inl e)
      with 2 assms(2) show thesis by (intro that(2)) simp_all
    next
      case (Inr a)
      obtain b r where "a = (b, r)" by (rule prod.exhaust)
      with Inr 2 assms(2) show thesis by (intro that(3)) simp_all
    qed
  qed
qed

lemma os_error_not [simp]:
  "\<not> os_error ErrNotExist" "\<not> os_error ErrMoved" "\<not> os_error ErrNotFound" "\<not> os_error ErrLeaseHeld"
  "\<not> os_error ErrStaleEpoch" "\<not> os_error ErrLeaseExpiry" "\<not> os_error ErrTerminal" "\<not> os_error ErrInvalid"
  by (simp_all add: os_error_def ErrNotExist_def ErrMoved_def)

text \<open>One change, seen from the record.\<close>

lemma fs_closure_Inr:
  "fs_closure edit cur = Inr (b, c) \<longleftrightarrow>
     (\<exists>d r w. cur = Some d \<and> Decode d = Inr r \<and> edit r = Inr w \<and> Encode w = Inr (c, b))"
  by (cases cur) (auto simp: fs_closure_def res_simps)

lemma look_bytes: "content_of s (recordName i) = Some d \<Longrightarrow> Decode d = Inr r \<Longrightarrow> file_look s i = Some r"
  by (simp add: file_look_def)

lemma look_closure:
  "file_look s i = Some r \<Longrightarrow> edit r = Inl x \<Longrightarrow> fs_closure edit (content_of s (recordName i)) = Inl x"
  by (auto simp: file_look_def fs_closure_def split: option.splits sum.splits)

definition good_at :: "event \<Rightarrow> (Record \<Rightarrow> Record res) \<Rightarrow> Record \<Rightarrow> bool" where
  "good_at e edit r \<longleftrightarrow>
     (\<forall>x. refusal e (Some r) = Some x \<longrightarrow> edit r = Inl x)
   \<and> (\<forall>w. edit r = Inr w \<longrightarrow> lease_step e r w \<and> fit_record w)"

lemma good_at_run:
  assumes "host_laws h" "\<And>r. file_look s (target e) = Some r \<Longrightarrow> good_at e edit r" "file_ok s" "fs_change h (target e) edit s = (s', res)"
  shows "file_ok s'
    \<and> (\<forall>x. res = Inl x \<longrightarrow> s' = s)
    \<and> (\<forall>p. res = Inr p \<longrightarrow> (\<exists>r w q. file_look s (target e) = Some r \<and> lease_step e r w \<and> comes_back w q
         \<and> rLease p = rLease q \<and> file_look s' = (file_look s)(target e \<mapsto> q)))
    \<and> (\<forall>r x. file_look s (target e) = Some r \<longrightarrow> refusal e (Some r) = Some x \<longrightarrow>
         (\<exists>y. res = Inl y \<and> (y = x \<or> os_error y)))"
  using host_change [OF assms(1) assms(4) [unfolded fs_change_def]]
proof cases
  case (2 y)
  have "y = x" if "file_look s (target e) = Some r" "refusal e (Some r) = Some x" for r x
  proof -
    have "edit r = Inl x" using assms(2) that by (auto simp: good_at_def)
    then have "fs_closure edit (content_of s (recordName (target e))) = Inl x"
      using that(1) by (intro look_closure)
    with 2(2) show ?thesis by simp
  qed
  with 2 assms(3) show ?thesis by simp
next
  case (3 b c)
  then obtain d r w where d: "content_of s (recordName (target e)) = Some d" "Decode d = Inr r" "edit r = Inr w" "Encode w = Inr (c, b)"
    by (auto simp: fs_closure_Inr)
  have r: "file_look s (target e) = Some r" using look_bytes [OF d(1,2)] .
  with assms(3) have id: "rID r = target e" "fit_record r" by (auto simp: file_ok_def)
  from assms(2) [OF r] d(3) have w: "lease_step e r w" "fit_record w" by (auto simp: good_at_def)
  note wr = written_comes_back [OF d(4) w(2)]
  let ?q = "respelled c"
  have q: "rID ?q = rID w" "rLease ?q = rLease w"
    using comes_back_fields [OF wr(2)] by simp_all
  have "rID ?q = target e" using step_same_work [OF w(1)] id q by (simp add: same_work_def)
  then have ok: "file_ok s'" using file_ok_put [OF assms(3) wr(1) _ wr(3)] 3(3) by simp
  have p: "rLease c = rLease ?q" by (simp add: respelled_def)
  have l: "file_look s' = (file_look s)(target e \<mapsto> ?q)" using file_look_put [OF wr(1)] 3(3) by simp
  have "refusal e (Some r) = None" using step_not_refused [OF w(1)] .
  with 3 ok r w(1) wr(2) p l show ?thesis by auto
qed (use assms(3) in auto)


section \<open>Each operation makes its step\<close>

text \<open>The events this binding can be given: what a caller must supply anywhere, and words and instants
  the format can hold.  \<open>late\<close> is the reading of the clock after \<open>now\<close> where an operation takes a
  second one.\<close>

definition fits :: "(time \<Rightarrow> time) \<Rightarrow> event \<Rightarrow> bool" where
  "fits late e \<longleftrightarrow> proper e \<and> (case e of
     EClaim i owner ttl now \<Rightarrow> ValidString owner \<and> timely (At (now + ttl))
   | ERenew i epoch ttl now1 now2 \<Rightarrow> timely (At (now2 + ttl))
   | ERecall i epoch reason by' grace now \<Rightarrow>
       ValidString reason \<and> ValidString by' \<and> timely (At now) \<and> timely (At (now + grace))
   | ERelease i epoch now1 now2 now3 \<Rightarrow> timely (At now2) \<and> timely (At now3)
   | EUpdate i epoch mutate now1 now2 \<Rightarrow>
       timely (At now2) \<and> (\<forall>r w. fit_record r \<longrightarrow> mutate r = Inr w \<longrightarrow> fit_record w)
   | ESetIntent i want by' now \<Rightarrow> ValidString by' \<and> timely (At now) \<and> timely (At (late now)))"

definition file_run :: "host \<Rightarrow> (time \<Rightarrow> time) \<Rightarrow> event \<Rightarrow> jobs_dir \<Rightarrow> jobs_dir \<times> Record res" where
  "file_run h late e = (case e of
     EClaim i owner ttl now \<Rightarrow> fs_Claim h (\<lambda>s. s) i owner ttl now
   | ERenew i epoch ttl now1 now2 \<Rightarrow> fs_Renew h i epoch ttl now1 now2
   | ERecall i epoch reason by' grace now \<Rightarrow> fs_Recall h i epoch reason by' grace now
   | ERelease i epoch now1 now2 now3 \<Rightarrow> fs_Update h i epoch (release_edit now2) now1 now3
   | EUpdate i epoch mutate now1 now2 \<Rightarrow> fs_Update h i epoch mutate now1 now2
   | ESetIntent i want by' now \<Rightarrow> fs_SetIntent h i want by' now (late now))"

lemma fs_Release_run:
  "fst (fs_Release h i epoch now1 now2 now3 s) = fst (file_run h late (ERelease i epoch now1 now2 now3) s)"
  by (simp add: fs_Release_def file_run_def case_prod_beta Let_def)

lemma fit_lease_parts:
  "fit_lease (l\<lparr>lExpiresAt := t\<rparr>) \<longleftrightarrow> ValidString (lOwner l) \<and> int64 (lEpoch l) \<and> timely t \<and> pred_option fit_recall (lRecall l)"
  by (simp add: fit_lease_def)

lemma claim_good_at:
  assumes "fits late (EClaim i owner ttl now)"
    and "fit_record r"
  shows "good_at (EClaim i owner ttl now) (fs_claim_edit (lEpoch (rLease r)) owner ttl now) r"
proof -
  have "ValidString owner" "timely (At (now + ttl))" using assms(1) by (simp_all add: fits_def)
  with assms(2) show ?thesis
    by (auto simp: good_at_def fs_claim_edit_def taken_def lease_step_claim claimed_lease_def claimed_state_def body_def
        fit_record_def fit_lease_def int64_wrap64 split: if_splits)
qed

lemma renew_good_at:
  assumes "fits late (ERenew i epoch ttl now1 now2)"
    and "fit_record r"
  shows "good_at (ERenew i epoch ttl now1 now2) (fs_renew_edit epoch ttl now1 now2) r"
proof -
  have "timely (At (now2 + ttl))" using assms(1) by (simp add: fits_def)
  then have "timely (renewedUntil l (now2 + ttl))" if "fit_lease l" for l
    using that by (auto simp: renewedUntil_def fit_lease_def fit_recall_def split: option.split)
  with assms(2) show ?thesis
    by (auto simp: good_at_def fs_renew_edit_def lease_step_renew body_def fit_record_def fit_lease_parts split: if_splits)
      (auto simp: fit_lease_def)
qed

lemma recall_good_at:
  assumes "fits late (ERecall i epoch reason by' grace now)" "\<not> blank reason" "fit_record r"
  shows "good_at (ERecall i epoch reason by' grace now) (\<lambda>r. recall r now epoch reason by' grace) r"
  unfolding good_at_def
proof (intro conjI allI impI)
  have e: "ValidString reason" "ValidString by'" "timely (At now)" "timely (At (now + grace))"
    using assms(1) by (simp_all add: fits_def)
  fix w assume w: "recall r now epoch reason by' grace = Inr w"
  show "fit_record w"
    using w assms(3) e by (auto simp: recall_def Let_def fit_record_def fit_lease_def fit_recall_def split: if_splits)
  have "body w = body r \<and> rCheckpoint w = rCheckpoint r"
    using w by (auto simp: recall_def Let_def body_def split: if_splits)
  with w assms(2) show "lease_step (ERecall i epoch reason by' grace now) r w"
    by (auto simp: lease_step_recall)
next
  fix x assume "refusal (ERecall i epoch reason by' grace now) (Some r) = Some x"
  with assms(2) show "recall r now epoch reason by' grace = Inl x"
    by (auto simp: write_refusal_def recall_def split: if_splits)
qed

lemma update_good_at:
  assumes "timely (At now2)" "\<forall>r w. fit_record r \<longrightarrow> mutate r = Inr w \<longrightarrow> fit_record w"
    and "\<And>r. refusal e (Some r) = write_refusal epoch now1 r"
    and "\<And>r w q. write_refusal epoch now1 r = None \<Longrightarrow> mutate r = Inr w \<Longrightarrow> same_work r w \<Longrightarrow>
        rLease q = rLease w \<Longrightarrow> body q = body w \<Longrightarrow> lease_step e r q"
    and "fit_record r"
  shows "good_at e (fs_update_edit epoch mutate now1 now2) r"
  unfolding good_at_def
proof (intro conjI allI impI)
  fix q
  assume e: "fs_update_edit epoch mutate now1 now2 r = Inr q"
  then obtain w where w: "write_refusal epoch now1 r = None" "mutate r = Inr w" "same_work r w" "q = w\<lparr>rUpdatedAt := At now2\<rparr>"
    by (auto simp: fs_update_edit_def write_refusal_def unmoved_iff rbind_Inr_iff split: if_splits)
  show "lease_step e r q" using w by (intro assms(4)) (simp_all add: body_def)
  have "fit_record w" using assms(2,5) w(2) by blast
  then show "fit_record q" using assms(1) by (simp add: w(4) fit_record_def)
next
  fix x assume "refusal e (Some r) = Some x"
  then show "fs_update_edit epoch mutate now1 now2 r = Inl x"
    unfolding assms(3) by (auto simp: fs_update_edit_def write_refusal_def split: if_splits)
qed

lemma intent_good_at:
  assumes "fits late (ESetIntent i want by' now)" "ValidWant want" "fit_record r"
  shows "good_at (ESetIntent i want by' now) (fs_intent_edit want by' now (late now)) r"
proof -
  have "ValidString by'" "timely (At now)" "timely (At (late now))" using assms(1) by (simp_all add: fits_def)
  with assms(2,3) show ?thesis
    by (auto simp: good_at_def fs_intent_edit_def lease_step_intent body_def fit_record_def fit_intent_def split: if_splits)
qed

lemma release_fit: "timely (At now) \<Longrightarrow> fit_record r \<Longrightarrow> release_edit now r = Inr w \<Longrightarrow> fit_record w"
  by (auto simp: release_edit_def Let_def fit_record_def fit_lease_def)

section \<open>The interpretation\<close>

lemma file_ok_stored: "file_ok s \<Longrightarrow> file_look s i = Some r \<Longrightarrow> rID r = i \<and> fit_record r"
  by (simp add: file_ok_def)

text \<open>What every event does to the directory and answers.\<close>

definition run_shape :: "event \<Rightarrow> jobs_dir \<Rightarrow> jobs_dir \<Rightarrow> Record res \<Rightarrow> bool" where
  "run_shape e s s' res \<longleftrightarrow> file_ok s'
    \<and> (\<forall>x. res = Inl x \<longrightarrow> s' = s)
    \<and> (\<forall>p. res = Inr p \<longrightarrow> (\<exists>r w q. file_look s (target e) = Some r \<and> lease_step e r w \<and> comes_back w q
         \<and> rLease p = rLease q \<and> file_look s' = (file_look s)(target e \<mapsto> q)))
    \<and> (\<forall>r x. file_look s (target e) = Some r \<longrightarrow> refusal e (Some r) = Some x \<longrightarrow>
         (\<exists>y. res = Inl y \<and> (y = x \<or> os_error y)))"

lemma run_shape_change:
  assumes "host_laws h" "file_ok s" "fs_change h (target e) edit s = (s', res)"
    and "\<And>r. fit_record r \<Longrightarrow> rID r = target e \<Longrightarrow> file_look s (target e) = Some r \<Longrightarrow> good_at e edit r"
  shows "run_shape e s s' res"
  unfolding run_shape_def
  by (rule good_at_run [OF assms(1) _ assms(2,3)]) (use assms(4) file_ok_stored [OF assms(2)] in blast)

lemma run_shape_refused:
  "file_ok s \<Longrightarrow> (\<And>r x. file_look s (target e) = Some r \<Longrightarrow> refusal e (Some r) = Some x \<Longrightarrow> y = x \<or> os_error y) \<Longrightarrow>
     run_shape e s s (Inl y)"
  by (simp add: run_shape_def)

lemma fs_Load_look:
  assumes "host_laws h"
  shows "fs_Load h i s = (case file_look s i of Some r \<Rightarrow> Inr r | None \<Rightarrow> fs_Load h i s)
    \<or> (\<exists>e. fs_Load h i s = Inl e \<and> os_error e)"
  using host_read_law [OF assms, of s "recordName i"]
  by (auto simp: fs_Load_def file_look_def split: option.splits sum.splits)

lemma fs_Load_Inr: "host_laws h \<Longrightarrow> fs_Load h i s = Inr r \<Longrightarrow> file_look s i = Some r"
  using host_read_law [of h s "recordName i"]
  by (auto simp: fs_Load_def file_look_def split: option.splits sum.splits if_splits)

lemma claim_shape:
  assumes "host_laws h" "file_ok s" "fits late (EClaim i owner ttl now)" "fs_Claim h (\<lambda>s. s) i owner ttl now s = (s', res)"
  shows "run_shape (EClaim i owner ttl now) s s' res"
proof (cases "fs_Load h i s")
  case (Inl e)
  then have "s' = s" "res = Inl e" using assms(4) by (simp_all add: fs_Claim_def)
  moreover have "os_error e" if "file_look s i = Some r" for r
    using fs_Load_look [OF assms(1), of i s] Inl that by auto
  ultimately show ?thesis using assms(2) by (auto intro: run_shape_refused)
next
  case (Inr seen)
  then have l: "file_look s i = Some seen" using fs_Load_Inr [OF assms(1)] by blast
  with assms(2) have id: "rID seen = i" by (simp add: file_ok_def)
  have "\<not> blank owner" using assms(3) by (simp add: fits_def proper_def)
  then have "fs_change h (target (EClaim i owner ttl now)) (fs_claim_edit (lEpoch (rLease seen)) owner ttl now) s = (s', res)"
    using assms(4) Inr id by (simp add: fs_Claim_def fs_ClaimFrom_def)
  then show ?thesis
    by (rule run_shape_change [OF assms(1,2)]) (use l claim_good_at [OF assms(3)] in simp)
qed

lemma file_run_shape:
  assumes "host_laws h" "file_ok s" "fits late e" "file_run h late e s = (s', res)"
  shows "run_shape e s s' res"
proof (cases e)
  case (EClaim i owner ttl now)
  with assms show ?thesis by (simp add: file_run_def claim_shape)
next
  case (ERenew i epoch ttl now1 now2)
  then have "fs_change h (target e) (fs_renew_edit epoch ttl now1 now2) s = (s', res)"
    using assms(4) by (simp add: file_run_def fs_Renew_def)
  then show ?thesis
    by (rule run_shape_change [OF assms(1,2)]) (use assms(3) ERenew renew_good_at in blast)
next
  case (ERecall i epoch reason by' grace now)
  show ?thesis
  proof (cases "blank reason")
    case True
    with assms ERecall show ?thesis by (auto simp: file_run_def fs_Recall_def intro!: run_shape_refused)
  next
    case False
    with ERecall have "fs_change h (target e) (\<lambda>r. recall r now epoch reason by' grace) s = (s', res)"
      using assms(4) by (simp add: file_run_def fs_Recall_def)
    then show ?thesis
      by (rule run_shape_change [OF assms(1,2)]) (use assms(3) ERecall False recall_good_at in blast)
  qed
next
  case (ERelease i epoch now1 now2 now3)
  then have change: "fs_change h (target e) (fs_update_edit epoch (release_edit now2) now1 now3) s = (s', res)"
    using assms(4) by (simp add: file_run_def fs_Update_def)
  have t: "timely (At now2)" "timely (At now3)" using assms(3) by (simp_all add: ERelease fits_def)
  have "lease_step e r q" if "write_refusal epoch now1 r = None" "release_edit now2 r = Inr w" "same_work r w"
    "rLease q = rLease w" "body q = body w" for r w q
  proof -
    have "\<not> Terminal (rState r)" "lEpoch (rLease r) = epoch" "Held (rLease r) now1"
      using that(1) by (simp_all add: write_refusal_def split: if_splits)
    from lease_step.release [OF this that(2,4,5)] show ?thesis by (simp add: ERelease)
  qed
  moreover have "\<forall>r w. fit_record r \<longrightarrow> release_edit now2 r = Inr w \<longrightarrow> fit_record w"
    using release_fit [OF t(1)] by blast
  moreover have "refusal e (Some r) = write_refusal epoch now1 r" for r by (simp add: ERelease)
  ultimately have "good_at e (fs_update_edit epoch (release_edit now2) now1 now3) r" if "fit_record r" for r
    using that t(2) by (intro update_good_at)
  with change show ?thesis by (intro run_shape_change [OF assms(1,2)])
next
  case (EUpdate i epoch mutate now1 now2)
  then have "fs_change h (target e) (fs_update_edit epoch mutate now1 now2) s = (s', res)"
    using assms(4) by (simp add: file_run_def fs_Update_def)
  moreover have t: "timely (At now2)" "\<forall>r w. fit_record r \<longrightarrow> mutate r = Inr w \<longrightarrow> fit_record w"
    using assms(3) by (simp_all add: EUpdate fits_def)
  have "lease_step e r q" if "write_refusal epoch now1 r = None" "mutate r = Inr w" "same_work r w"
    "rLease q = rLease w" "body q = body w" for r w q
    using that by (auto simp: EUpdate lease_step_update write_refusal_def split: if_splits)
  then have "good_at e (fs_update_edit epoch mutate now1 now2) r" if "fit_record r" for r
    using that t by (intro update_good_at) (auto simp: EUpdate)
  ultimately show ?thesis by (intro run_shape_change [OF assms(1,2)])
next
  case (ESetIntent i want by' now)
  show ?thesis
  proof (cases "ValidWant want")
    case False
    with assms ESetIntent show ?thesis by (auto simp: file_run_def fs_SetIntent_def intro!: run_shape_refused)
  next
    case True
    with ESetIntent have "fs_change h (target e) (fs_intent_edit want by' now (late now)) s = (s', res)"
      using assms(4) by (simp add: file_run_def fs_SetIntent_def)
    then show ?thesis
      by (rule run_shape_change [OF assms(1,2)]) (use assms(3) ESetIntent True intent_good_at in blast)
  qed
qed

text \<open>The same job: what names it and says what it is, its spec and its extensions as JSON trees.\<close>

definition same_job :: "Record \<Rightarrow> Record \<Rightarrow> bool" where
  "same_job r q \<longleftrightarrow> rID q = rID r \<and> rKind q = rKind r \<and> rCreatedAt q = rCreatedAt r \<and> rEnvelope q = rEnvelope r
     \<and> same_tree (rSpec r) (rSpec q)"

lemma same_work_job: "same_work r q \<Longrightarrow> same_job r q"
  by (auto simp: same_work_def same_job_def sameOpaque_iff same_tree_def)

text \<open>A host that keeps its laws makes the file store a binding.\<close>

locale filesystem =
  fixes h :: host
    and late :: "time \<Rightarrow> time"
  assumes laws: "host_laws h"

sublocale filesystem \<subseteq> lease: lease_store file_look "file_run h late" file_ok "fits late" comes_back same_job os_error
proof
  fix s e
  assume ok: "file_ok s" and f: "fits late e"
  show "file_ok (fst (file_run h late e s))"
    using file_run_shape [OF laws ok f prod.collapse [symmetric]] by (simp add: run_shape_def)
  show "file_look s' = file_look s" if "file_run h late e s = (s', Inl x)" for s' x
    using file_run_shape [OF laws ok f that] by (simp add: run_shape_def)
  show "\<exists>r w q. file_look s (target e) = Some r \<and> lease_step e r w \<and> comes_back w q \<and> rLease p = rLease q
      \<and> file_look s' = (file_look s)(target e \<mapsto> q)" if "file_run h late e s = (s', Inr p)" for s' p
    using file_run_shape [OF laws ok f that] by (simp add: run_shape_def)
  show "\<exists>y. snd (file_run h late e s) = Inl y \<and> (y = x \<or> os_error y)"
    if "file_look s (target e) = Some r" "refusal e (Some r) = Some x" for r x
    using file_run_shape [OF laws ok f prod.collapse [symmetric]] that by (simp add: run_shape_def)
next
  fix s i r assume "file_ok s" "file_look s i = Some r"
  then show "int64 (lEpoch (rLease r))" by (simp add: file_ok_def fit_record_def fit_lease_def)
next
  fix w q assume c: "comes_back w q"
  note f = comes_back_fields [OF c]
  show "ended_like w q" using f by (simp add: ended_like_def)
  show "rLease q = rLease w" by (rule f(5))
  show "same_job w q" using f c by (simp add: same_job_def comes_back_def)
next
  show "same_job r p" if "same_job r q" "same_job q p" for r q p
    using that by (auto simp: same_job_def intro: same_tree_trans)
qed (rule same_work_job)

context filesystem
begin

lemmas protocol = lease.fencing lease.claims_distinct lease.stays_ended lease.claim_excluded lease.epoch_mono

end

interpretation disk: filesystem sound_host "\<lambda>now. now"
  by unfold_locales (rule sound_host_laws)

end
