(* ===== verification/FileSafety.thy ===== *)
theory FileSafety
  imports FileLease
begin

text \<open>
  The properties of the file binding: the lease protocol for any host that keeps its laws, what
  \<open>Submit\<close> stores, what a sweep reports, and the order of ids.
\<close>

section \<open>A directory to start from\<close>

text \<open>A job that has been claimed once, as it stands on disk.\<close>

definition claimed_job :: Record where
  "claimed_job = sample_job\<lparr>rState := StateRunning,
     rLease := \<lparr>lOwner = ''w1'', lEpoch = 1, lExpiresAt = 6000, lRecall = None\<rparr>\<rparr>"

lemma claimed_job_canonical: "canonicalise claimed_job = Inr (describe claimed_job)"
  by (simp add: canonicalise_def canonicalCheckpoint_def claimed_job_def sample_job_def sample_simps)

lemma claimed_job_valid: "Validate (describe claimed_job) = Inr ()"
  by (rule well_formed_Validate)
    (simp_all add: well_formed_def good_value_def parse_braces claimed_job_def sample_job_def eval_record ValidWant_def)

lemma timely_small: "0 \<le> t \<Longrightarrow> t < 315537897600000000000 \<Longrightarrow> At t = t \<Longrightarrow> timely t"
  by (simp add: timely_def spellable_def)

lemma claimed_job_fit: "fit_record (describe claimed_job)"
proof -
  have "ValidString ''w1''" by (simp add: byte_def)
  moreover have "timely 6000" by (rule timely_small) (simp_all add: At_def)
  ultimately have "fit_lease (rLease claimed_job)"
    by (simp add: claimed_job_def fit_lease_def int64_def)
  moreover have "fit_record (describe sample_job)" by (rule sample_job_fit)
  then have "fit_record sample_job" by (simp add: fit_record_def describe_keeps sample_job_def sample_simps)
  ultimately have "fit_record claimed_job" by (simp add: fit_record_def claimed_job_def)
  then show ?thesis by (rule fit_describe)
qed

text \<open>The one-file directory that holds a record.\<close>

lemma one_dir:
  assumes "canonicalise r = Inr c" "Validate c = Inr ()" "fit_record r" "rID r = i" "rCheckpoint c = []"
  obtains s q where "file_ok s" "file_look s i = Some q" "comes_back r q" "rCheckpoint q = []"
    "map fst s = [recordName i]" "fs_Load sound_host i s = Inr q"
proof -
  obtain b where "marshalRecord c = Inr b"
    using marshalRecord_total [OF Validate_well_formed [OF assms(2)] fit_canonicalise [OF assms(1,3)]] .
  then have e: "Encode r = Inr (c, b)"
    by (simp add: Encode_parts assms(1,2))
  note wr = written_comes_back [OF e assms(3)]
  let ?q = "respelled c" and ?s = "gomap_put (recordName i) (File b) []"
  have id: "rID ?q = i" using comes_back_fields(1) [OF wr(2)] assms(4) by simp
  have "file_ok []" by (simp add: file_ok_def gomap_wf_def file_look_def content_of_def)
  from file_ok_put [OF this wr(1) id wr(3)] have ok: "file_ok ?s" .
  have look: "file_look ?s i = Some ?q" unfolding file_look_put [OF wr(1)] by simp
  have load: "fs_Load sound_host i ?s = Inr ?q"
    using wr(1) by (simp add: fs_Load_def sound_host_def)
  have cp: "rCheckpoint ?q = []" by (simp add: respelled_def assms(5))
  from that [OF ok look wr(2) cp _ load] show thesis by simp
qed

lemma claimed_dir:
  obtains s q where "file_ok s" "file_look s ''j1'' = Some q" "rLease q = rLease claimed_job" "rState q = StateRunning"
    "rCheckpoint q = []" "map fst s = [''j1.json'']" "fs_Load sound_host ''j1'' s = Inr q"
proof -
  have fit: "fit_record claimed_job"
    using claimed_job_fit by (simp add: fit_record_def describe_keeps claimed_job_def sample_job_def sample_simps)
  obtain s q where s: "file_ok s" "file_look s ''j1'' = Some q" "comes_back claimed_job q" "rCheckpoint q = []"
    "map fst s = [recordName ''j1'']" "fs_Load sound_host ''j1'' s = Inr q"
    by (rule one_dir [OF claimed_job_canonical claimed_job_valid fit])
      (simp_all add: describe_keeps claimed_job_def sample_job_def sample_simps)
  note f = comes_back_fields [OF s(3)]
  have "rState q = StateRunning" using f(6) by (simp add: outcome_of_def claimed_job_def)
  from that [OF s(1,2) f(5) this s(4) _ s(6)] s(5) show thesis by (simp add: recordName_def)
qed

lemma finished_dir:
  obtains s q where "file_ok s" "file_look s ''j1'' = Some q" "rState q = StateComplete" "lEpoch (rLease q) = 1"
proof -
  let ?r = "claimed_job\<lparr>rState := StateComplete\<rparr>"
  have c: "canonicalise ?r = Inr (describe ?r)"
    by (simp add: canonicalise_def canonicalCheckpoint_def claimed_job_def sample_job_def sample_simps)
  have "Validate (describe ?r) = Inr ()"
    by (rule well_formed_Validate)
      (simp_all add: well_formed_def good_value_def parse_braces claimed_job_def sample_job_def eval_record ValidWant_def)
  moreover have "fit_record ?r"
    using claimed_job_fit by (simp add: fit_record_def describe_keeps claimed_job_def sample_job_def sample_simps)
  ultimately obtain s q where s: "file_ok s" "file_look s ''j1'' = Some q" "comes_back ?r q"
    by (rule one_dir [OF c]) (simp_all add: describe_keeps claimed_job_def sample_job_def sample_simps)
  note f = comes_back_fields [OF s(3)]
  have "rState q = StateComplete" using f(6) by (simp add: outcome_of_def)
  moreover have "lEpoch (rLease q) = 1" using f(5) by (simp add: claimed_job_def)
  ultimately show thesis using that s by blast
qed

section \<open>The lease protocol\<close>



lemma ValidString_w: "ValidString ''w1''" "ValidString ''w2''"
  by (simp_all add: byte_def)

lemma fits_claim:
  "owner \<in> {''w1'', ''w2''} \<Longrightarrow> 0 \<le> now + ttl \<Longrightarrow> now + ttl < 315537897600000000000 \<Longrightarrow> At (now + ttl) = now + ttl \<Longrightarrow>
     fits late (EClaim i owner ttl now)"
  using timely_small [of "now + ttl"] not_blank_w ValidString_w by (auto simp: fits_def proper_def)

lemma claimed_lease: "lEpoch (rLease claimed_job) = 1" "lOwner (rLease claimed_job) = ''w1''" "lExpiresAt (rLease claimed_job) = 6000"
  by (simp_all add: claimed_job_def)


text \<open>On a disk that does not fail, a job nobody holds is claimed: the record written is the one on disk
  with the new lease.\<close>

lemma canonicalise_shape:
  assumes "canonicalise r = Inr c"
  obtains cp d where "canonicalCheckpoint (rCheckpoint r) = Inr (cp, d)"
    "c = describe (r\<lparr>rCheckpoint := cp, rContent := (if d then declare_ranges (rContent r) else rContent r)\<rparr>)"
proof -
  obtain cp d where cp: "canonicalCheckpoint (rCheckpoint r) = Inr (cp, d)"
    using assms by (auto simp: canonicalise_def res_simps)
  with assms have "c = describe (r\<lparr>rCheckpoint := cp, rContent := (if d then declare_ranges (rContent r) else rContent r)\<rparr>)"
    by (cases d) (simp_all add: canonicalise_def)
  with cp that show thesis by blast
qed

lemma claimed_writes:
  assumes "Validate r = Inr ()" "fit_record r" "Encode r = Inr (c0, b0)" "ValidState st" "fit_lease L" "lRecall L = None"
  obtains c b where "Encode (r\<lparr>rLease := L, rState := st\<rparr>) = Inr (c, b)"
proof -
  let ?r = "r\<lparr>rLease := L, rState := st\<rparr>"
  have e: "canonicalise r = Inr c0" "Validate c0 = Inr ()" using assms(3) by (simp_all add: Encode_parts)
  obtain cp d where cp: "canonicalCheckpoint (rCheckpoint r) = Inr (cp, d)"
      "c0 = describe (r\<lparr>rCheckpoint := cp, rContent := (if d then declare_ranges (rContent r) else rContent r)\<rparr>)"
    using canonicalise_shape [OF e(1)] .
  define w where "w = ?r\<lparr>rCheckpoint := cp, rContent := (if d then declare_ranges (rContent r) else rContent r)\<rparr>"
  have c: "canonicalise ?r = Inr (describe w)"
    using cp(1) by (cases d) (simp_all add: canonicalise_def w_def)
  have "known_critical w" using Validate_known [OF assms(1)] by (simp add: known_critical_def w_def)
  then have content: "validate_content (describe w) = Inr ()" by (rule validate_content_describe)
  have "rCheckpoint c0 = cp" by (simp add: cp(2) describe_keeps)
  with e(2) have ok_cp: "cp \<noteq> [] \<longrightarrow> Valid cp" "refuseDuplicateNames cp = Inr ()"
    unfolding Validate_parts by simp_all
  have "Validate (describe w) = Inr ()"
    using assms(1,4,6) content ok_cp unfolding Validate_parts describe_keeps
    by (simp add: w_def validate_recall_def)
  moreover have "fit_record ?r" using assms(2,5) by (simp add: fit_record_def)
  then have "fit_record (describe w)" using fit_canonicalise [OF c] by blast
  ultimately obtain b where "marshalRecord (describe w) = Inr b"
    using marshalRecord_total [OF Validate_well_formed] by blast
  with that c \<open>Validate (describe w) = Inr ()\<close> show thesis by (simp add: Encode_parts)
qed

lemma Decode_valid: "Decode b = Inr r \<Longrightarrow> Validate r = Inr ()"
  by (auto simp: Decode_def res_simps)

lemma unranged_writes:
  assumes "rCheckpoint r = []" "Validate r = Inr ()" "fit_record r"
  obtains c b where "Encode r = Inr (c, b)" "rCheckpoint c = []"
proof -
  have "r\<lparr>rCheckpoint := []\<rparr> = r" using assms(1) by (cases r) simp
  then have "describe (r\<lparr>rCheckpoint := []\<rparr>) = describe r" by (rule arg_cong)
  then have c: "canonicalise r = Inr (describe r)" by (simp add: canonicalise_def canonicalCheckpoint_def assms(1))
  have "Validate (describe r) = Inr ()"
    using assms(2) Validate_fields [OF assms(2)] by (intro valid_describe [of r r]) auto
  moreover from this obtain b where "marshalRecord (describe r) = Inr b"
    using marshalRecord_total [OF Validate_well_formed fit_describe [OF assms(3)]] by blast
  ultimately show thesis using that c assms(1) by (simp add: Encode_parts describe_keeps)
qed

lemma claim_lands:
  assumes "file_ok s" "file_look s i = Some r" "\<not> Terminal (rState r)" "\<not> taken (rLease r) owner now"
    and "fits late (EClaim i owner ttl now)" "Encode r = Inr (c0, b0)"
  obtains s' c q where "fs_Claim sound_host (\<lambda>s. s) i owner ttl now s = (s', Inr c)" "rLease c = rLease q"
    "file_ok s'" "file_look s' i = Some q" "rCheckpoint r = [] \<longrightarrow> rCheckpoint q = []"
    "comes_back (r\<lparr>rLease := claimed_lease owner ttl now (rLease r), rState := claimed_state (rState r)\<rparr>) q"
proof -
  obtain d where d: "content_of s (recordName i) = Some d" "Decode d = Inr r"
    using assms(2) by (auto simp: file_look_def split: option.splits sum.splits)
  then have m: "map_of s (recordName i) = Some (File d)" by (auto simp: content_of_def split: option.splits entry.splits)
  have id: "rID r = i" "fit_record r" using assms(1,2) by (auto simp: file_ok_def)
  let ?w = "r\<lparr>rLease := claimed_lease owner ttl now (rLease r), rState := claimed_state (rState r)\<rparr>"
  have edit: "fs_claim_edit (lEpoch (rLease r)) owner ttl now r = Inr ?w"
    using assms(3,4) by (auto simp: fs_claim_edit_def taken_def claimed_lease_def claimed_state_def Let_def)
  have f: "ValidString owner" "timely (At (now + ttl))" "\<not> blank owner" using assms(5) by (simp_all add: fits_def proper_def)
  have st: "ValidState (claimed_state (rState r))"
    using Decode_valid [OF d(2)] by (auto simp: claimed_state_def Validate_parts ValidState_def)
  have l: "fit_lease (claimed_lease owner ttl now (rLease r))"
    using f by (simp add: claimed_lease_def fit_lease_def int64_wrap64)
  from claimed_writes [OF Decode_valid [OF d(2)] id(2) assms(6) st l]
  obtain c b where e: "Encode ?w = Inr (c, b)" by (auto simp: claimed_lease_def)
  have "fit_record ?w" using id(2) l by (simp add: fit_record_def)
  note wr = written_comes_back [OF e this]
  let ?s = "gomap_put (recordName i) (File b) s"
  have "rID (respelled c) = i" using comes_back_fields(1) [OF wr(2)] id by simp
  from file_ok_put [OF assms(1) wr(1) this wr(3)] have ok: "file_ok ?s" .
  have look: "file_look ?s i = Some (respelled c)" unfolding file_look_put [OF wr(1)] by simp
  have cp: "rCheckpoint r = [] \<longrightarrow> rCheckpoint (respelled c) = []"
  proof
    assume "rCheckpoint r = []"
    with e have "rCheckpoint c = []"
      by (auto simp: Encode_parts canonicalise_def canonicalCheckpoint_def describe_keeps)
    then show "rCheckpoint (respelled c) = []" by (simp add: respelled_def)
  qed
  have "fs_Claim sound_host (\<lambda>s. s) i owner ttl now s = (?s, Inr c)"
    using d m f id edit e
    by (simp add: fs_Claim_def fs_Load_def fs_ClaimFrom_def fs_change_def fs_closure_def sound_host_def content_of_def)
  moreover have "rLease c = rLease (respelled c)" by (simp add: respelled_def)
  ultimately show thesis using that ok look cp wr(2) by blast
qed


lemma claimed_dir_claim:
  assumes "file_ok s" "file_look s i = Some r" "rCheckpoint r = []" "\<not> Terminal (rState r)" "\<not> taken (rLease r) owner now"
    and "fits late (EClaim i owner ttl now)"
  obtains s' c q where "fs_Claim sound_host (\<lambda>s. s) i owner ttl now s = (s', Inr c)" "rLease c = rLease q"
    "file_ok s'" "file_look s' i = Some q" "rCheckpoint q = []"
    "comes_back (r\<lparr>rLease := claimed_lease owner ttl now (rLease r), rState := claimed_state (rState r)\<rparr>) q"
proof -
  have "Validate r = Inr ()" "fit_record r"
    using assms(1,2) by (auto simp: file_ok_def file_look_def dest: Decode_valid split: option.splits sum.splits)
  then obtain c0 b0 where "Encode r = Inr (c0, b0)" using unranged_writes [OF assms(3)] by blast
  from claim_lands [OF assms(1,2,4-6) this] that assms(3) show thesis by blast
qed


text \<open>C13: Work that is finished on disk stays finished: whatever any process asks of the store, its state,
  error, wish, progress and delegation, its owner and epoch stay as they are, and it stays the
  same job with the same spec.\<close>

theorem file_finished:
  assumes "host_laws h" "file_ok s" "list_all (fits late) es" "file_look s i = Some r" "Terminal (rState r)"
  shows "\<exists>q. file_look (run_all (file_run h late) es s) i = Some q \<and> ended_like r q \<and> same_job r q"
  using filesystem.protocol(3) [OF filesystem.intro [OF assms(1)] assms(2-)] .

lemma file_finished_witness:
  "\<exists>s q. file_look (run_all (file_run sound_host (\<lambda>t. t)) [EClaim ''j1'' ''w2'' 5000 13000] s) ''j1'' = Some q
     \<and> rState q = StateComplete \<and> lEpoch (rLease q) = 1"
proof -
  obtain t q where t: "file_ok t" "file_look t ''j1'' = Some q" "rState q = StateComplete" "lEpoch (rLease q) = 1"
    using finished_dir .
  have "list_all (fits (\<lambda>t. t)) [EClaim ''j1'' ''w2'' 5000 13000]" using fits_claim [of "''w2''" 13000 5000] by (simp add: At_def)
  from file_finished [OF sound_host_laws t(1) this t(2)] t(3)
  obtain p where p: "file_look (run_all (file_run sound_host (\<lambda>t. t)) [EClaim ''j1'' ''w2'' 5000 13000] t) ''j1'' = Some p"
    "ended_like q p" by (auto simp: Terminal_def)
  from p(2) have "rState p = rState q" "rLease p = (rLease q)\<lparr>lExpiresAt := lExpiresAt (rLease p)\<rparr>"
    by (simp_all add: ended_like_def outcome_of_def)
  then have "rState p = StateComplete" "lEpoch (rLease p) = 1" using t(3,4) by (simp, metis Lease.select_convs(2) Lease.surjective Lease.update_convs(3))
  with p(1) show ?thesis by blast
qed

text \<open>While a holder's lease runs nobody else can claim the job, and the attempt changes no record.\<close>

theorem file_claim_excluded:
  assumes "host_laws h" "file_ok s" "fits late (EClaim i owner ttl now)" "file_look s i = Some r"
    and "Held (rLease r) now" "owner \<noteq> lOwner (rLease r)"
  shows "\<exists>s' x. fs_Claim h (\<lambda>s. s) i owner ttl now s = (s', Inl x)
    \<and> (x \<in> {ErrLeaseHeld, ErrTerminal} \<or> os_error x) \<and> file_look s' = file_look s"
  using filesystem.protocol(4) [OF filesystem.intro [OF assms(1)] assms(2-)] by (simp add: file_run_def)

lemma file_claim_excluded_witness:
  "\<exists>s s' x. fs_Claim sound_host (\<lambda>s. s) ''j1'' ''w2'' 5000 2000 s = (s', Inl x)
     \<and> (x \<in> {ErrLeaseHeld, ErrTerminal} \<or> os_error x)"
proof -
  obtain s q where s: "file_ok s" "file_look s ''j1'' = Some q" "rLease q = rLease claimed_job"
    by (rule claimed_dir)
  from file_claim_excluded [OF sound_host_laws s(1) fits_claim s(2), of "''w2''" 2000 5000] s(3)
  show ?thesis by (force simp: claimed_lease Held_def At_def)
qed


section \<open>Claiming what was read\<close>

lemma accepted_write:
  assumes "host_laws h" "fs_change h i edit s = (s', Inr c)"
  obtains r w b where "file_look s i = Some r" "edit r = Inr w" "Encode w = Inr (c, b)" "s' = gomap_put (recordName i) (File b) s"
proof -
  obtain b where b: "fs_closure edit (content_of s (recordName i)) = Inr (b, c)" "s' = gomap_put (recordName i) (File b) s"
    using host_change [OF assms(1) assms(2) [unfolded fs_change_def]] by auto
  then obtain d r w where "content_of s (recordName i) = Some d" "Decode d = Inr r" "edit r = Inr w" "Encode w = Inr (c, b)"
    by (auto simp: fs_closure_Inr)
  with that b(2) look_bytes show thesis by blast
qed

lemma refused_write:
  assumes "host_laws h" "fs_change h i edit s = (s', Inl e)"
  shows "s' = s \<and> (\<forall>r x. file_look s i = Some r \<longrightarrow> edit r = Inl x \<longrightarrow> e = x \<or> os_error e)"
  using host_change [OF assms(1) assms(2) [unfolded fs_change_def]]
proof cases
  case (2 y)
  have "e = x" if "file_look s i = Some r" "edit r = Inl x" for r x
    using look_closure [of s i r edit x] that 2 by simp
  with 2 show ?thesis by blast
qed auto



section \<open>Ids\<close>

lemma append_less: "xs @ u < xs @ v \<longleftrightarrow> u < (v :: string)"
  by (induction xs) auto

lemma nat_digits_less:
  "length (nat_digits m) = length (nat_digits n) \<Longrightarrow> m < n \<Longrightarrow> nat_digits m @ x < nat_digits n @ y"
proof (induction n arbitrary: m x y rule: nat_digits.induct)
  case (1 n)
  have d: "digit a < digit b" if "a < b" "b < 10" for a b
    using that by (simp add: digit_def less_char_def byte_digit [unfolded byte_def])
  show ?case
  proof (cases "n < 10")
    case True
    with 1 d show ?thesis by (simp add: nat_digits.simps [of m] nat_digits.simps [of n])
  next
    case False
    have len: "0 < length (nat_digits k)" for k using nat_digits_not_sign [of k] by (subst nat_digits.simps) simp
    have "\<not> m < 10"
    proof
      assume "m < 10"
      with 1(2) False len [of "n div 10"] show False by (simp add: nat_digits.simps [of m] nat_digits.simps [of n])
    qed
    note split = nat_digits.simps [of m] nat_digits.simps [of n] this False
    show ?thesis
    proof (cases "m div 10 = n div 10")
      case True
      have "m mod 10 < n mod 10" using True 1(3) by (metis div_mult_mod_eq nat_add_left_cancel_less)
      with True d split show ?thesis by (simp add: append_less)
    next
      case False
      have "m div 10 < n div 10" using False 1(3) by (simp add: div_le_mono le_neq_implies_less)
      with 1(1) [of "m div 10" "[digit (m mod 10)] @ x" "[digit (n mod 10)] @ y"] 1(2) split show ?thesis by simp
    qed
  qed
qed

lemma nat_digits_length: "10 ^ k \<le> n \<Longrightarrow> n < 10 ^ Suc k \<Longrightarrow> length (nat_digits n) = Suc k"
proof (induction k arbitrary: n)
  case 0
  then show ?case by (simp add: nat_digits.simps [of n])
next
  case (Suc k)
  have "10 ^ k \<le> n div 10" "n div 10 < 10 ^ Suc k"
    using Suc.prems by (simp_all add: less_eq_div_iff_mult_less_eq div_less_iff_less_mult)
  moreover have "\<not> n < 10" using Suc.prems(1) one_le_power [of "10 :: nat" k] by (simp, linarith)
  ultimately show ?case using Suc.IH [of "n div 10"] by (simp add: nat_digits.simps [of n])
qed

text \<open>C39: An id made later sorts after one made before, whatever the random half, while a millisecond clock
  has thirteen digits (from 2001 to 2286): the sorted names of a directory are in order of
  submission.\<close>

theorem NewID_order:
  assumes "10 ^ 12 \<le> m" "m < n" "n < 10 ^ 13"
  shows "NewID m x < NewID n y"
proof -
  have "length (nat_digits (nat k)) = Suc 12" if "10 ^ 12 \<le> k" "k < 10 ^ 13" for k :: int
    using that by (intro nat_digits_length) (simp_all add: nat_less_iff le_nat_iff)
  with assms have "length (nat_digits (nat m)) = length (nat_digits (nat n))" by simp
  with assms show ?thesis by (simp add: NewID_def FormatInt_def nat_digits_less)
qed

lemma NewID_order_witness: "NewID 1700000000000 [CHR 0xFF] < NewID 1700000000001 [CHR 0x00]"
  by (rule NewID_order) simp_all

section \<open>What a sweep reports\<close>

lemma list_loop_eq:
  "list_loop h s names out unread =
     (out @ map projr (filter (\<lambda>x. \<not> isl x) (map (\<lambda>i. fs_Load h i s) names)),
      foldl (\<lambda>u i. note_unread i (projl (fs_Load h i s)) u) unread (filter (\<lambda>i. isl (fs_Load h i s)) names))"
  by (induction names arbitrary: out unread) (auto split: sum.split)

lemma note_all:
  "unReason u \<noteq> None \<Longrightarrow> foldl (\<lambda>u i. note_unread i (f i) u) u names = u\<lparr>unIDs := unIDs u @ names\<rparr>"
  by (induction names arbitrary: u) (auto simp: note_unread_def Let_def)

lemma note_first: "note_unread i e \<lparr>unIDs = [], unReason = None\<rparr> = \<lparr>unIDs = [i], unReason = Some e\<rparr>"
  by (simp add: note_unread_def)

lemma TrimSuffix_record [simp]: "TrimSuffix (i @ ''.json'') ''.json'' = i"
  by (simp add: TrimSuffix_def)

lemma HasSuffix_iff: "HasSuffix s suf \<longleftrightarrow> (\<exists>i. s = i @ suf)"
proof
  assume "HasSuffix s suf"
  then have "s = take (length s - length suf) s @ suf" by (metis HasSuffix_def append_take_drop_id)
  then show "\<exists>i. s = i @ suf" by blast
qed (auto simp: HasSuffix_def)

lemma set_job_names:
  assumes "gomap_wf s"
  shows "set (job_names s) = {i. content_of s (recordName i) \<noteq> None}" "distinct (job_names s)"
proof -
  have mem: "(name, e) \<in> set s \<longleftrightarrow> map_of s name = Some e" for name e
    using assms by (simp add: gomap_wf_def)
  show "set (job_names s) = {i. content_of s (recordName i) \<noteq> None}"
    by (force simp: job_names_def HasSuffix_iff content_of_def recordName_def mem split: option.split entry.split)
  let ?ok = "\<lambda>(name, e). \<not> (e = Dir \<or> \<not> HasSuffix name ''.json'')"
  have "inj_on (\<lambda>(name, _). TrimSuffix name ''.json'') (set (filter ?ok s))"
    using assms by (auto simp: inj_on_def HasSuffix_iff gomap_wf_def dest: eq_key_imp_eq_value)
  moreover have "distinct (filter ?ok s)" using assms by (simp add: gomap_wf_def distinct_map)
  ultimately show "distinct (job_names s)" by (simp add: job_names_def distinct_map)
qed

text \<open>C12: A sweep has two answers and loses neither.  \<open>List\<close> reads every record file of the directory once,
  in ascending order; it returns exactly the records that could be read, and beside them the
  ids of exactly those that could not, with the reason of the first; nothing is missing from
  both.\<close>

theorem fs_List_correct:
  assumes "host_laws h" "gomap_wf s"
  shows "case fs_List h s of
      Inl e \<Rightarrow> os_error e
    | Inr (rs, unread) \<Rightarrow>
        let ids = job_names s; lost = filter (\<lambda>i. isl (fs_Load h i s)) ids in
          sorted ids \<and> distinct ids \<and> set ids = {i. content_of s (recordName i) \<noteq> None}
        \<and> map Inr rs = filter (\<lambda>x. \<not> isl x) (map (\<lambda>i. fs_Load h i s) ids)
        \<and> unread = (case lost of [] \<Rightarrow> None
            | i # is \<Rightarrow> Some \<lparr>unIDs = lost, unReason = Some (projl (fs_Load h i s))\<rparr>)"
proof (cases "hScan h s")
  case (Inl e)
  with host_scan_law [OF assms(1), of s] show ?thesis by (auto simp: fs_List_def)
next
  case (Inr u)
  define lost where "lost = filter (\<lambda>i. isl (fs_Load h i s)) (job_names s)"
  have "orNil (foldl (\<lambda>u i. note_unread i (projl (fs_Load h i s)) u) \<lparr>unIDs = [], unReason = None\<rparr> lost)
      = (case lost of [] \<Rightarrow> None | i # is \<Rightarrow> Some \<lparr>unIDs = lost, unReason = Some (projl (fs_Load h i s))\<rparr>)"
    by (cases lost) (simp_all add: orNil_def note_first note_all)
  moreover have "map Inr (map projr (filter (\<lambda>x. \<not> isl x) xs)) = filter (\<lambda>x. \<not> isl x) xs" for xs :: "Record res list"
    by (induction xs) (auto simp: sum.collapse(2))
  ultimately show ?thesis
    using set_job_names [OF assms(2)] Inr
    by (simp add: fs_List_def list_loop_eq lost_def [symmetric]) (simp add: job_names_def)
qed

lemma distinct_one: "distinct xs \<Longrightarrow> set xs = {a} \<Longrightarrow> xs = [a]"
  by (cases xs; cases "tl xs") auto

lemma fs_List_correct_witness:
  "\<exists>s q. fs_List sound_host s = Inr ([q], None) \<and> rState q = StateRunning"
proof -
  obtain s q where s: "file_ok s" "rState q = StateRunning" "map fst s = [''j1.json'']" "file_look s ''j1'' = Some q"
    "fs_Load sound_host ''j1'' s = Inr q" by (rule claimed_dir)
  have wf: "gomap_wf s" using s(1) by (simp add: file_ok_def)
  obtain rs un where "list_loop sound_host s (job_names s) [] \<lparr>unIDs = [], unReason = None\<rparr> = (rs, un)" by fastforce
  then have l: "fs_List sound_host s = Inr (rs, orNil un)" by (simp add: fs_List_def) (simp add: sound_host_def)
  have "set (job_names s) \<subseteq> {''j1''}"
  proof -
    have "i = ''j1''" if "content_of s (recordName i) \<noteq> None" for i
    proof -
      have "recordName i \<in> fst ` set s" using that by (auto simp: content_of_def image_iff dest!: map_of_SomeD split: option.splits) force
      then have "recordName i \<in> set (map fst s)" by simp
      then have "recordName i = recordName ''j1''" using s(3) by (simp add: recordName_def)
      then show ?thesis by simp
    qed
    then show ?thesis using set_job_names(1) [OF wf] by blast
  qed
  moreover have "content_of s (recordName ''j1'') \<noteq> None" using s(4) by (auto simp: file_look_def split: option.splits)
  ultimately have "set (job_names s) = {''j1''}" using set_job_names(1) [OF wf] by blast
  with set_job_names(2) [OF wf] have "job_names s = [''j1'']" by (rule_tac distinct_one)
  with fs_List_correct [OF sound_host_laws wf] l s(5) have "map Inr rs = [Inr q :: Record res]" "orNil un = None" by simp_all
  then show ?thesis using l s(2) by auto
qed

lemma fs_sweep_filter: "fs_sweep (\<lambda>_. now) n rs = filter (\<lambda>r. fs_Claimable now r \<and> Stranded r) rs"
  by (induction rs arbitrary: n) simp_all

lemma fs_Orphans_filter:
  "fs_List h s = Inr (rs, unread) \<Longrightarrow>
     fs_Orphans h (\<lambda>_. now) s = Inr (filter (\<lambda>r. fs_Claimable now r \<and> Stranded r) rs, unread)"
  by (simp add: fs_Orphans_def fs_sweep_filter)

section \<open>Submitting\<close>

lemma fs_Submit_eq:
  "fs_Submit h newid now r s =
     (let i = (if rID r = [] then newid else rID r) in
      case Encode (submitted i now r) of
        Inl e \<Rightarrow> (s, Inl e)
      | Inr (c, b) \<Rightarrow>
          (case hWrite h s (recordName (rID c)) None b of
             (s, Inl e) \<Rightarrow> (s, Inl (if e = ErrMoved then ErrInvalid else e))
           | (s, Inr _) \<Rightarrow> (s, Inr (rID c))))"
proof -
  have d: "describe (r\<lparr>rID := i\<rparr>) = describe r\<lparr>rID := i\<rparr>" for i
    by (simp add: describe_eq derived_def derived_critical_def)
  have e: "describe r\<lparr>rID := rID r\<rparr> = describe r" by (simp add: describe_eq)
  show ?thesis
    by (cases "rID r = []") (simp_all add: fs_Submit_def submitted_def Let_def describe_keeps d e)
qed

text \<open>C14: \<open>Submit\<close> writes one new file and never replaces one.  It stores what it was given, named,
  declared, pending when no state was given and stamped with the time, under the id asked for
  or a fresh one, and answers that id; what is read back is that record up to the spelling of
  its payloads.  A refusal changes nothing: the record cannot be encoded, the id is taken, or
  the system failed.\<close>

theorem fs_Submit_correct:
  assumes "host_laws h" "file_ok s" "i = (if rID r = [] then newid else rID r)" "fit_record (submitted i now r)"
  shows "case fs_Submit h newid now r s of
      (s', Inl e) \<Rightarrow> s' = s \<and> (Encode (submitted i now r) = Inl e \<or> e = ErrInvalid \<and> content_of s (recordName i) \<noteq> None \<or> os_error e)
    | (s', Inr j) \<Rightarrow> j = i \<and> content_of s (recordName i) = None \<and> file_ok s'
        \<and> (\<exists>q. file_look s' = (file_look s)(i \<mapsto> q) \<and> comes_back (submitted i now r) q)"
proof (cases "Encode (submitted i now r)")
  case (Inl e)
  then show ?thesis using assms(3) by (simp add: fs_Submit_eq Let_def)
next
  case (Inr a)
  obtain c b where a: "a = (c, b)" by (rule prod.exhaust)
  note e = Inr [unfolded a]
  note wr = written_comes_back [OF e assms(4)]
  have id: "rID c = i" "rID (respelled c) = i"
    using comes_back_fields(1) [OF wr(2)] by (simp_all add: respelled_def)
  have sub: "fs_Submit h newid now r s = (case hWrite h s (recordName i) None b of
             (s, Inl e) \<Rightarrow> (s, Inl (if e = ErrMoved then ErrInvalid else e)) | (s, Inr _) \<Rightarrow> (s, Inr i))"
    unfolding fs_Submit_eq Let_def assms(3) [symmetric] e by (simp add: id(1))
  consider x where "hWrite h s (recordName i) None b = (s, Inl x)" "os_error x"
    | "content_of s (recordName i) = None" "hWrite h s (recordName i) None b = (gomap_put (recordName i) (File b) s, Inr ())"
    | "content_of s (recordName i) \<noteq> None" "hWrite h s (recordName i) None b = (s, Inl ErrMoved)"
    using host_write_law [OF assms(1), of s "recordName i" None b] by (auto split: if_splits)
  then show ?thesis
  proof cases
    case (1 x)
    then show ?thesis by (auto simp: sub)
  next
    case 2
    moreover have "file_ok (gomap_put (recordName i) (File b) s)"
      using file_ok_put [OF assms(2) wr(1) id(2) wr(3)] .
    ultimately show ?thesis using file_look_put [OF wr(1)] wr(2) by (auto simp: sub)
  qed (simp add: sub)
qed

lemma fs_Submit_correct_witness:
  "\<exists>s'. fs_Submit sound_host ''j9'' 1000 sample [] = (s', Inr ''j1'') \<and> file_ok s'"
proof -
  have p: "ValidString ''j1''" "ValidString ''download''" by (simp_all add: byte_def)
  have fit: "fit_record (submitted ''j1'' 1000 sample)"
    using p timely_small [of 1000] timely_small [of 0]
    by (simp add: submitted_def Let_def fit_record_def eval_record fit_progress_def fit_lease_def At_def int64_def shallow_def
        parse_braces gomap_wf_def) code_simp
  have "Validate (submitted ''j1'' 1000 sample) = Inr ()"
    by (rule well_formed_Validate)
      (simp_all add: well_formed_def good_value_def parse_braces submitted_def Let_def eval_record)
  then obtain c b where e: "Encode (submitted ''j1'' 1000 sample) = Inr (c, b)"
    by (rule unranged_writes [rotated, OF _ fit]) (simp_all add: submitted_def Let_def describe_keeps sample_simps)
  then have id: "rID c = ''j1''" using comes_back_fields(1) [OF written_comes_back(2) [OF e fit]] by (simp add: respelled_def)
  have ok: "file_ok []" by (simp add: file_ok_def gomap_wf_def file_look_def content_of_def)
  have "rID sample = ''j1''" by (simp add: sample_def)
  then have "fs_Submit sound_host ''j9'' 1000 sample [] = ([(recordName ''j1'', File b)], Inr ''j1'')"
    using e id by (simp add: fs_Submit_eq Let_def sound_host_def content_of_def)
  with fs_Submit_correct [OF sound_host_laws ok, of "''j1''" sample "''j9''" 1000] fit \<open>rID sample = _\<close> show ?thesis by simp
qed

end
