(* ===== verification/Bindings.thy ===== *)
theory Bindings
  imports FileSafety
begin

text \<open>
  The same application on two bindings: what the file store accepts the memory store accepts too,
  with the same effect on the job, and what the contract refuses both refuse with the same error.
  The two records may differ in their declaration, in their last-write time and in the spelling
  of their opaque payloads.
\<close>

section \<open>Records that tell the same\<close>

definition essence :: "Record \<Rightarrow> Record" where
  "essence r = (body r)\<lparr>rSpec := [], rExtensions := []\<rparr>"

definition alike :: "Record \<Rightarrow> Record \<Rightarrow> bool" where
  "alike r q \<longleftrightarrow> rLease r = rLease q \<and> essence r = essence q \<and> same_tree (rSpec r) (rSpec q)
     \<and> (\<forall>k. rel_option same_tree (map_of (rExtensions r) k) (map_of (rExtensions q) k))"

lemma rel_option_same_tree_refl [simp]: "rel_option same_tree x x"
  by (cases x) simp_all

lemma rel_option_same_tree_trans:
  "rel_option same_tree x y \<Longrightarrow> rel_option same_tree y z \<Longrightarrow> rel_option same_tree x z"
  by (cases x; cases y; cases z) (auto intro: same_tree_trans)

lemma alike_trans: "alike r q \<Longrightarrow> alike q p \<Longrightarrow> alike r p"
  unfolding alike_def by (blast intro: same_tree_trans rel_option_same_tree_trans dest: trans)

lemma same_tree_sym: "same_tree a b \<Longrightarrow> same_tree b a"
  by (simp add: same_tree_def)

lemma rel_option_same_tree_sym: "rel_option same_tree x y \<Longrightarrow> rel_option same_tree y x"
  by (cases x; cases y) (auto intro: same_tree_sym)

lemma alike_sym: "alike r q \<Longrightarrow> alike q r"
  unfolding alike_def by (metis same_tree_sym rel_option_same_tree_sym)

declare alike_trans [trans]

lemma comes_back_alike:
  assumes "comes_back w q"
  shows "alike w q"
proof -
  obtain content critical spec cp ext where q: "q = w\<lparr>rContent := content, rCritical := critical, rSpec := spec,
      rCheckpoint := cp, rExtensions := ext\<rparr>"
    using assms unfolding comes_back_def by blast
  have "same_tree (rSpec w) (rSpec q)" "\<forall>k. rel_option same_tree (map_of (rExtensions w) k) (map_of (rExtensions q) k)"
    using assms unfolding comes_back_def by blast+
  then show ?thesis by (simp add: alike_def q essence_def body_def)
qed

text \<open>Records with one body and one lease are alike.\<close>

lemma body_alike:
  assumes "body r = body q" "rLease r = rLease q"
  shows "alike r q"
proof -
  have "rSpec r = rSpec q" "rExtensions r = rExtensions q"
    using body_fields [OF assms(1)] by simp_all
  with assms show ?thesis by (simp add: alike_def essence_def)
qed

lemma essence_fields:
  assumes "essence r = essence q"
  shows "rState r = rState q" "rDelegation r = rDelegation q" "rIntent r = rIntent q" "rError r = rError q"
proof -
  have f: "rState (essence p) = rState p" "rDelegation (essence p) = rDelegation p" "rIntent (essence p) = rIntent p"
    "rError (essence p) = rError p" for p
    by (simp_all add: essence_def)
  from arg_cong [OF assms, of rState] arg_cong [OF assms, of rDelegation] arg_cong [OF assms, of rIntent]
    arg_cong [OF assms, of rError]
  show "rState r = rState q" "rDelegation r = rDelegation q" "rIntent r = rIntent q" "rError r = rError q"
    unfolding f .
qed

lemma essence_update:
  assumes "essence r = essence q"
  shows "essence (r\<lparr>rState := x\<rparr>) = essence (q\<lparr>rState := x\<rparr>)" "essence (r\<lparr>rIntent := i\<rparr>) = essence (q\<lparr>rIntent := i\<rparr>)"
proof -
  have "essence (p\<lparr>rState := x\<rparr>) = (essence p)\<lparr>rState := x\<rparr>" "essence (p\<lparr>rIntent := i\<rparr>) = (essence p)\<lparr>rIntent := i\<rparr>" for p
    by (simp_all add: essence_def body_def)
  with assms show "essence (r\<lparr>rState := x\<rparr>) = essence (q\<lparr>rState := x\<rparr>)" "essence (r\<lparr>rIntent := i\<rparr>) = essence (q\<lparr>rIntent := i\<rparr>)"
    by simp_all
qed

lemma alike_set:
  assumes "alike r q"
  shows "alike (r\<lparr>rLease := l, rState := x\<rparr>) (q\<lparr>rLease := l, rState := x\<rparr>)"
    "alike (r\<lparr>rIntent := i\<rparr>) (q\<lparr>rIntent := i\<rparr>)" "alike (r\<lparr>rLease := l\<rparr>) (q\<lparr>rLease := l\<rparr>)"
proof -
  have "essence (p\<lparr>rLease := l\<rparr>) = essence p" for p :: Record by (simp add: essence_def body_def)
  moreover have "essence (p\<lparr>rLease := l, rState := x\<rparr>) = essence (p\<lparr>rState := x\<rparr>)" for p :: Record
    by (simp add: essence_def body_def)
  note l = calculation this
  have e: "essence r = essence q" using assms by (simp add: alike_def)
  from assms l essence_update [OF e] show "alike (r\<lparr>rLease := l, rState := x\<rparr>) (q\<lparr>rLease := l, rState := x\<rparr>)"
    "alike (r\<lparr>rIntent := i\<rparr>) (q\<lparr>rIntent := i\<rparr>)" "alike (r\<lparr>rLease := l\<rparr>) (q\<lparr>rLease := l\<rparr>)"
    by (simp_all add: alike_def)
qed

section \<open>One event on two records\<close>

text \<open>The closure of an update sees the spelling, so it may tell the two apart; every other event cannot.\<close>

definition blind :: "event \<Rightarrow> bool" where
  "blind e \<longleftrightarrow> (case e of EUpdate _ _ _ _ _ \<Rightarrow> False | _ \<Rightarrow> True)"

lemma refusal_alike: "alike r q \<Longrightarrow> refusal e (Some r) = refusal e (Some q)"
  using essence_fields(1) [of r q] by (cases e) (auto simp: alike_def write_refusal_def)

text \<open>The record a step makes, as a function of the record it is made on.\<close>

definition effect :: "event \<Rightarrow> Record \<Rightarrow> Record" where
  "effect e r = (case e of
     EClaim i owner ttl now \<Rightarrow> r\<lparr>rLease := claimed_lease owner ttl now (rLease r), rState := claimed_state (rState r)\<rparr>
   | ERenew i epoch ttl now1 now2 \<Rightarrow> r\<lparr>rLease := (rLease r)\<lparr>lExpiresAt := renewedUntil (rLease r) (now2 + ttl)\<rparr>\<rparr>
   | ERecall i epoch reason by' grace now \<Rightarrow>
       (case recall r now epoch reason by' grace of Inl _ \<Rightarrow> r | Inr w \<Rightarrow> r\<lparr>rLease := rLease w\<rparr>)
   | ERelease i epoch now1 now2 now3 \<Rightarrow> (case release_edit now2 r of Inl _ \<Rightarrow> r | Inr w \<Rightarrow> w)
   | ESetIntent i want by' now \<Rightarrow> r\<lparr>rIntent := Some \<lparr>iWant = want, iBy = by', iAt = At now\<rparr>\<rparr>
   | EUpdate _ _ _ _ _ \<Rightarrow> r)"

lemma body_lease [simp]: "body (r\<lparr>rLease := l\<rparr>) = body r"
  by (simp add: body_def)

lemma step_effect:
  assumes "lease_step e r w" "blind e"
  shows "alike w (effect e r)"
proof (rule body_alike)
  have u: "body (r\<lparr>rLease := l, rState := x\<rparr>) = body (r\<lparr>rState := x\<rparr>)" for l x by (simp add: body_def)
  from assms(1) show "body w = body (effect e r)"
  proof cases
    case (release epoch now1 now2 v i now3)
    then show ?thesis by (simp add: effect_def)
  qed (use assms(2) u in \<open>simp_all add: effect_def blind_def\<close>)
  from assms(1) show "rLease w = rLease (effect e r)"
  proof cases
    case (release epoch now1 now2 v i now3)
    then show ?thesis by (simp add: effect_def)
  qed (use assms(2) in \<open>simp_all add: effect_def blind_def\<close>)
qed

lemma recall_lease_cong:
  assumes "rState r = rState q" "rLease r = rLease q"
  shows "(case recall r now epoch reason by' grace of Inl e \<Rightarrow> Inl e | Inr w \<Rightarrow> Inr (rLease w))
       = (case recall q now epoch reason by' grace of Inl e \<Rightarrow> Inl e | Inr w \<Rightarrow> Inr (rLease w))"
  using assms by (simp add: recall_def Let_def)

lemma effect_alike:
  assumes "alike r q" "blind e"
  shows "alike (effect e r) (effect e q)"
proof -
  have s: "rState r = rState q" "rLease r = rLease q" "rDelegation r = rDelegation q"
    using assms(1) essence_fields [of r q] by (simp_all add: alike_def)
  show ?thesis
  proof (cases e)
    case (ERelease i epoch now1 now2 now3)
    have "Delegated (r\<lparr>rLease := l\<rparr>) = Delegated (q\<lparr>rLease := l\<rparr>)" for l using s by (simp add: Delegated_def)
    with s ERelease alike_set(1,3) [OF assms(1)] show ?thesis
      by (simp add: effect_def release_edit_def Let_def)
  next
    case (ERecall i epoch reason by' grace now)
    with recall_lease_cong [OF s(1,2), of now epoch reason by' grace] alike_set(3) [OF assms(1)] assms(1) show ?thesis
      by (auto simp: effect_def split: sum.splits)
  qed (use assms s alike_set [OF assms(1)] in \<open>simp_all add: effect_def blind_def\<close>)
qed

section \<open>The memory store accepts what nothing refuses\<close>

lemma mem_accepts:
  assumes "mem_ok m" "map_of m (target e) = Some r" "refusal e (Some r) = None" "proper e" "blind e"
  shows "\<exists>m' p. mem_run e m = (m', Inr p)"
proof (cases e)
  case (EClaim i owner ttl now)
  with assms show ?thesis
    by (auto simp: mem_run_def mem_Claim_def on_record_def mem_claim_edit_def taken_def Let_def split: if_splits)
next
  case (ERenew i epoch ttl now1 now2)
  with assms show ?thesis
    by (auto simp: mem_run_def mem_Renew_def on_record_def mem_renew_edit_def split: if_splits)
next
  case (ERecall i epoch reason by' grace now)
  with assms show ?thesis
    by (auto simp: mem_run_def mem_Recall_def on_record_def mem_recall_edit_def recall_def write_refusal_def Let_def split: if_splits)
next
  case (ERelease i epoch now1 now2 now3)
  have r: "Validate r = Inr ()" using assms(1,2) by (auto simp: mem_ok_def)
  obtain w where w: "release_edit now2 r = Inr w" by (simp add: release_edit_def Let_def)
  then have "unmoved (immutablesOf r) w = Inr ()" using release_edit_lease unmoved_iff by blast
  moreover have "Validate (describe (w\<lparr>rUpdatedAt := At now3\<rparr>)) = Inr ()"
    using w r Validate_fields [OF r]
    by (intro valid_describe [OF r]) (auto simp: release_edit_def Let_def ValidState_def split: if_splits)
  ultimately show ?thesis
    using assms ERelease w
    by (auto simp: mem_run_def mem_Update_def on_record_def mem_update_edit_def write_refusal_def Let_def split: if_splits)
next
  case (ESetIntent i want by' now)
  with assms show ?thesis
    by (auto simp: mem_run_def mem_SetIntent_def on_record_def mem_intent_edit_def split: if_splits)
qed (use assms in \<open>simp add: blind_def\<close>)

section \<open>The simulation\<close>

text \<open>Every job the directory holds the map holds too, and tells the same.\<close>

definition mirrors :: "mem \<Rightarrow> jobs_dir \<Rightarrow> bool" where
  "mirrors m s \<longleftrightarrow> (\<forall>i q. file_look s i = Some q \<longrightarrow> (\<exists>r. map_of m i = Some r \<and> alike r q))"


lemma alike_refl [simp]: "alike r r"
  by (simp add: alike_def)


end
