(* ===== verification/Spec2Isabelle.thy ===== *)
theory Spec2Isabelle
  imports Checkpoint Handle OperationsSafety StandingSafety CodecSafety Wire Bindings
begin

text \<open>
  A model of the job layer under go/: the record of a job and its text, the stores that keep
  records and the lease protocol they promise, the protocol that carries a store to another
  process, and the provider that turns an accepted request into exactly one job.

  \<^bold>\<open>Parts and how they interact.\<close>  A job is a \<open>Record\<close> (record.go): an opaque spec and checkpoint,
  a state, a lease with an epoch, an intent, and a declaration of the features it uses.  A store
  (interface.go) keeps records; every write goes through a lease or an intent, and is refused when
  the caller's epoch is not the record's.  One binding keeps records in memory (memory.go), one in
  files, one for each record (store.go); a
  handle (handle.go) and the decision that is asked again about accepted work (standing.go) are
  clients of the store.  A record leaves the process as one JSON document (record.go) and crosses
  a connection inside a request or a response (rec/rec.go, wire.go).  The acceptance provider
  (acceptanceprovider/) writes a journal for each request before it submits the job, and answers
  from the journal for ever after (abstraction/job/acceptance/decision.go).

  \<^bold>\<open>Theories, in the order they build on each other.\<close>

  \<^item> Prelude: bytes, errors as values, Go maps, int64 arithmetic, the collections of rules.
  \<^item> GoText, Json, JsonText, JsonRoundtrip, Marshal, TimeText, Tokens: what the source uses of Go's
    unicode, strings, encoding/json and time packages, with the round trips of each.
  \<^item> Ranges, Checkpoint: ranges.go, sets of proven byte ranges and their place in a checkpoint.
  \<^item> Envelope, JobRecord, Immutable: envelope.go, record.go, immutable.go.
  \<^item> Codec, CodecRoundtrip, CodecSafety: \<open>Encode\<close> and \<open>Decode\<close> of record.go.
  \<^item> Leases, StoreSpec: the lease edits and the abstract contract of interface.go, as a step
    relation on one record and the locales \<open>lease_store\<close> (any binding) and \<open>job_store\<close> (one that keeps
    the records themselves, a sublocale of the first).
  \<^item> MemoryStore, MemoryLease: memory.go and its interpretation of \<open>job_store\<close>.
  \<^item> FileStore, FileFit, FileLease, FileSafety: store.go; a host that keeps its laws (locale
    \<open>filesystem\<close>) makes it a \<open>lease_store\<close>.  Bindings: what the file store accepts the memory store
    accepts.
  \<^item> Handle: handle.go.
  \<^item> Decision, Journal, Provider, ProviderSafety: decision.go, provider.go, journal_codec.go,
    subject.go, rerun.go.
  \<^item> Operations, OperationsSafety, Standing, StandingSafety: operations.go and standing.go.
  \<^item> WireReader, WireText, WireCodec, WireRoundtrip, Wire: rec/rec.go and wire.go.

  A definition has the name of the function, method or type it translates; where a Go type has
  several methods of one name the definition carries a prefix (\<open>mem_\<close> for the memory store,
  \<open>standing_\<close> for the store of an executor).

  \<^bold>\<open>Conventions.\<close>  A Go string and a byte slice are both lists of bytes.  An \<open>int64\<close> is an \<open>int\<close> with
  the wrap-around written out (\<open>wrap64\<close>) where it can happen; a \<open>time\<close> is a number of nanoseconds,
  with 0 for the zero value, and \<open>At\<close> cuts it to the microseconds a \<open>Timestamp\<close> has.  An error is the sentinel it wraps
  (\<open>errors.Is\<close> is all the code asks), \<open>'a res\<close> is an error or a value, and a panic is a value of its
  own where the code can reach one.  Every reading of the clock, every random identifier and
  every choice of other callers between two calls is an argument.  What belongs to other modules
  (SHA-256, path rules, the executor of work, the rule that decides again, the file system and the
  module cas) is an argument too; where a property relies on it the hypothesis is named
  (\<open>host_laws\<close>) and a concrete instance meets it (\<open>sound_host\<close>).

  \<^bold>\<open>What the lemmas show.\<close>

  \<^item> Ranges and checkpoints: every operation on a set of ranges is the operation on the set of
    bytes it stands for, the canonical form is unique, and what is written into a checkpoint is
    read back with every other key unchanged.
  \<^item> Record and codec: what \<open>Validate\<close> accepts is well formed; \<open>Decode (Encode r)\<close> is \<open>r\<close> up to the
    spelling of its opaque payloads; the two scans accept exactly the documents at most 64 deep
    without a repeated name.
  \<^item> Stores: from the contract alone, epochs only increase, a stale holder is fenced, a held job is
    not claimed by somebody else and finished work stays finished, whatever operations run in
    between; the memory store and the file store meet the contract, the second whatever its file
    system does, and the second refines the first.  \<open>Submit\<close> never replaces a job, a sweep loses
    neither what it read nor what it could not read, and a stale claim is refused.
  \<^item> Provider: the fate of a request moves only from unseen to sealed or admitted; answers never
    contradict each other; an accepted answer has its journal and its record on disk.  Each step
    may fail at every point the source names as a fault point.
  \<^item> Standing decisions: the wrapped store is a sequence of operations of the store below it; work
    whose rule refuses it makes no progress and is ended; no call for a pass is lost.
  \<^item> Service protocol: both messages are read back as they were written, every text is answered
    with a message or a refusal in the protocol's own words, and every sentinel error crosses the
    connection as itself.

  \<^bold>\<open>Fuel and bounds.\<close>  The JSON parser runs on fuel \<open>2 * length + 1\<close>: each call consumes a byte or
  descends once after consuming one, so the fuel is never exhausted (proved in JsonRoundtrip).
  The walk over an unknown value of a message (\<open>walk_fuel\<close>) and the loop over its fields
  (\<open>message_loop\<close>) are bounded the same way; \<open>decoders_answer\<close> states that neither runs out.
  Statements about epochs assume fewer than \<open>2 ^ 63\<close> claims, where the field wraps.

  \<^bold>\<open>Not modelled.\<close>  The record codec the generator emits into rec/rec.go and the message codec it
  emits into abstraction/job/acceptance/rec.go (generated code over the primitives of WireReader);
  the server and the client of the service protocol (serve.go, remote.go); the sleep inhibitors, process probes and links of the operating system; subscriptions (polling and channels);
  the inventory and the one-off migration of older stores; the texts of error messages.
\<close>

end
